(* ===== verification/S4_Prelude.thy ===== *)
theory S4_Prelude
  imports Main "HOL-Library.Word" "HOL-Library.Signed_Division" "HOL-Library.Multiset"
    "HOL-Library.Sublist"
begin

text \<open>
  Shared vocabulary of the development: Rust's fixed-width integers as \<open>int\<close>/\<open>nat\<close> with the
  saturation and the wrap-around written out, byte buffers, the \<open>str\<close> functions of the standard
  library the sources call (split, strip, trim, decimal printing and parsing), results of fallible
  code, and the generic lemmas on lists and results that the component theories rest on.
\<close>

section \<open>Collections of facts\<close>

named_theorems s4_width \<open>bounds of the fixed-width integers\<close>
named_theorems s4_text \<open>laws of the str functions\<close>

section \<open>Types\<close>

text \<open>
  A \<^verbatim>\<open>Vec<u8>\<close> is a list of 8-bit words. A Rust \<^verbatim>\<open>String\<close> is the list of its UTF-8 bytes, one
  \<^typ>\<open>char\<close> per byte, so \<^verbatim>\<open>len()\<close> is \<^const>\<open>length\<close>. A fallible function returns
  \<open>'e + 'a\<close>, with \<^const>\<open>Inl\<close> for \<^verbatim>\<open>Err\<close>.
\<close>

type_synonym byte = "8 word"
type_synonym bytes = "byte list"

abbreviation NL :: byte where "NL \<equiv> 10"

definition as_bytes :: "string \<Rightarrow> bytes" where
  "as_bytes s = map (\<lambda>c. word_of_nat (of_char c)) s"

lemma length_as_bytes [simp]: "length (as_bytes s) = length s"
  by (simp add: as_bytes_def)

section \<open>Fixed-width integers\<close>

definition i64_MIN :: int where "i64_MIN = - (2 ^ 63)"
definition i64_MAX :: int where "i64_MAX = 2 ^ 63 - 1"
definition u64_MAX :: nat where "u64_MAX = 2 ^ 64 - 1"

definition is_i64 :: "int \<Rightarrow> bool" where
  "is_i64 x \<longleftrightarrow> i64_MIN \<le> x \<and> x \<le> i64_MAX"

text \<open>\<^verbatim>\<open>saturating_*\<close> on i64, and the two's complement wrap of a plain operator in a release build.\<close>

definition sat_i64 :: "int \<Rightarrow> int" where
  "sat_i64 x = max i64_MIN (min i64_MAX x)"

definition wrap_i64 :: "int \<Rightarrow> int" where
  "wrap_i64 x = (x + 2 ^ 63) mod 2 ^ 64 - 2 ^ 63"

definition sat_u64 :: "nat \<Rightarrow> nat" where
  "sat_u64 n = min u64_MAX n"

lemma is_i64_sat [simp, s4_width]: "is_i64 (sat_i64 x)"
  by (simp add: is_i64_def sat_i64_def i64_MIN_def i64_MAX_def)

lemma sat_i64_id [s4_width]: "is_i64 x \<Longrightarrow> sat_i64 x = x"
  by (simp add: is_i64_def sat_i64_def)

lemma wrap_i64_id [s4_width]: "is_i64 x \<Longrightarrow> wrap_i64 x = x"
  by (simp add: is_i64_def wrap_i64_def i64_MIN_def i64_MAX_def)

lemma is_i64_wrap [simp, s4_width]: "is_i64 (wrap_i64 x)"
proof -
  have "0 \<le> (x + 2 ^ 63) mod 2 ^ 64" and "(x + 2 ^ 63) mod 2 ^ 64 < (2 ^ 64 :: int)"
    by simp_all
  then show ?thesis by (simp add: is_i64_def wrap_i64_def i64_MIN_def i64_MAX_def)
qed

lemma sdiv_nonneg: "0 \<le> a \<Longrightarrow> 0 < b \<Longrightarrow> a sdiv b = a div (b::int)"
  by (simp add: signed_divide_int_def sgn_if)

section \<open>Results\<close>

fun is_ok :: "'e + 'a \<Rightarrow> bool" where
  "is_ok (Inl _) = False"
| "is_ok (Inr _) = True"

fun map_err :: "('e \<Rightarrow> 'f) \<Rightarrow> 'e + 'a \<Rightarrow> 'f + 'a" where
  "map_err f (Inl e) = Inl (f e)"
| "map_err f (Inr a) = Inr a"

fun bind_ok :: "'e + 'a \<Rightarrow> ('a \<Rightarrow> 'e + 'b) \<Rightarrow> 'e + 'b" where
  "bind_ok (Inl e) f = Inl e"
| "bind_ok (Inr a) f = f a"

lemma map_err_Inr [simp]: "map_err f r = Inr a \<longleftrightarrow> r = Inr a"
  by (cases r) auto

lemma map_err_Inl: "map_err f r = Inl e \<longleftrightarrow> (\<exists>x. r = Inl x \<and> e = f x)"
  by (cases r) auto

lemma bind_ok_Inr [simp]: "bind_ok r f = Inr b \<longleftrightarrow> (\<exists>a. r = Inr a \<and> f a = Inr b)"
  by (cases r) auto

text \<open>\<^verbatim>\<open>iter().collect::<Result<Vec<_>, _>>()\<close>: the first error, or every value.\<close>

fun collect_ok :: "('e + 'a) list \<Rightarrow> 'e + 'a list" where
  "collect_ok [] = Inr []"
| "collect_ok (r # rs) =
     (case r of Inl e \<Rightarrow> Inl e
      | Inr a \<Rightarrow> (case collect_ok rs of Inl e \<Rightarrow> Inl e | Inr as \<Rightarrow> Inr (a # as)))"

lemma collect_ok_map_Inr [simp]: "collect_ok (map Inr xs) = Inr xs"
  by (induction xs) auto

section \<open>The str functions\<close>

text \<open>\<^verbatim>\<open>split(c)\<close> yields at least one piece, and one more piece than there are separators.\<close>

fun split_on :: "'a \<Rightarrow> 'a list \<Rightarrow> 'a list list" where
  "split_on c [] = [[]]"
| "split_on c (x # xs) =
     (if x = c then [] # split_on c xs
      else (case split_on c xs of [] \<Rightarrow> [[x]] | p # ps \<Rightarrow> (x # p) # ps))"

lemma split_on_ne [simp]: "split_on c xs \<noteq> []"
  by (cases xs) (auto split: list.splits)

lemma split_on_free [s4_text]: "c \<notin> set xs \<Longrightarrow> split_on c xs = [xs]"
  by (induction xs) auto

lemma split_on_append [s4_text]: "c \<notin> set xs \<Longrightarrow> split_on c (xs @ c # ys) = xs # split_on c ys"
  by (induction xs) auto

definition strip_prefix :: "'a list \<Rightarrow> 'a list \<Rightarrow> 'a list option" where
  "strip_prefix p s = (if take (length p) s = p then Some (drop (length p) s) else None)"

definition strip_suffix :: "'a list \<Rightarrow> 'a list \<Rightarrow> 'a list option" where
  "strip_suffix p s =
     (if length p \<le> length s \<and> drop (length s - length p) s = p
      then Some (take (length s - length p) s) else None)"

lemma strip_prefix_append [simp, s4_text]: "strip_prefix p (p @ s) = Some s"
  by (simp add: strip_prefix_def)

lemma strip_suffix_append [simp, s4_text]: "strip_suffix p (s @ p) = Some s"
  by (simp add: strip_suffix_def)

lemma strip_prefix_Some: "strip_prefix p s = Some t \<longleftrightarrow> s = p @ t"
  by (auto simp: strip_prefix_def) (metis append_take_drop_id)

lemma strip_suffix_Some: "strip_suffix p s = Some t \<longleftrightarrow> s = t @ p"
proof
  assume "strip_suffix p s = Some t"
  then show "s = t @ p"
    unfolding strip_suffix_def by (metis append_take_drop_id option.inject option.distinct(1))
qed simp

definition starts_with :: "'a list \<Rightarrow> 'a list \<Rightarrow> bool" where
  "starts_with p s \<longleftrightarrow> take (length p) s = p"

lemma starts_with_append [simp]: "starts_with p (p @ s)"
  by (simp add: starts_with_def)

text \<open>\<^verbatim>\<open>split_once\<close> and \<^verbatim>\<open>rsplit_once\<close>: cut at the first or the last separator.\<close>

fun split_once :: "'a \<Rightarrow> 'a list \<Rightarrow> ('a list \<times> 'a list) option" where
  "split_once c [] = None"
| "split_once c (x # xs) =
     (if x = c then Some ([], xs)
      else map_option (\<lambda>(a, b). (x # a, b)) (split_once c xs))"

definition rsplit_once :: "'a \<Rightarrow> 'a list \<Rightarrow> ('a list \<times> 'a list) option" where
  "rsplit_once c s = map_option (\<lambda>(a, b). (rev b, rev a)) (split_once c (rev s))"

lemma split_once_append [s4_text]: "c \<notin> set xs \<Longrightarrow> split_once c (xs @ c # ys) = Some (xs, ys)"
  by (induction xs) auto

lemma split_once_free: "c \<notin> set xs \<Longrightarrow> split_once c xs = None"
  by (induction xs) auto

lemma rsplit_once_append [s4_text]:
  "c \<notin> set ys \<Longrightarrow> rsplit_once c (xs @ c # ys) = Some (xs, ys)"
  by (simp add: rsplit_once_def split_once_append)

text \<open>\<^verbatim>\<open>rsplit(c).next()\<close>: the piece after the last separator, the whole string without one.\<close>

definition last_piece :: "'a \<Rightarrow> 'a list \<Rightarrow> 'a list" where
  "last_piece c s = (case rsplit_once c s of None \<Rightarrow> s | Some (_, b) \<Rightarrow> b)"

lemma last_piece_append [s4_text]: "c \<notin> set ys \<Longrightarrow> last_piece c (xs @ c # ys) = ys"
  by (simp add: last_piece_def rsplit_once_append)

text \<open>\<^verbatim>\<open>trim_matches(c)\<close>.\<close>

definition trim_matches :: "'a \<Rightarrow> 'a list \<Rightarrow> 'a list" where
  "trim_matches c s = rev (dropWhile (\<lambda>x. x = c) (rev (dropWhile (\<lambda>x. x = c) s)))"

definition join_with :: "'a list \<Rightarrow> 'a list list \<Rightarrow> 'a list" where
  "join_with sep ps = concat (case ps of [] \<Rightarrow> [] | p # qs \<Rightarrow> p # map (\<lambda>q. sep @ q) qs)"


text \<open>The globset crate: compiling a pattern and matching a name; \<open>'m\<close> is the compiled matcher.\<close>

record 'm globset =
  glob_new :: "string \<Rightarrow> string + 'm"
  glob_is_match :: "'m \<Rightarrow> string \<Rightarrow> bool"

section \<open>Decimal and hexadecimal text\<close>

text \<open>
  \<^verbatim>\<open>{}\<close>, \<^verbatim>\<open>{:06}\<close> and \<^verbatim>\<open>{:02X}\<close> of \<^verbatim>\<open>format!\<close>, and \<^verbatim>\<open>str::parse\<close> for the integer types: an optional
  sign (only \<open>+\<close> for the unsigned ones), at least one digit, an error when the value does not fit.
\<close>

definition digit_char :: "nat \<Rightarrow> char" where
  "digit_char d = char_of (48 + d)"

definition is_digit :: "char \<Rightarrow> bool" where
  "is_digit c \<longleftrightarrow> 48 \<le> (of_char c :: nat) \<and> (of_char c :: nat) \<le> 57"

definition digit_val :: "char \<Rightarrow> nat" where
  "digit_val c = of_char c - 48"

fun show_nat :: "nat \<Rightarrow> string" where
  "show_nat n = (if n < 10 then [digit_char n] else show_nat (n div 10) @ [digit_char (n mod 10)])"

declare show_nat.simps [simp del]

definition show_int :: "int \<Rightarrow> string" where
  "show_int x = (if x < 0 then CHR ''-'' # show_nat (nat (- x)) else show_nat (nat x))"

definition pad0 :: "nat \<Rightarrow> string \<Rightarrow> string" where
  "pad0 w s = replicate (w - length s) (CHR ''0'') @ s"

fun digits_val :: "nat \<Rightarrow> string \<Rightarrow> nat option" where
  "digits_val acc [] = Some acc"
| "digits_val acc (c # cs) =
     (if is_digit c then digits_val (acc * 10 + digit_val c) cs else None)"

definition parse_digits :: "string \<Rightarrow> nat option" where
  "parse_digits s = (if s = [] then None else digits_val 0 s)"

definition parse_i64 :: "string \<Rightarrow> int option" where
  "parse_i64 s =
     (let v = (case s of
         [] \<Rightarrow> None
       | c # cs \<Rightarrow>
           if c = CHR ''-'' then map_option (\<lambda>n. - int n) (parse_digits cs)
           else if c = CHR ''+'' then map_option int (parse_digits cs)
           else map_option int (parse_digits s))
      in case v of None \<Rightarrow> None | Some x \<Rightarrow> if is_i64 x then Some x else None)"

text \<open>Parsing an unsigned integer whose largest value is \<open>m\<close>.\<close>

definition parse_unsigned :: "nat \<Rightarrow> string \<Rightarrow> nat option" where
  "parse_unsigned m s =
     (let v = (case s of
         [] \<Rightarrow> None
       | c # cs \<Rightarrow> if c = CHR ''+'' then parse_digits cs else parse_digits s)
      in case v of None \<Rightarrow> None | Some x \<Rightarrow> if x \<le> m then Some x else None)"

lemma of_char_digit_char: "d < 10 \<Longrightarrow> (of_char (digit_char d) :: nat) = 48 + d"
  by (simp add: digit_char_def)

lemma is_digit_digit_char [simp]: "d < 10 \<Longrightarrow> is_digit (digit_char d)"
  by (simp add: is_digit_def of_char_digit_char)

lemma digit_val_digit_char [simp]: "d < 10 \<Longrightarrow> digit_val (digit_char d) = d"
  by (simp add: digit_val_def of_char_digit_char)

lemma digits_val_append:
  "digits_val a (xs @ ys) = (case digits_val a xs of None \<Rightarrow> None | Some b \<Rightarrow> digits_val b ys)"
  by (induction xs arbitrary: a) auto

lemma digits_val_show_nat [simp]: "digits_val 0 (show_nat n) = Some n"
proof (induction n rule: show_nat.induct)
  case (1 n)
  show ?case
  proof (cases "n < 10")
    case True
    then show ?thesis by (simp add: show_nat.simps [of n])
  next
    case False
    with 1 have "digits_val 0 (show_nat (n div 10)) = Some (n div 10)" by simp
    with False show ?thesis
      by (simp add: show_nat.simps [of n] digits_val_append)
  qed
qed

lemma show_nat_ne [simp]: "show_nat n \<noteq> []"
  by (subst show_nat.simps) simp

lemma show_nat_digits: "c \<in> set (show_nat n) \<Longrightarrow> is_digit c"
proof (induction n rule: show_nat.induct)
  case (1 n)
  then show ?case
    by (cases "n < 10") (auto simp: show_nat.simps [of n])
qed

lemma show_nat_inj [simp]: "show_nat m = show_nat n \<longleftrightarrow> m = n"
  by (metis digits_val_show_nat option.inject)

lemma digits_val_replicate0 [simp]: "digits_val 0 (replicate k (CHR ''0'')) = Some 0"
  by (induction k) (auto simp: is_digit_def digit_val_def)

lemma digits_val_pad0 [simp]: "digits_val 0 (pad0 w (show_nat n)) = Some n"
  by (simp add: pad0_def digits_val_append)

lemma pad0_inj [simp]: "pad0 w (show_nat m) = pad0 w (show_nat n) \<longleftrightarrow> m = n"
  by (metis digits_val_pad0 option.inject)

lemma pad0_digits: "c \<in> set (pad0 w (show_nat n)) \<Longrightarrow> is_digit c"
  by (auto simp: pad0_def show_nat_digits) (simp add: is_digit_def)

lemma digit_not_sep [simp]:
  "\<not> is_digit (CHR ''-'')" "\<not> is_digit (CHR ''/'')" "\<not> is_digit (CHR ''.'')"
  "\<not> is_digit (CHR ''+'')" "\<not> is_digit (CHR ''='')"  "\<not> is_digit (CHR ''r'')"
  "\<not> is_digit (CHR ''%'')"
  by (simp_all add: is_digit_def)

lemma show_nat_free [simp]: "\<not> is_digit c \<Longrightarrow> c \<notin> set (show_nat n)"
  using show_nat_digits by blast

lemma pad0_free [simp]: "\<not> is_digit c \<Longrightarrow> c \<notin> set (pad0 w (show_nat n))"
  using pad0_digits by blast

lemma parse_digits_show_nat [simp]: "parse_digits (show_nat n) = Some n"
  by (simp add: parse_digits_def)

lemma hd_show_nat_digit: "show_nat n = c # cs \<Longrightarrow> is_digit c"
  using show_nat_digits by (metis list.set_intros(1))

lemma parse_i64_show_int [s4_text]: "is_i64 x \<Longrightarrow> parse_i64 (show_int x) = Some x"
proof (cases "x < 0")
  case True
  assume "is_i64 x"
  with True show ?thesis by (simp add: parse_i64_def show_int_def)
next
  case False
  assume b: "is_i64 x"
  obtain c cs where s: "show_nat (nat x) = c # cs"
    by (cases "show_nat (nat x)") auto
  then have "is_digit c" by (rule hd_show_nat_digit)
  then have "c \<noteq> CHR ''-''" and "c \<noteq> CHR ''+''" by auto
  with False b s show ?thesis
    using parse_digits_show_nat [of "nat x"] by (simp add: parse_i64_def show_int_def)
qed

lemma show_int_inj [simp]: "show_int x = show_int y \<longleftrightarrow> x = y"
proof
  assume eq: "show_int x = show_int y"
  have neg: "show_nat n \<noteq> CHR ''-'' # cs" for n cs
    using hd_show_nat_digit [of n "CHR ''-''" cs] by auto
  show "x = y"
  proof (cases "x < 0"; cases "y < 0")
    assume "x < 0" "\<not> y < 0"
    with eq show ?thesis using neg [of "nat y"] by (simp add: show_int_def) metis
  next
    assume "\<not> x < 0" "y < 0"
    with eq show ?thesis using neg [of "nat x"] by (simp add: show_int_def)
  qed (use eq in \<open>simp_all add: show_int_def\<close>)
qed simp

lemma show_int_nonneg [simp]: "0 \<le> x \<Longrightarrow> show_int x = show_nat (nat x)"
  by (simp add: show_int_def)

lemma show_int_free: "\<not> is_digit c \<Longrightarrow> c \<noteq> CHR ''-'' \<Longrightarrow> c \<notin> set (show_int x)"
  by (auto simp: show_int_def)

lemma parse_unsigned_show_nat [s4_text]: "n \<le> m \<Longrightarrow> parse_unsigned m (show_nat n) = Some n"
proof -
  assume b: "n \<le> m"
  obtain c cs where s: "show_nat n = c # cs"
    by (cases "show_nat n") auto
  then have "c \<noteq> CHR ''+''" using hd_show_nat_digit by fastforce
  with b s show ?thesis
    using parse_digits_show_nat [of n] by (simp add: parse_unsigned_def)
qed

section \<open>Little-endian integers\<close>

text \<open>\<open>put_u32_le\<close>, \<open>put_u64_le\<close>, \<open>put_i64_le\<close> and the matching readers.\<close>

fun le_nat :: "nat \<Rightarrow> nat \<Rightarrow> bytes" where
  "le_nat 0 n = []"
| "le_nat (Suc k) n = word_of_nat (n mod 256) # le_nat k (n div 256)"

fun le_val :: "bytes \<Rightarrow> nat" where
  "le_val [] = 0"
| "le_val (b # bs) = unat b + 256 * le_val bs"

lemma length_le_nat [simp]: "length (le_nat k n) = k"
  by (induction k arbitrary: n) auto

lemma unat_byte_lt [simp]: "unat (b :: byte) < 256"
  using unsigned_less [of b] by simp

lemma unat_word_of_nat_byte: "unat (word_of_nat (n mod 256) :: byte) = n mod 256"
  by (simp add: unat_of_nat)

lemma le_val_le_nat [simp]: "le_val (le_nat k n) = n mod 256 ^ k"
proof (induction k arbitrary: n)
  case (Suc k)
  have "n mod 256 + 256 * (n div 256 mod 256 ^ k) = n mod (256 * 256 ^ k)"
    by (simp add: mod_mult2_eq)
  with Suc show ?case by (simp add: unat_word_of_nat_byte)
qed simp

lemma le_val_bound: "le_val bs < 256 ^ length bs"
proof (induction bs)
  case (Cons b bs)
  have "unat b < 256" by simp
  with Cons show ?case by (simp del: unat_byte_lt)
qed simp

lemma le_nat_le_val: "length bs = k \<Longrightarrow> le_nat k (le_val bs) = bs"
proof (induction bs arbitrary: k)
  case (Cons b bs)
  have m: "(unat b + 256 * le_val bs) mod 256 = unat b"
    by (simp add: mod_less)
  have d: "(unat b + 256 * le_val bs) div 256 = le_val bs"
    by (simp add: div_less)
  from Cons obtain j where "k = Suc j" "length bs = j" by auto
  with Cons.IH m d show ?case by simp
qed simp

definition le_u32 :: "nat \<Rightarrow> bytes" where "le_u32 n = le_nat 4 n"
definition le_u64 :: "nat \<Rightarrow> bytes" where "le_u64 n = le_nat 8 n"
definition le_i64 :: "int \<Rightarrow> bytes" where "le_i64 x = le_nat 8 (nat (x mod 2 ^ 64))"

definition val_i64 :: "bytes \<Rightarrow> int" where
  "val_i64 bs = wrap_i64 (int (le_val bs))"

lemma length_le [simp]: "length (le_u32 n) = 4" "length (le_u64 n) = 8" "length (le_i64 x) = 8"
  by (simp_all add: le_u32_def le_u64_def le_i64_def)

lemma val_i64_le_i64 [simp]: "is_i64 x \<Longrightarrow> val_i64 (le_i64 x) = x"
proof -
  assume b: "is_i64 x"
  have "val_i64 (le_i64 x) = wrap_i64 (x mod 2 ^ 64)"
    by (simp add: val_i64_def le_i64_def)
  also have "\<dots> = wrap_i64 x"
    by (simp add: wrap_i64_def mod_add_left_eq)
  finally show ?thesis using b by (simp add: wrap_i64_id)
qed

lemma le_i64_val_i64: "length bs = 8 \<Longrightarrow> le_i64 (val_i64 bs) = bs"
proof -
  assume l: "length bs = 8"
  then have "le_val bs < 2 ^ 64" using le_val_bound [of bs] by simp
  then have "wrap_i64 (int (le_val bs)) mod 2 ^ 64 = int (le_val bs)"
    by (simp add: wrap_i64_def mod_diff_left_eq)
  with l show ?thesis by (simp add: le_i64_def val_i64_def le_nat_le_val)
qed

lemma is_i64_val_i64 [simp]: "is_i64 (val_i64 bs)"
  by (simp add: val_i64_def)


section \<open>Codec interfaces\<close>

text \<open>\<^verbatim>\<open>Result::ok()\<close>.\<close>

fun ok_of :: "'e + 'a \<Rightarrow> 'a option" where
  "ok_of (Inl _) = None"
| "ok_of (Inr a) = Some a"

lemma ok_of_Some [simp]: "ok_of r = Some a \<longleftrightarrow> r = Inr a"
  by (cases r) auto

text \<open>
  What every encoder of the repository promises: on well-formed values the decoder inverts it.
  A \<open>canonical\<close> format also has one encoding per value, so that decoding is exact: it accepts
  the encoder's image and nothing else.
\<close>

locale codec =
  fixes enc :: "'a \<Rightarrow> 'b" and dec :: "'b \<Rightarrow> 'a option" and wf :: "'a \<Rightarrow> bool"
  assumes dec_enc: "wf x \<Longrightarrow> dec (enc x) = Some x"
begin

lemma enc_inject: "wf x \<Longrightarrow> wf y \<Longrightarrow> enc x = enc y \<longleftrightarrow> x = y"
  by (metis dec_enc option.inject)

lemma enc_inj_on: "inj_on enc (Collect wf)"
  by (auto simp: inj_on_def enc_inject)

end

locale canonical_codec = codec +
  assumes dec_sound: "dec b = Some x \<Longrightarrow> wf x \<and> enc x = b"
begin

lemma dec_iff: "dec b = Some x \<longleftrightarrow> wf x \<and> enc x = b"
  using dec_enc dec_sound by blast

lemma dec_defined_iff: "dec b \<noteq> None \<longleftrightarrow> b \<in> enc ` Collect wf"
  using dec_iff by auto

lemma dec_inject: "dec b = Some x \<Longrightarrow> dec c = Some x \<Longrightarrow> b = c"
  using dec_sound by blast

end

end
