(* ===== verification/S4_Record.thy ===== *)
theory S4_Record
  imports S4_Prelude
begin

text \<open>
  The on-disk record (\<^verbatim>\<open>s4logs-core/src/record.rs\<close>): one CloudWatch event per JSONL line. The JSON
  text of a value is produced and read by serde_json, so its two functions are an argument
  (\<open>'a serde\<close>) of everything that encodes or decodes; \<open>jsonl_faithful\<close> states what the code relies on.
\<close>

section \<open>LogRecord\<close>

record log_record =
  timestamp :: int
  stream :: string
  message :: string
  ingestion_time :: "int option"
  event_id :: "string option"

datatype record_error = Encode string | Decode string

text \<open>\<^verbatim>\<open>serde_json::to_writer\<close>/\<^verbatim>\<open>to_vec\<close> and \<^verbatim>\<open>from_slice\<close> at one type; an error carries its message.\<close>

record 'a serde =
  to_json :: "'a \<Rightarrow> string + bytes"
  from_json :: "bytes \<Rightarrow> string + 'a"

definition append_jsonl :: "log_record serde \<Rightarrow> log_record \<Rightarrow> bytes \<Rightarrow> record_error + bytes" where
  "append_jsonl J r out =
     (case to_json J r of
        Inl e \<Rightarrow> Inl (Encode e)
      | Inr s \<Rightarrow> Inr (out @ s @ [NL]))"

definition from_jsonl :: "log_record serde \<Rightarrow> bytes \<Rightarrow> record_error + log_record" where
  "from_jsonl J line = (case from_json J line of Inl e \<Rightarrow> Inl (Decode e) | Inr r \<Rightarrow> Inr r)"

section \<open>What serde_json guarantees\<close>

text \<open>
  Compact JSON of a value is not empty, holds no raw line feed (control characters inside a
  string are escaped) and decodes to the value it was made from.
\<close>

definition json_faithful :: "'a serde \<Rightarrow> 'a \<Rightarrow> bool" where
  "json_faithful J a \<longleftrightarrow>
     (case to_json J a of
        Inl _ \<Rightarrow> False
      | Inr s \<Rightarrow> s \<noteq> [] \<and> NL \<notin> set s \<and> from_json J s = Inr a)"

definition jsonl_faithful :: "'a serde \<Rightarrow> 'a list \<Rightarrow> bool" where
  "jsonl_faithful J rs \<longleftrightarrow> (\<forall>r \<in> set rs. json_faithful J r)"

text \<open>The JSONL line of a record that has one, and the text of a list of records.\<close>

definition jsonl_line :: "'a serde \<Rightarrow> 'a \<Rightarrow> bytes" where
  "jsonl_line J r = (case to_json J r of Inl _ \<Rightarrow> [] | Inr s \<Rightarrow> s @ [NL])"

definition jsonl_text :: "'a serde \<Rightarrow> 'a list \<Rightarrow> bytes" where
  "jsonl_text J rs = concat (map (jsonl_line J) rs)"

lemma jsonl_text_simps [simp]:
  "jsonl_text J [] = []"
  "jsonl_text J (r # rs) = jsonl_line J r @ jsonl_text J rs"
  "jsonl_text J (rs @ ss) = jsonl_text J rs @ jsonl_text J ss"
  by (simp_all add: jsonl_text_def)

lemma jsonl_faithful_simps [simp]:
  "jsonl_faithful J []"
  "jsonl_faithful J (r # rs) \<longleftrightarrow> json_faithful J r \<and> jsonl_faithful J rs"
  "jsonl_faithful J (rs @ ss) \<longleftrightarrow> jsonl_faithful J rs \<and> jsonl_faithful J ss"
  by (auto simp: jsonl_faithful_def)

lemma json_faithfulE:
  assumes "json_faithful J r"
  obtains s where "to_json J r = Inr s" "s \<noteq> []" "NL \<notin> set s" "from_json J s = Inr r"
    "jsonl_line J r = s @ [NL]"
  using assms by (auto simp: json_faithful_def jsonl_line_def split: sum.splits)

lemma append_jsonl_Inr:
  "append_jsonl J r out = Inr out' \<Longrightarrow>
     out' = out @ jsonl_line J r \<and> (\<exists>s. to_json J r = Inr s)"
  by (auto simp: append_jsonl_def jsonl_line_def split: sum.splits)

lemma append_jsonl_faithful:
  "json_faithful J r \<Longrightarrow> append_jsonl J r out = Inr (out @ jsonl_line J r)"
  by (erule json_faithfulE) (simp add: append_jsonl_def)

lemma jsonl_line_ne [simp]: "json_faithful J r \<Longrightarrow> jsonl_line J r \<noteq> []"
  by (erule json_faithfulE) simp

lemma append_jsonl_ne: "append_jsonl J r out = Inr out' \<Longrightarrow> out' \<noteq> []"
  by (auto simp: append_jsonl_def split: sum.splits)

lemma jsonl_text_ne [simp]: "jsonl_faithful J rs \<Longrightarrow> jsonl_text J rs = [] \<longleftrightarrow> rs = []"
  by (cases rs) auto

end
