(* ===== verification/S4_Tsindex.thy ===== *)
theory S4_Tsindex
  imports S4_Prelude
begin

text \<open>
  The S4LT v1 sidecar (\<^verbatim>\<open>s4logs-core/src/tsindex.rs\<close>): per-frame timestamp ranges as a
  little-endian table behind a 16 byte header. The lemmas show that the format is canonical.
\<close>

section \<open>Data\<close>

definition TS_INDEX_MAGIC :: bytes where "TS_INDEX_MAGIC = [0x53, 0x34, 0x4C, 0x54]"
definition TS_INDEX_VERSION :: nat where "TS_INDEX_VERSION = 1"
definition TS_HEADER_BYTES :: nat where "TS_HEADER_BYTES = 4 + 4 + 8"
definition TS_ENTRY_BYTES :: nat where "TS_ENTRY_BYTES = 8 + 8"
definition MAX_FRAMES :: nat where "MAX_FRAMES = 16 * 1024 * 1024"

record ts_entry =
  min_ts :: int
  max_ts :: int

record ts_index =
  ts_entries :: "ts_entry list"

datatype ts_index_error =
    TooShort nat
  | BadMagic bytes
  | UnsupportedVersion nat
  | EntryCountMismatch nat nat
  | TooManyFrames nat
  | InvalidEntry nat int int

section \<open>Operations\<close>

definition encode_entry :: "ts_entry \<Rightarrow> bytes" where
  "encode_entry e = le_i64 (min_ts e) @ le_i64 (max_ts e)"

definition encode_ts_index :: "ts_index \<Rightarrow> bytes" where
  "encode_ts_index idx =
     TS_INDEX_MAGIC @ le_u32 TS_INDEX_VERSION @ le_u64 (length (ts_entries idx))
     @ concat (map encode_entry (ts_entries idx))"

text \<open>The entry loop \<open>for idx in 0..n\<close>: \<open>i\<close> is the loop counter, \<open>k\<close> the rounds left.\<close>

fun decode_entries :: "nat \<Rightarrow> nat \<Rightarrow> bytes \<Rightarrow> ts_index_error + ts_entry list" where
  "decode_entries i 0 input = Inr []"
| "decode_entries i (Suc k) input =
     (let mn = val_i64 (take 8 input); mx = val_i64 (take 8 (drop 8 input)) in
      if mn > mx then Inl (InvalidEntry i mn mx)
      else (case decode_entries (Suc i) k (drop 16 input) of
              Inl e \<Rightarrow> Inl e
            | Inr es \<Rightarrow> Inr (\<lparr>min_ts = mn, max_ts = mx\<rparr> # es)))"

definition decode_ts_index :: "bytes \<Rightarrow> ts_index_error + ts_index" where
  "decode_ts_index input =
     (if length input < TS_HEADER_BYTES then Inl (TooShort (length input))
      else let magic = take 4 input in
      if magic \<noteq> TS_INDEX_MAGIC then Inl (BadMagic magic)
      else let version = le_val (take 4 (drop 4 input)) in
      if version \<noteq> TS_INDEX_VERSION then Inl (UnsupportedVersion version)
      else let n = le_val (take 8 (drop 8 input)); rest = drop 16 input in
      if n > MAX_FRAMES then Inl (TooManyFrames n)
      else let expected_remaining = sat_u64 (n * TS_ENTRY_BYTES) in
      if length rest \<noteq> expected_remaining then Inl (EntryCountMismatch n (length rest))
      else (case decode_entries 0 n rest of
              Inl e \<Rightarrow> Inl e
            | Inr es \<Rightarrow> Inr \<lparr>ts_entries = es\<rparr>))"

section \<open>The format is canonical\<close>

definition wf_ts_entry :: "ts_entry \<Rightarrow> bool" where
  "wf_ts_entry e \<longleftrightarrow> is_i64 (min_ts e) \<and> is_i64 (max_ts e) \<and> min_ts e \<le> max_ts e"

definition wf_ts_index :: "ts_index \<Rightarrow> bool" where
  "wf_ts_index idx \<longleftrightarrow>
     length (ts_entries idx) \<le> MAX_FRAMES \<and> (\<forall>e \<in> set (ts_entries idx). wf_ts_entry e)"

lemmas ts_consts = TS_INDEX_MAGIC_def TS_INDEX_VERSION_def TS_HEADER_BYTES_def
  TS_ENTRY_BYTES_def MAX_FRAMES_def

lemma length_encode_entry [simp]: "length (encode_entry e) = 16"
  by (simp add: encode_entry_def)

lemma length_encode_entries [simp]: "length (concat (map encode_entry es)) = 16 * length es"
  by (induction es) auto

lemma decode_entries_encode:
  assumes "\<forall>e \<in> set es. wf_ts_entry e"
  shows "decode_entries i (length es) (concat (map encode_entry es)) = Inr es"
  using assms
proof (induction es arbitrary: i)
  case (Cons e es)
  let ?tl = "concat (map encode_entry es)"
  have w: "wf_ts_entry e" using Cons.prems by simp
  have "drop 16 (encode_entry e @ ?tl) = ?tl" by simp
  moreover have "take 8 (encode_entry e @ ?tl) = le_i64 (min_ts e)"
    and "take 8 (drop 8 (encode_entry e @ ?tl)) = le_i64 (max_ts e)"
    by (simp_all add: encode_entry_def)
  ultimately show ?case
    using Cons w by (simp add: Let_def wf_ts_entry_def)
qed simp

lemma decode_entries_sound:
  assumes "decode_entries i k input = Inr es" and "length input = 16 * k"
  shows "(\<forall>e \<in> set es. wf_ts_entry e) \<and> length es = k \<and> concat (map encode_entry es) = input"
  using assms
proof (induction k arbitrary: i input es)
  case (Suc k)
  let ?mn = "take 8 input" and ?mx = "take 8 (drop 8 input)"
  from Suc.prems(1) obtain es' where le: "val_i64 ?mn \<le> val_i64 ?mx"
    and r: "decode_entries (Suc i) k (drop 16 input) = Inr es'"
    and es: "es = \<lparr>min_ts = val_i64 ?mn, max_ts = val_i64 ?mx\<rparr> # es'"
    by (auto simp: Let_def split: if_splits sum.splits)
  have "length (drop 16 input) = 16 * k" using Suc.prems(2) by simp
  note IH = Suc.IH [OF r this]
  have "encode_entry (hd es) = ?mn @ ?mx"
    using Suc.prems(2) by (simp add: es encode_entry_def le_i64_val_i64)
  also have "\<dots> = take 16 input"
    using take_add [of 8 8 input] by simp
  finally show ?case using IH le
    by (simp add: es wf_ts_entry_def)
qed simp

lemma decode_encode_ts_index: "wf_ts_index idx \<Longrightarrow> decode_ts_index (encode_ts_index idx) = Inr idx"
proof -
  assume w: "wf_ts_index idx"
  let ?b = "concat (map encode_entry (ts_entries idx))"
  let ?n = "length (ts_entries idx)"
  have split: "take 4 (encode_ts_index idx) = TS_INDEX_MAGIC"
    "take 4 (drop 4 (encode_ts_index idx)) = le_u32 TS_INDEX_VERSION"
    "take 8 (drop 8 (encode_ts_index idx)) = le_u64 ?n"
    "drop 16 (encode_ts_index idx) = ?b"
    by (simp_all add: encode_ts_index_def TS_INDEX_MAGIC_def)
  have n: "?n \<le> 16777216" using w by (simp add: wf_ts_index_def ts_consts)
  have "decode_entries 0 ?n ?b = Inr (ts_entries idx)"
    using w by (intro decode_entries_encode) (simp add: wf_ts_index_def)
  moreover have "le_val (le_u64 ?n) = ?n" and "le_val (le_u32 TS_INDEX_VERSION) = TS_INDEX_VERSION"
    using n by (simp_all add: le_u64_def le_u32_def TS_INDEX_VERSION_def)
  moreover have "length (encode_ts_index idx) = 16 + 16 * ?n"
    by (simp add: encode_ts_index_def TS_INDEX_MAGIC_def)
  ultimately show ?thesis
    using n by (simp add: decode_ts_index_def split Let_def sat_u64_def u64_MAX_def
        TS_HEADER_BYTES_def TS_ENTRY_BYTES_def MAX_FRAMES_def)
qed

lemma decode_ts_index_sound:
  assumes "decode_ts_index input = Inr idx"
  shows "wf_ts_index idx \<and> encode_ts_index idx = input"
proof -
  let ?n = "le_val (take 8 (drop 8 input))" and ?rest = "drop 16 input"
  from assms obtain es where l: "\<not> length input < 16"
    and m: "take 4 input = TS_INDEX_MAGIC"
    and v: "le_val (take 4 (drop 4 input)) = TS_INDEX_VERSION"
    and n: "?n \<le> MAX_FRAMES" and r: "length ?rest = sat_u64 (?n * TS_ENTRY_BYTES)"
    and d: "decode_entries 0 ?n ?rest = Inr es" and idx: "idx = \<lparr>ts_entries = es\<rparr>"
    by (auto simp: decode_ts_index_def Let_def TS_HEADER_BYTES_def split: if_splits sum.splits)
  have "length ?rest = 16 * ?n"
    using r n by (simp add: sat_u64_def u64_MAX_def ts_consts)
  note es = decode_entries_sound [OF d this]
  have "le_u32 TS_INDEX_VERSION = take 4 (drop 4 input)"
    using l by (simp add: le_u32_def le_nat_le_val flip: v)
  moreover have "le_u64 (length es) = take 8 (drop 8 input)"
    using l es by (simp add: le_u64_def le_nat_le_val)
  moreover have "take 4 input @ take 4 (drop 4 input) @ take 8 (drop 8 input) @ drop 16 input = input"
  proof -
    have "drop 4 input = take 4 (drop 4 input) @ take 8 (drop 8 input) @ drop 16 input"
      using append_take_drop_id [of 4 "drop 4 input"] append_take_drop_id [of 8 "drop 8 input"]
      by (simp add: add.commute)
    then show ?thesis by (metis append_take_drop_id)
  qed
  ultimately have "encode_ts_index idx = input"
    using es m by (simp add: encode_ts_index_def idx)
  then show ?thesis using es n by (simp add: idx wf_ts_index_def)
qed

interpretation s4lt: canonical_codec encode_ts_index "\<lambda>b. ok_of (decode_ts_index b)" wf_ts_index
  by unfold_locales (simp_all add: decode_encode_ts_index decode_ts_index_sound)

section \<open>Properties\<close>

text \<open>
  C15: S4LT is a canonical format. The decoder accepts a byte string exactly when it is the encoding
  of a well-formed table (bounded entry count, i64 bounds, min not above max), and returns that
  table: the round trip holds and every other input is an error.
\<close>

theorem s4lt_canonical:
  "decode_ts_index input = Inr idx \<longleftrightarrow> wf_ts_index idx \<and> encode_ts_index idx = input"
  using s4lt.dec_iff [of input idx] by simp

end
