(* ===== verification/S4_Chunk.thy ===== *)
theory S4_Chunk
  imports S4_Record S4_Tsindex
begin

text \<open>
  The chunk encoder (\<^verbatim>\<open>s4logs-core/src/chunk.rs\<close>): records in, one data object (a concatenation of
  standard zstd frames) and the two sidecar tables out. A method on \<^verbatim>\<open>&mut self\<close> returns the new
  writer beside its result, also on the error paths. The zstd and crc32c crates, serde_json and
  s4-codec are arguments (\<open>chunk_env\<close>).
\<close>

section \<open>Third-party functions\<close>

text \<open>
  \<open>zstd_encode level checksum pledged input\<close> is a complete run of \<^verbatim>\<open>zstd::stream::write::Encoder\<close>;
  \<open>zstd_decode body\<close> is \<^verbatim>\<open>zstd::stream::read::Decoder\<close>: it fails on construction, or yields the
  bytes it can decode and the error it then runs into, if any.
\<close>

record chunk_env =
  json :: "log_record serde"
  zstd_encode :: "int \<Rightarrow> bool \<Rightarrow> nat option \<Rightarrow> bytes \<Rightarrow> string + bytes"
  zstd_decode :: "bytes \<Rightarrow> string + (bytes \<times> string option)"
  crc32c_of :: "bytes \<Rightarrow> nat"

text \<open>The fields of s4-codec's \<^verbatim>\<open>FrameIndexEntry\<close> and \<^verbatim>\<open>FrameIndex\<close> that the source fills in.\<close>

record frame_index_entry =
  original_offset :: nat
  original_size :: nat
  compressed_offset :: nat
  compressed_size :: nat

record frame_index =
  total_padded_size :: nat
  fi_entries :: "frame_index_entry list"
  source_etag :: "string option"
  source_compressed_size :: "nat option"
  sse_v3 :: "unit option"

section \<open>Data\<close>

record chunk_config =
  frame_target_bytes :: nat
  zstd_level :: int

definition chunk_config_default :: chunk_config where
  "chunk_config_default = \<lparr>frame_target_bytes = 4 * 2 ^ 20, zstd_level = 3\<rparr>"

record encoded_chunk =
  chunk_body :: bytes
  chunk_frame_index :: frame_index
  chunk_ts_index :: ts_index
  chunk_record_count :: nat
  uncompressed_bytes :: nat
  min_timestamp :: int
  max_timestamp :: int
  chunk_crc32c :: nat

datatype chunk_error = ChunkRecord record_error | ChunkIo string

record chunk_writer =
  cfg :: chunk_config
  pending :: bytes
  pending_min_ts :: int
  pending_max_ts :: int
  pending_records :: nat
  w_body :: bytes
  w_entries :: "frame_index_entry list"
  w_ts_entries :: "ts_entry list"
  original_off :: nat
  w_record_count :: nat
  w_min_ts :: int
  w_max_ts :: int

section \<open>Operations\<close>

definition cw_new :: "chunk_config \<Rightarrow> chunk_writer" where
  "cw_new c = \<lparr>cfg = c, pending = [], pending_min_ts = i64_MAX, pending_max_ts = i64_MIN,
     pending_records = 0, w_body = [], w_entries = [], w_ts_entries = [], original_off = 0,
     w_record_count = 0, w_min_ts = i64_MAX, w_max_ts = i64_MIN\<rparr>"

definition cw_is_empty :: "chunk_writer \<Rightarrow> bool" where
  "cw_is_empty w \<longleftrightarrow> w_record_count w = 0 \<and> pending_records w = 0"

definition uncompressed_len :: "chunk_writer \<Rightarrow> nat" where
  "uncompressed_len w = original_off w + length (pending w)"

definition cw_record_count :: "chunk_writer \<Rightarrow> nat" where
  "cw_record_count w = w_record_count w + pending_records w"

definition compress_frame :: "chunk_env \<Rightarrow> bytes \<Rightarrow> int \<Rightarrow> string + bytes" where
  "compress_frame E input level = zstd_encode E level True (Some (length input)) input"

definition cut_frame :: "chunk_env \<Rightarrow> chunk_writer \<Rightarrow> chunk_writer \<times> (chunk_error + unit)" where
  "cut_frame E w =
     (if pending w = [] then (w, Inr ())
      else case compress_frame E (pending w) (zstd_level (cfg w)) of
        Inl e \<Rightarrow> (w, Inl (ChunkIo e))
      | Inr compressed \<Rightarrow>
          (w\<lparr>w_entries := w_entries w @
               [\<lparr>original_offset = original_off w, original_size = length (pending w),
                 compressed_offset = length (w_body w), compressed_size = length compressed\<rparr>],
             w_ts_entries := w_ts_entries w @
               [\<lparr>min_ts = pending_min_ts w, max_ts = pending_max_ts w\<rparr>],
             original_off := original_off w + length (pending w),
             w_body := w_body w @ compressed,
             w_record_count := w_record_count w + pending_records w,
             w_min_ts := min (w_min_ts w) (pending_min_ts w),
             w_max_ts := max (w_max_ts w) (pending_max_ts w),
             pending := [], pending_min_ts := i64_MAX, pending_max_ts := i64_MIN,
             pending_records := 0\<rparr>, Inr ()))"

definition cw_push ::
    "chunk_env \<Rightarrow> log_record \<Rightarrow> chunk_writer \<Rightarrow> chunk_writer \<times> (chunk_error + unit)" where
  "cw_push E r w =
     (case append_jsonl (json E) r (pending w) of
        Inl e \<Rightarrow> (w, Inl (ChunkRecord e))
      | Inr p \<Rightarrow>
          let w1 = w\<lparr>pending := p,
                     pending_min_ts := min (pending_min_ts w) (timestamp r),
                     pending_max_ts := max (pending_max_ts w) (timestamp r),
                     pending_records := pending_records w + 1\<rparr>
          in if length (pending w1) \<ge> frame_target_bytes (cfg w1) then cut_frame E w1
             else (w1, Inr ()))"

definition cw_encode :: "chunk_env \<Rightarrow> chunk_writer \<Rightarrow> chunk_error + encoded_chunk option" where
  "cw_encode E w =
     (let final = \<lambda>entries tss bdy off cnt mn mx.
        if entries = [] then None
        else Some
          \<lparr>chunk_body = bdy,
           chunk_frame_index = \<lparr>total_padded_size = length bdy, fi_entries = entries,
             source_etag = None, source_compressed_size = None, sse_v3 = None\<rparr>,
           chunk_ts_index = \<lparr>ts_entries = tss\<rparr>,
           chunk_record_count = cnt, uncompressed_bytes = off,
           min_timestamp = mn, max_timestamp = mx, chunk_crc32c = crc32c_of E bdy\<rparr>
      in if pending w \<noteq> [] then
           (case compress_frame E (pending w) (zstd_level (cfg w)) of
              Inl e \<Rightarrow> Inl (ChunkIo e)
            | Inr compressed \<Rightarrow> Inr (final
                (w_entries w @
                  [\<lparr>original_offset = original_off w, original_size = length (pending w),
                    compressed_offset = length (w_body w), compressed_size = length compressed\<rparr>])
                (w_ts_entries w @ [\<lparr>min_ts = pending_min_ts w, max_ts = pending_max_ts w\<rparr>])
                (w_body w @ compressed)
                (original_off w + length (pending w))
                (w_record_count w + pending_records w)
                (min (w_min_ts w) (pending_min_ts w))
                (max (w_max_ts w) (pending_max_ts w))))
         else Inr (final (w_entries w) (w_ts_entries w) (w_body w) (original_off w)
                (w_record_count w) (w_min_ts w) (w_max_ts w)))"

definition cw_finish :: "chunk_env \<Rightarrow> chunk_writer \<Rightarrow> chunk_error + encoded_chunk option" where
  "cw_finish E w = cw_encode E w"

text \<open>Pushing a list of records, stopping at the first error.\<close>

fun push_all ::
    "chunk_env \<Rightarrow> log_record list \<Rightarrow> chunk_writer \<Rightarrow> chunk_writer \<times> (chunk_error + unit)" where
  "push_all E [] w = (w, Inr ())"
| "push_all E (r # rs) w =
     (case cw_push E r w of
        (w', Inl e) \<Rightarrow> (w', Inl e)
      | (w', Inr _) \<Rightarrow> push_all E rs w')"


section \<open>What a writer holds\<close>

text \<open>
  The timestamp range the writer keeps for a list of records: the fold of \<open>min\<close>/\<open>max\<close> from the
  i64 extremes, which is the exact range of a non-empty list.
\<close>

definition ts_min :: "log_record list \<Rightarrow> int" where
  "ts_min rs = Min (insert i64_MAX (timestamp ` set rs))"

definition ts_max :: "log_record list \<Rightarrow> int" where
  "ts_max rs = Max (insert i64_MIN (timestamp ` set rs))"

definition ts_range :: "log_record list \<Rightarrow> ts_entry" where
  "ts_range rs = \<lparr>min_ts = ts_min rs, max_ts = ts_max rs\<rparr>"

lemma ts_min_simps [simp]:
  "ts_min [] = i64_MAX"
  "ts_min (rs @ ss) = min (ts_min rs) (ts_min ss)"
proof -
  show "ts_min (rs @ ss) = min (ts_min rs) (ts_min ss)"
    unfolding ts_min_def
    by (subst Min_Un [symmetric]) (simp_all add: image_Un Un_commute insert_commute)
qed (simp add: ts_min_def)

lemma ts_max_simps [simp]:
  "ts_max [] = i64_MIN"
  "ts_max (rs @ ss) = max (ts_max rs) (ts_max ss)"
proof -
  show "ts_max (rs @ ss) = max (ts_max rs) (ts_max ss)"
    unfolding ts_max_def
    by (subst Max_Un [symmetric]) (simp_all add: image_Un Un_commute insert_commute)
qed (simp add: ts_max_def)

lemma ts_min_snoc [simp]: "min (ts_min rs) (ts_min [r]) = min (ts_min rs) (timestamp r)"
proof -
  have "ts_min rs \<le> i64_MAX" by (simp add: ts_min_def)
  moreover have "ts_min [r] = min i64_MAX (timestamp r)" by (simp add: ts_min_def)
  ultimately show ?thesis by simp
qed

lemma ts_max_snoc [simp]: "max (ts_max rs) (ts_max [r]) = max (ts_max rs) (timestamp r)"
proof -
  have "i64_MIN \<le> ts_max rs" by (simp add: ts_max_def)
  moreover have "ts_max [r] = max i64_MIN (timestamp r)" by (simp add: ts_max_def)
  ultimately show ?thesis by simp
qed

lemma ts_min_le: "r \<in> set rs \<Longrightarrow> ts_min rs \<le> timestamp r"
  by (simp add: ts_min_def)

lemma ts_max_ge: "r \<in> set rs \<Longrightarrow> timestamp r \<le> ts_max rs"
  by (simp add: ts_max_def)

lemma ts_min_exact:
  assumes "rs \<noteq> []" and "\<forall>r \<in> set rs. is_i64 (timestamp r)"
  shows "ts_min rs = Min (timestamp ` set rs)"
proof -
  have "Min (timestamp ` set rs) \<in> timestamp ` set rs" using assms by (intro Min_in) auto
  then obtain r where "r \<in> set rs" "Min (timestamp ` set rs) = timestamp r" by auto
  then have "Min (timestamp ` set rs) \<le> i64_MAX" using assms(2) by (metis is_i64_def)
  then show ?thesis using assms by (simp add: ts_min_def)
qed

lemma ts_max_exact:
  assumes "rs \<noteq> []" and "\<forall>r \<in> set rs. is_i64 (timestamp r)"
  shows "ts_max rs = Max (timestamp ` set rs)"
proof -
  have "Max (timestamp ` set rs) \<in> timestamp ` set rs" using assms by (intro Max_in) auto
  then obtain r where "r \<in> set rs" "Max (timestamp ` set rs) = timestamp r" by auto
  then have "i64_MIN \<le> Max (timestamp ` set rs)" using assms(2) by (metis is_i64_def)
  then show ?thesis using assms by (simp add: ts_max_def)
qed

text \<open>The S4IX table of a list of (plain text, zstd frame) pairs laid out one after the other.\<close>

fun tile :: "nat \<Rightarrow> nat \<Rightarrow> (bytes \<times> bytes) list \<Rightarrow> frame_index_entry list" where
  "tile off pos [] = []"
| "tile off pos ((p, z) # ps) =
     \<lparr>original_offset = off, original_size = length p,
      compressed_offset = pos, compressed_size = length z\<rparr>
     # tile (off + length p) (pos + length z) ps"

lemma tile_append:
  "tile off pos (ps @ qs) =
     tile off pos ps
     @ tile (off + length (concat (map fst ps))) (pos + length (concat (map snd ps))) qs"
  by (induction ps arbitrary: off pos) (auto simp: add.assoc)

lemma length_tile [simp]: "length (tile off pos ps) = length ps"
  by (induction ps arbitrary: off pos) auto

text \<open>
  \<open>frames_of E level fs zs\<close>: \<open>zs\<close> are the zstd frames of the record groups \<open>fs\<close>.
\<close>

definition encodable :: "'a serde \<Rightarrow> 'a \<Rightarrow> bool" where
  "encodable J r \<longleftrightarrow> (case to_json J r of Inl _ \<Rightarrow> False | Inr _ \<Rightarrow> True)"

definition frame_of :: "chunk_env \<Rightarrow> int \<Rightarrow> log_record list \<Rightarrow> bytes \<Rightarrow> bool" where
  "frame_of E level f z \<longleftrightarrow>
     f \<noteq> [] \<and> (\<forall>r \<in> set f. encodable (json E) r)
     \<and> compress_frame E (jsonl_text (json E) f) level = Inr z"

definition pairs_of :: "chunk_env \<Rightarrow> log_record list list \<Rightarrow> bytes list \<Rightarrow> (bytes \<times> bytes) list" where
  "pairs_of E fs zs = zip (map (jsonl_text (json E)) fs) zs"

definition writer_holds ::
    "chunk_env \<Rightarrow> chunk_writer \<Rightarrow> log_record list list \<Rightarrow> bytes list \<Rightarrow> log_record list \<Rightarrow> bool" where
  "writer_holds E w fs zs pd \<longleftrightarrow>
     list_all2 (frame_of E (zstd_level (cfg w))) fs zs
     \<and> (\<forall>r \<in> set pd. encodable (json E) r)
     \<and> w_body w = concat zs
     \<and> w_entries w = tile 0 0 (pairs_of E fs zs)
     \<and> w_ts_entries w = map ts_range fs
     \<and> original_off w = length (jsonl_text (json E) (concat fs))
     \<and> w_record_count w = length (concat fs)
     \<and> w_min_ts w = ts_min (concat fs) \<and> w_max_ts w = ts_max (concat fs)
     \<and> pending w = jsonl_text (json E) pd
     \<and> pending_records w = length pd
     \<and> pending_min_ts w = ts_min pd \<and> pending_max_ts w = ts_max pd"

lemma encodable_line_ne: "encodable J r \<Longrightarrow> jsonl_line J r \<noteq> []"
  by (auto simp: encodable_def jsonl_line_def split: sum.splits)

lemma encodable_text_ne: "\<forall>r \<in> set rs. encodable J r \<Longrightarrow> jsonl_text J rs = [] \<longleftrightarrow> rs = []"
  by (cases rs) (auto simp: encodable_line_ne)

lemma faithful_encodable: "json_faithful J r \<Longrightarrow> encodable J r"
  by (auto simp: encodable_def elim: json_faithfulE)

lemma jsonl_text_concat: "jsonl_text J (concat fs) = concat (map (jsonl_text J) fs)"
  by (induction fs) auto

lemma pairs_of_snoc:
  "length fs = length zs \<Longrightarrow>
     pairs_of E (fs @ [f]) (zs @ [z]) = pairs_of E fs zs @ [(jsonl_text (json E) f, z)]"
  by (simp add: pairs_of_def)

lemma map_pairs_of:
  assumes "length fs = length zs"
  shows "map fst (pairs_of E fs zs) = map (jsonl_text (json E)) fs" "map snd (pairs_of E fs zs) = zs"
  using assms by (simp_all add: pairs_of_def)

lemma writer_holds_new: "writer_holds E (cw_new c) [] [] []"
  by (simp add: writer_holds_def cw_new_def pairs_of_def)

lemma tile_snoc_frame:
  assumes "length fs = length zs"
  shows "tile 0 0 (pairs_of E (fs @ [f]) (zs @ [z])) =
     tile 0 0 (pairs_of E fs zs)
     @ [\<lparr>original_offset = length (jsonl_text (json E) (concat fs)),
         original_size = length (jsonl_text (json E) f),
         compressed_offset = length (concat zs), compressed_size = length z\<rparr>]"
  using assms by (simp add: pairs_of_snoc tile_append map_pairs_of jsonl_text_concat)

lemma writer_holds_cut:
  assumes "writer_holds E w fs zs pd" and "cut_frame E w = (w', Inr ())" and "pd \<noteq> []"
  shows "\<exists>z. writer_holds E w' (fs @ [pd]) (zs @ [z]) []"
proof -
  have ne: "pending w \<noteq> []"
    using assms(1,3) by (auto simp: writer_holds_def encodable_text_ne)
  have len: "length fs = length zs"
    using assms(1) by (auto simp: writer_holds_def dest: list_all2_lengthD)
  from ne assms(2) obtain z where z: "compress_frame E (pending w) (zstd_level (cfg w)) = Inr z"
    by (auto simp: cut_frame_def split: sum.splits)
  have "frame_of E (zstd_level (cfg w)) pd z"
    using z assms(1,3) by (simp add: writer_holds_def frame_of_def)
  then have "writer_holds E w' (fs @ [pd]) (zs @ [z]) []"
    using assms(1,2) ne z len
    by (auto simp: writer_holds_def cut_frame_def tile_snoc_frame ts_range_def
        intro: list_all2_appendI)
  then show ?thesis ..
qed

lemma cut_frame_cfg: "cut_frame E w = (w', res) \<Longrightarrow> cfg w' = cfg w"
  by (auto simp: cut_frame_def split: if_splits sum.splits)

lemma cw_push_cfg: "cw_push E r w = (w', res) \<Longrightarrow> cfg w' = cfg w"
  by (auto simp: cw_push_def Let_def dest: cut_frame_cfg split: sum.splits if_splits)

lemma writer_holds_push:
  assumes "writer_holds E w fs zs pd" and "cw_push E r w = (w', Inr ())"
  shows "\<exists>fs' zs' pd'. writer_holds E w' fs' zs' pd' \<and> concat fs' @ pd' = concat fs @ pd @ [r]"
proof -
  from assms(2) obtain p where p: "append_jsonl (json E) r (pending w) = Inr p"
    by (auto simp: cw_push_def split: sum.splits)
  define w1 where "w1 = w\<lparr>pending := p, pending_min_ts := min (pending_min_ts w) (timestamp r),
     pending_max_ts := max (pending_max_ts w) (timestamp r),
     pending_records := pending_records w + 1\<rparr>"
  from append_jsonl_Inr [OF p] have "p = jsonl_text (json E) (pd @ [r])" and "encodable (json E) r"
    using assms(1) by (auto simp: writer_holds_def encodable_def)
  then have h1: "writer_holds E w1 fs zs (pd @ [r])"
    using assms(1) by (auto simp: writer_holds_def w1_def)
  show ?thesis
  proof (cases "length (pending w1) \<ge> frame_target_bytes (cfg w1)")
    case True
    then have "cut_frame E w1 = (w', Inr ())"
      using assms(2) p by (simp add: cw_push_def w1_def Let_def)
    from writer_holds_cut [OF h1 this] obtain z where
      "writer_holds E w' (fs @ [pd @ [r]]) (zs @ [z]) []" by auto
    then show ?thesis by fastforce
  next
    case False
    then have "w' = w1" using assms(2) p by (simp add: cw_push_def w1_def Let_def)
    with h1 show ?thesis by auto
  qed
qed

lemma writer_holds_push_all:
  assumes "writer_holds E w fs zs pd" and "push_all E rs w = (w', Inr ())"
  shows "\<exists>fs' zs' pd'. writer_holds E w' fs' zs' pd' \<and> concat fs' @ pd' = concat fs @ pd @ rs"
  using assms
proof (induction rs arbitrary: w fs zs pd)
  case (Cons r rs)
  from Cons.prems(2) obtain w1 where p: "cw_push E r w = (w1, Inr ())"
    and q: "push_all E rs w1 = (w', Inr ())"
    by (auto split: prod.splits sum.splits)
  from writer_holds_push [OF Cons.prems(1) p] obtain fs1 zs1 pd1 where
    h: "writer_holds E w1 fs1 zs1 pd1" "concat fs1 @ pd1 = concat fs @ pd @ [r]" by blast
  from Cons.IH [OF h(1) q] h(2) show ?case by (metis append.assoc append_Cons append_Nil)
qed auto

section \<open>The finished chunk\<close>

definition chunk_holds ::
    "chunk_env \<Rightarrow> int \<Rightarrow> encoded_chunk \<Rightarrow> log_record list list \<Rightarrow> bytes list \<Rightarrow> bool" where
  "chunk_holds E level c fs zs \<longleftrightarrow>
     fs \<noteq> [] \<and> list_all2 (frame_of E level) fs zs
     \<and> chunk_body c = concat zs
     \<and> fi_entries (chunk_frame_index c) = tile 0 0 (pairs_of E fs zs)
     \<and> total_padded_size (chunk_frame_index c) = length (concat zs)
     \<and> source_etag (chunk_frame_index c) = None
     \<and> source_compressed_size (chunk_frame_index c) = None
     \<and> sse_v3 (chunk_frame_index c) = None
     \<and> ts_entries (chunk_ts_index c) = map ts_range fs
     \<and> chunk_record_count c = length (concat fs)
     \<and> uncompressed_bytes c = length (jsonl_text (json E) (concat fs))
     \<and> min_timestamp c = ts_min (concat fs) \<and> max_timestamp c = ts_max (concat fs)
     \<and> chunk_crc32c c = crc32c_of E (chunk_body c)"

lemma cw_encode_holds:
  assumes h: "writer_holds E w fs zs pd" and e: "cw_encode E w = Inr res"
  shows "case res of None \<Rightarrow> fs = [] \<and> pd = []
    | Some c \<Rightarrow> \<exists>fs' zs'. chunk_holds E (zstd_level (cfg w)) c fs' zs' \<and> concat fs' = concat fs @ pd"
proof (cases "pd = []")
  case True
  have len: "length fs = length zs"
    using h by (auto simp: writer_holds_def dest: list_all2_lengthD)
  have "pending w = []" using h True by (simp add: writer_holds_def)
  moreover have "w_entries w = [] \<longleftrightarrow> fs = []"
    using h len by (auto simp: writer_holds_def pairs_of_def simp flip: length_0_conv)
  ultimately show ?thesis
    using h e True
    by (cases res) (auto simp: cw_encode_def Let_def writer_holds_def chunk_holds_def
        split: if_splits intro!: exI [of _ fs] exI [of _ zs])
next
  case False
  have ne: "pending w \<noteq> []" using h False by (auto simp: writer_holds_def encodable_text_ne)
  have len: "length fs = length zs"
    using h by (auto simp: writer_holds_def dest: list_all2_lengthD)
  from e ne obtain z where z: "compress_frame E (pending w) (zstd_level (cfg w)) = Inr z"
    by (auto simp: cw_encode_def Let_def split: sum.splits)
  have "frame_of E (zstd_level (cfg w)) pd z"
    using z h False by (simp add: writer_holds_def frame_of_def)
  then have all2: "list_all2 (frame_of E (zstd_level (cfg w))) (fs @ [pd]) (zs @ [z])"
    using h by (auto simp: writer_holds_def intro: list_all2_appendI)
  from e ne z obtain c where c: "res = Some c"
    by (auto simp: cw_encode_def Let_def)
  have "chunk_holds E (zstd_level (cfg w)) c (fs @ [pd]) (zs @ [z])"
    using h e ne z c all2 len
    by (auto simp: cw_encode_def Let_def writer_holds_def chunk_holds_def tile_snoc_frame ts_range_def)
  then show ?thesis using c by auto
qed

text \<open>What the zstd format guarantees: concatenated frames decode to the concatenated inputs.\<close>

definition zstd_faithful :: "chunk_env \<Rightarrow> bool" where
  "zstd_faithful E \<longleftrightarrow>
     (\<forall>level ps zs. ps \<noteq> [] \<and> list_all2 (\<lambda>p z. compress_frame E p level = Inr z) ps zs
        \<longrightarrow> zstd_decode E (concat zs) = Inr (concat ps, None))"

lemma chunk_holds_frames:
  assumes "chunk_holds E level c fs zs"
  shows "list_all2 (\<lambda>p z. compress_frame E p level = Inr z) (map (jsonl_text (json E)) fs) zs"
  using assms by (auto simp: chunk_holds_def frame_of_def list_all2_map1 elim: list_all2_mono)

lemma chunk_body_decodes:
  assumes "zstd_faithful E" and "chunk_holds E level c fs zs"
  shows "zstd_decode E (chunk_body c) = Inr (jsonl_text (json E) (concat fs), None)"
  using assms chunk_holds_frames [OF assms(2)]
  by (auto simp: zstd_faithful_def chunk_holds_def jsonl_text_concat)

text \<open>A codec that never refuses its input makes every push and the final encode succeed.\<close>

definition zstd_total :: "chunk_env \<Rightarrow> int \<Rightarrow> bool" where
  "zstd_total E level \<longleftrightarrow> (\<forall>p. is_ok (compress_frame E p level))"

lemma cut_frame_total: "zstd_total E (zstd_level (cfg w)) \<Longrightarrow> snd (cut_frame E w) = Inr ()"
  unfolding zstd_total_def cut_frame_def
  by (cases "compress_frame E (pending w) (zstd_level (cfg w))") (auto dest: spec [of _ "pending w"])

lemma cw_push_total:
  assumes "zstd_total E (zstd_level (cfg w))" and "json_faithful (json E) r"
  shows "snd (cw_push E r w) = Inr ()"
  using assms
  by (auto simp: cw_push_def append_jsonl_faithful Let_def intro!: cut_frame_total)

lemma push_all_total:
  assumes "zstd_total E (zstd_level (cfg w))" and "jsonl_faithful (json E) rs"
  shows "\<exists>w'. push_all E rs w = (w', Inr ()) \<and> cfg w' = cfg w"
  using assms
proof (induction rs arbitrary: w)
  case (Cons r rs)
  obtain w1 where p: "cw_push E r w = (w1, Inr ())"
    using cw_push_total [of E w r] Cons.prems by (cases "cw_push E r w") auto
  moreover have "cfg w1 = cfg w" using p by (rule cw_push_cfg)
  ultimately show ?case using Cons.IH [of w1] Cons.prems by simp
qed simp

lemma cw_encode_total:
  assumes "zstd_total E (zstd_level (cfg w))"
  shows "\<exists>res. cw_encode E w = Inr res"
  using assms unfolding zstd_total_def cw_encode_def Let_def
  by (cases "compress_frame E (pending w) (zstd_level (cfg w))") (auto dest: spec [of _ "pending w"])

text \<open>A run of the writer from scratch, as the drain, the gateway and the CLI use it.\<close>

lemma written_chunk:
  assumes "zstd_total E (zstd_level c)" and "jsonl_faithful (json E) rs"
  obtains w where "push_all E rs (cw_new c) = (w, Inr ())"
    and "rs = [] \<Longrightarrow> cw_finish E w = Inr None"
    and "rs \<noteq> [] \<Longrightarrow> \<exists>ch fs zs. cw_finish E w = Inr (Some ch)
           \<and> chunk_holds E (zstd_level c) ch fs zs \<and> concat fs = rs"
proof -
  have cfg0: "cfg (cw_new c) = c" by (simp add: cw_new_def)
  with assms obtain w where w: "push_all E rs (cw_new c) = (w, Inr ())" and c: "cfg w = c"
    using push_all_total [of E "cw_new c" rs] by auto
  from writer_holds_push_all [OF writer_holds_new w] obtain fs zs pd where
    h: "writer_holds E w fs zs pd" and rs: "concat fs @ pd = rs" by auto
  obtain res where e: "cw_encode E w = Inr res" using cw_encode_total assms(1) c by blast
  have ne: "fs \<noteq> [] \<longrightarrow> concat fs \<noteq> []"
    using h by (cases zs) (auto simp: writer_holds_def frame_of_def list_all2_Cons1 neq_Nil_conv)
  note r = cw_encode_holds [OF h e]
  show thesis
  proof (rule that [OF w])
    assume "rs = []"
    then have "fs = []" "pd = []" using ne rs by auto
    then have "res = None" using r by (cases res) (auto simp: chunk_holds_def frame_of_def
        list_all2_Cons1 neq_Nil_conv)
    then show "cw_finish E w = Inr None" using e by (simp add: cw_finish_def)
  next
    assume "rs \<noteq> []"
    then show "\<exists>ch fs zs. cw_finish E w = Inr (Some ch)
           \<and> chunk_holds E (zstd_level c) ch fs zs \<and> concat fs = rs"
      using r rs e c by (cases res) (auto simp: cw_finish_def)
  qed
qed

section \<open>The writer as its clients see it\<close>

definition writer_has :: "chunk_env \<Rightarrow> chunk_writer \<Rightarrow> log_record list \<Rightarrow> bool" where
  "writer_has E w rs \<longleftrightarrow> (\<exists>fs zs pd. writer_holds E w fs zs pd \<and> concat fs @ pd = rs)"

definition chunk_has :: "chunk_env \<Rightarrow> encoded_chunk \<Rightarrow> log_record list \<Rightarrow> bool" where
  "chunk_has E ch rs \<longleftrightarrow> rs \<noteq> []
     \<and> zstd_decode E (chunk_body ch) = Inr (jsonl_text (json E) rs, None)
     \<and> chunk_record_count ch = length rs
     \<and> uncompressed_bytes ch = length (jsonl_text (json E) rs)
     \<and> min_timestamp ch = ts_min rs \<and> max_timestamp ch = ts_max rs
     \<and> chunk_crc32c ch = crc32c_of E (chunk_body ch)"

lemma writer_has_new [simp]: "writer_has E (cw_new c) []"
  using writer_holds_new by (fastforce simp: writer_has_def)

lemma writer_has_push:
  assumes "writer_has E w rs" and "cw_push E r w = (w', Inr u)"
  shows "writer_has E w' (rs @ [r])"
  using assms writer_holds_push by (fastforce simp: writer_has_def)

lemma chunk_holds_has:
  assumes "zstd_faithful E" and h: "chunk_holds E level c fs zs"
  shows "chunk_has E c (concat fs)"
proof -
  have "concat fs \<noteq> []"
    using h by (auto simp: chunk_holds_def frame_of_def list_all2_Cons1 neq_Nil_conv)
  then show ?thesis
    using chunk_body_decodes [OF assms] h by (simp add: chunk_has_def chunk_holds_def)
qed

lemma writer_has_finish:
  assumes "zstd_faithful E" and w: "writer_has E w rs" and e: "cw_encode E w = Inr res"
  shows "case res of None \<Rightarrow> rs = [] | Some ch \<Rightarrow> chunk_has E ch rs"
proof -
  from w obtain fs zs pd where h: "writer_holds E w fs zs pd" "concat fs @ pd = rs"
    by (auto simp: writer_has_def)
  from cw_encode_holds [OF h(1) e] h(2) show ?thesis
    using chunk_holds_has [OF assms(1)] by (cases res) (auto, metis)
qed

lemma writer_has_length:
  "writer_has E w rs \<Longrightarrow> uncompressed_len w = length (jsonl_text (json E) rs)"
  "writer_has E w rs \<Longrightarrow> cw_record_count w = length rs"
  by (auto simp: writer_has_def writer_holds_def uncompressed_len_def cw_record_count_def)

end
