(* ===== verification/S4_Read.thy ===== *)
theory S4_Read
  imports S4_Chunk
begin

text \<open>
  The read path (\<^verbatim>\<open>s4logs-core/src/read.rs\<close>): frame pruning by timestamp range, coalescing of byte
  ranges, decompression under a size cap and the JSONL line iterator. The lemmas compose it with
  the chunk writer: what a pruned read returns is the time filter of what was pushed.
\<close>

section \<open>Data\<close>

record time_range =
  from_ms :: int
  to_ms_exclusive :: int

definition overlaps :: "time_range \<Rightarrow> int \<Rightarrow> int \<Rightarrow> bool" where
  "overlaps rg mn mx \<longleftrightarrow> mn < to_ms_exclusive rg \<and> mx \<ge> from_ms rg"

datatype read_error =
    IndexMismatch nat nat
  | Bomb nat
  | SizeMismatch nat nat
  | ReadIo string

record frame_span =
  frame_idx :: nat
  byte_start :: nat
  byte_end_exclusive :: nat
  span_original_size :: nat

definition BOMB_SLACK_BYTES :: nat where "BOMB_SLACK_BYTES = 1024"
definition MAX_DECOMPRESSED_BYTES :: nat where "MAX_DECOMPRESSED_BYTES = 64 * 2 ^ 30"

section \<open>Operations\<close>

text \<open>\<open>cend\<close> is s4-codec's \<^verbatim>\<open>FrameIndexEntry::compressed_end\<close>.\<close>

definition frames_overlapping ::
    "(frame_index_entry \<Rightarrow> nat) \<Rightarrow> frame_index \<Rightarrow> ts_index \<Rightarrow> time_range
     \<Rightarrow> read_error + frame_span list" where
  "frames_overlapping cend fi ti rg =
     (if length (fi_entries fi) \<noteq> length (ts_entries ti)
      then Inl (IndexMismatch (length (fi_entries fi)) (length (ts_entries ti)))
      else Inr (map (\<lambda>(i, (fe, _)).
                    \<lparr>frame_idx = i, byte_start = compressed_offset fe,
                     byte_end_exclusive = cend fe, span_original_size = original_size fe\<rparr>)
                 (filter (\<lambda>(_, (_, ts)). overlaps rg (min_ts ts) (max_ts ts))
                    (enumerate 0 (zip (fi_entries fi) (ts_entries ti))))))"

fun coalesce_loop ::
    "nat \<Rightarrow> frame_span list \<Rightarrow> (nat \<times> nat \<times> nat) list \<Rightarrow> (nat \<times> nat \<times> nat) list" where
  "coalesce_loop gap [] out = out"
| "coalesce_loop gap (s # ss) out =
     (if out \<noteq> [] \<and> byte_start s - fst (snd (last out)) \<le> gap
      then coalesce_loop gap ss
             (butlast out @ [(fst (last out), byte_end_exclusive s,
                              snd (snd (last out)) + span_original_size s)])
      else coalesce_loop gap ss
             (out @ [(byte_start s, byte_end_exclusive s, span_original_size s)]))"

definition coalesce_spans :: "frame_span list \<Rightarrow> nat \<Rightarrow> (nat \<times> nat \<times> nat) list" where
  "coalesce_spans spans max_gap_bytes = coalesce_loop max_gap_bytes spans []"

text \<open>
  \<^verbatim>\<open>take(cap).read_to_end\<close> stops at \<open>cap\<close> bytes, so a decoder error that lies behind the cap is
  never seen; one before it is the result.
\<close>

definition decompress_frames :: "chunk_env \<Rightarrow> bytes \<Rightarrow> nat \<Rightarrow> read_error + bytes" where
  "decompress_frames E input expected_original =
     (if expected_original > MAX_DECOMPRESSED_BYTES then Inl (Bomb MAX_DECOMPRESSED_BYTES)
      else let cap = sat_u64 (expected_original + BOMB_SLACK_BYTES) in
      case zstd_decode E input of
        Inl e \<Rightarrow> Inl (ReadIo e)
      | Inr (decoded, err) \<Rightarrow>
          let out = take cap decoded in
          if err \<noteq> None \<and> length decoded < cap then Inl (ReadIo (the err))
          else if length out \<ge> cap then Inl (Bomb cap)
          else if length out \<noteq> expected_original
          then Inl (SizeMismatch expected_original (length out))
          else Inr out)"

text \<open>\<^verbatim>\<open>RecordLines::next\<close>: the parsed line and the rest, skipping empty lines.\<close>

function rl_next ::
    "log_record serde \<Rightarrow> bytes \<Rightarrow> ((record_error + log_record) \<times> bytes) option" where
  "rl_next J rest =
     (if rest = [] then None
      else let line = takeWhile (\<lambda>b. b \<noteq> NL) rest; rest' = drop (length line + 1) rest in
      if line \<noteq> [] then Some (from_jsonl J line, rest') else rl_next J rest')"
  by pat_completeness auto
termination by (relation "measure (\<lambda>(J, rest). length rest)") auto

declare rl_next.simps [simp del]

lemma rl_next_shorter: "rl_next J rest = Some (x, rest') \<Longrightarrow> length rest' < length rest"
proof (induction J rest rule: rl_next.induct)
  case (1 J rest)
  then show ?case
    by (subst (asm) (2) rl_next.simps) (fastforce simp: Let_def split: if_splits)
qed

text \<open>The iterator run to its end.\<close>

function record_lines :: "log_record serde \<Rightarrow> bytes \<Rightarrow> (record_error + log_record) list" where
  "record_lines J rest =
     (case rl_next J rest of None \<Rightarrow> [] | Some (x, rest') \<Rightarrow> x # record_lines J rest')"
  by pat_completeness auto
termination
  by (relation "measure (\<lambda>(J, rest). length rest)") (auto dest: rl_next_shorter)

declare record_lines.simps [simp del]

section \<open>The line iterator inverts the line writer\<close>

lemma rl_next_line:
  assumes "json_faithful J r"
  shows "rl_next J (jsonl_line J r @ rest) = Some (Inr r, rest)"
proof -
  from assms obtain s where s: "s \<noteq> []" "NL \<notin> set s" "from_json J s = Inr r"
    "jsonl_line J r = s @ [NL]" by (rule json_faithfulE) blast
  have "takeWhile (\<lambda>b. b \<noteq> NL) (s @ NL # rest) = s"
    using s(2) by (subst takeWhile_append2) auto
  with s show ?thesis by (simp add: rl_next.simps from_jsonl_def Let_def)
qed

lemma record_lines_Nil [simp]: "record_lines J [] = []"
  by (simp add: record_lines.simps rl_next.simps)

lemma record_lines_text:
  "jsonl_faithful J rs \<Longrightarrow> record_lines J (jsonl_text J rs) = map Inr rs"
proof (induction rs)
  case (Cons r rs)
  then show ?case
    by (subst record_lines.simps) (simp add: rl_next_line)
qed simp

section \<open>The size cap\<close>

lemma decompress_frames_Inr:
  assumes "decompress_frames E input n = Inr out"
  shows "length out = n \<and> n \<le> MAX_DECOMPRESSED_BYTES \<and> zstd_decode E input = Inr (out, None)"
  using assms
  by (auto simp: decompress_frames_def Let_def split: if_splits sum.splits prod.splits)

lemma cap_exact: "n \<le> MAX_DECOMPRESSED_BYTES \<Longrightarrow> n < sat_u64 (n + BOMB_SLACK_BYTES)"
  by (simp add: sat_u64_def u64_MAX_def MAX_DECOMPRESSED_BYTES_def BOMB_SLACK_BYTES_def)

lemma decompress_frames_exact:
  assumes "zstd_decode E input = Inr (out, None)" and "length out \<le> MAX_DECOMPRESSED_BYTES"
  shows "decompress_frames E input (length out) = Inr out"
  using assms cap_exact [of "length out"]
  by (simp add: decompress_frames_def Let_def)

section \<open>Pruned reads\<close>

text \<open>A Range GET of one span, decoded: \<open>span_slice\<close> is the body returned for its byte range.\<close>

definition span_slice :: "bytes \<Rightarrow> frame_span \<Rightarrow> bytes" where
  "span_slice body s = take (byte_end_exclusive s - byte_start s) (drop (byte_start s) body)"

definition read_span :: "chunk_env \<Rightarrow> bytes \<Rightarrow> frame_span \<Rightarrow> read_error + bytes" where
  "read_span E body s = decompress_frames E (span_slice body s) (span_original_size s)"

definition cend_ok :: "(frame_index_entry \<Rightarrow> nat) \<Rightarrow> bool" where
  "cend_ok cend \<longleftrightarrow> (\<forall>fe. cend fe = compressed_offset fe + compressed_size fe)"

definition frame_hits :: "time_range \<Rightarrow> log_record list \<Rightarrow> bool" where
  "frame_hits rg f \<longleftrightarrow> overlaps rg (ts_min f) (ts_max f)"

definition in_range :: "time_range \<Rightarrow> log_record \<Rightarrow> bool" where
  "in_range rg r \<longleftrightarrow> from_ms rg \<le> timestamp r \<and> timestamp r < to_ms_exclusive rg"

lemma frame_hits_in_range: "r \<in> set f \<Longrightarrow> in_range rg r \<Longrightarrow> frame_hits rg f"
  using ts_min_le [of r f] ts_max_ge [of r f]
  by (simp add: frame_hits_def in_range_def overlaps_def)

lemma pruning_keeps_range:
  "filter (in_range rg) (concat (filter (frame_hits rg) fs)) = filter (in_range rg) (concat fs)"
proof (induction fs)
  case (Cons f fs)
  have "\<not> frame_hits rg f \<Longrightarrow> filter (in_range rg) f = []"
    using frame_hits_in_range by (fastforce simp: filter_empty_conv)
  with Cons show ?case by simp
qed simp

lemma single_frame_decodes:
  assumes "zstd_faithful E" and "compress_frame E p level = Inr z"
  shows "zstd_decode E z = Inr (p, None)"
  using zstd_faithful_def [THEN iffD1, rule_format, OF assms(1), of "[p]" level "[z]"] assms(2)
  by simp

lemma read_tiled:
  assumes z: "zstd_faithful E" and c: "cend_ok cend"
    and f: "list_all2 (frame_of E level) fs zs"
    and m: "\<forall>f \<in> set fs. length (jsonl_text (json E) f) \<le> MAX_DECOMPRESSED_BYTES"
  shows "map (read_span E (pre @ concat zs))
      (map (\<lambda>(i, (fe, _)).
              \<lparr>frame_idx = i, byte_start = compressed_offset fe, byte_end_exclusive = cend fe,
               span_original_size = original_size fe\<rparr>)
         (filter (\<lambda>(_, (_, ts)). overlaps rg (min_ts ts) (max_ts ts))
            (enumerate k (zip (tile off (length pre) (pairs_of E fs zs)) (map ts_range fs)))))
    = map (\<lambda>f. Inr (jsonl_text (json E) f)) (filter (frame_hits rg) fs)"
  using f m
proof (induction fs zs arbitrary: k off pre rule: list_all2_induct)
  case (Cons f fs y ys)
  let ?t = "jsonl_text (json E) f"
  have "compress_frame E ?t level = Inr y" using Cons.hyps(1) by (simp add: frame_of_def)
  then have "zstd_decode E y = Inr (?t, None)" using z by (rule single_frame_decodes [rotated])
  then have d: "decompress_frames E y (length ?t) = Inr ?t"
    using Cons.prems by (intro decompress_frames_exact) simp_all
  show ?case
    using Cons.IH [of "pre @ y" "Suc k" "off + length ?t"] Cons.prems d c
    by (simp add: pairs_of_def frame_hits_def ts_range_def read_span_def span_slice_def cend_ok_def)
qed (simp add: pairs_of_def)

lemma chunk_holds_lengths:
  assumes "chunk_holds E level c fs zs"
  shows "length (fi_entries (chunk_frame_index c)) = length fs"
    "length (ts_entries (chunk_ts_index c)) = length fs"
  using assms by (auto simp: chunk_holds_def pairs_of_def dest: list_all2_lengthD)

lemma pruned_read:
  assumes "zstd_faithful E" and "cend_ok cend" and "chunk_holds E level c fs zs"
    and "\<forall>f \<in> set fs. length (jsonl_text (json E) f) \<le> MAX_DECOMPRESSED_BYTES"
  shows "\<exists>spans. frames_overlapping cend (chunk_frame_index c) (chunk_ts_index c) rg = Inr spans
    \<and> map (read_span E (chunk_body c)) spans
      = map (\<lambda>f. Inr (jsonl_text (json E) f)) (filter (frame_hits rg) fs)"
  using read_tiled [OF assms(1,2) _ assms(4), of level zs "[]" rg 0 0] assms(3)
    chunk_holds_lengths [OF assms(3)]
  by (simp add: frames_overlapping_def chunk_holds_def)

lemma pruned_chunk:
  assumes "zstd_faithful E" and "cend_ok cend" and h: "chunk_holds E level ch fs zs"
    and "jsonl_faithful (json E) (concat fs)"
    and "length (jsonl_text (json E) (concat fs)) \<le> MAX_DECOMPRESSED_BYTES"
  shows "\<exists>spans texts got. frames_overlapping cend (chunk_frame_index ch) (chunk_ts_index ch) rg = Inr spans
    \<and> map (read_span E (chunk_body ch)) spans = map Inr texts
    \<and> concat (map (record_lines (json E)) texts) = map Inr got
    \<and> filter (in_range rg) got = filter (in_range rg) (concat fs)"
proof -
  let ?J = "json E"
  have "length (jsonl_text ?J f) \<le> length (jsonl_text ?J (concat fs))" if "f \<in> set fs" for f
    using split_list [OF that] by auto
  then have "\<forall>f \<in> set fs. length (jsonl_text ?J f) \<le> MAX_DECOMPRESSED_BYTES"
    using assms(5) le_trans by blast
  from pruned_read [OF assms(1,2) h this] obtain spans where
    s: "frames_overlapping cend (chunk_frame_index ch) (chunk_ts_index ch) rg = Inr spans"
      "map (read_span E (chunk_body ch)) spans
        = map Inr (map (jsonl_text ?J) (filter (frame_hits rg) fs))" by (auto simp: comp_def)
  have "jsonl_faithful ?J f" if "f \<in> set fs" for f
    using assms(4) that by (auto simp: jsonl_faithful_def)
  then have "concat (map (record_lines ?J) (map (jsonl_text ?J) (filter (frame_hits rg) fs)))
      = map Inr (concat (filter (frame_hits rg) fs))"
    by (induction fs) (auto simp: record_lines_text)
  then show ?thesis using s pruning_keeps_range by metis
qed

section \<open>Coalescing\<close>

text \<open>Every span lies inside one of the coalesced byte ranges, and no range is made up.\<close>

definition covered_by :: "(nat \<times> nat \<times> nat) list \<Rightarrow> frame_span \<Rightarrow> bool" where
  "covered_by out s \<longleftrightarrow> (\<exists>(b, e, n) \<in> set out. b \<le> byte_start s \<and> byte_end_exclusive s \<le> e)"

text \<open>Spans in object order: each starts where or after the previous one ends.\<close>

fun spans_from :: "nat \<Rightarrow> frame_span list \<Rightarrow> bool" where
  "spans_from pos [] = True"
| "spans_from pos (s # ss) =
     (pos \<le> byte_start s \<and> byte_start s \<le> byte_end_exclusive s
      \<and> spans_from (byte_end_exclusive s) ss)"

definition last_end :: "(nat \<times> nat \<times> nat) list \<Rightarrow> nat" where
  "last_end out = (if out = [] then 0 else fst (snd (last out)))"

lemma last_end_simps [simp]: "last_end [] = 0" "last_end (xs @ [(a, b, c)]) = b"
  by (simp_all add: last_end_def)

lemma coalesce_loop_covers:
  assumes "spans_from (last_end out) ss" and "\<forall>(b, e, n) \<in> set out. b \<le> e"
    and "covered_by out s \<or> s \<in> set ss"
  shows "covered_by (coalesce_loop gap ss out) s"
  using assms
proof (induction ss arbitrary: out)
  case (Cons x ss)
  show ?case
  proof (cases "out \<noteq> [] \<and> byte_start x - fst (snd (last out)) \<le> gap")
    case True
    then obtain xs b e n where out: "out = xs @ [(b, e, n)]"
      by (metis append_butlast_last_id prod_cases3)
    let ?out = "xs @ [(b, byte_end_exclusive x, n + span_original_size x)]"
    have "covered_by ?out s \<or> s \<in> set ss"
      using Cons.prems out by (auto simp: covered_by_def)
    moreover have "\<forall>(b, e, n) \<in> set ?out. b \<le> e" using Cons.prems out by auto
    moreover have "spans_from (last_end ?out) ss" using Cons.prems(1) by simp
    ultimately show ?thesis using Cons.IH [of ?out] True out by simp
  next
    case False
    let ?out = "out @ [(byte_start x, byte_end_exclusive x, span_original_size x)]"
    have "covered_by ?out s \<or> s \<in> set ss" using Cons.prems by (auto simp: covered_by_def)
    moreover have "\<forall>(b, e, n) \<in> set ?out. b \<le> e" using Cons.prems by auto
    moreover have "spans_from (last_end ?out) ss" using Cons.prems(1) by simp
    ultimately show ?thesis using Cons.IH [of ?out] False by auto
  qed
qed simp

lemma coalesce_loop_sizes:
  "sum_list (map (snd \<circ> snd) (coalesce_loop gap ss out)) =
     sum_list (map (snd \<circ> snd) out) + sum_list (map span_original_size ss)"
proof (induction gap ss out rule: coalesce_loop.induct)
  case (2 gap s ss out)
  then show ?case
    by (cases out rule: rev_cases) auto
qed simp

text \<open>Adjacent coalesced ranges lie more than the gap apart: no two could have been one request.\<close>

fun ranges_apart :: "nat \<Rightarrow> (nat \<times> nat \<times> nat) list \<Rightarrow> bool" where
  "ranges_apart gap (r # r' # rs) = (fst (snd r) + gap < fst r' \<and> ranges_apart gap (r' # rs))"
| "ranges_apart gap _ = True"

lemma ranges_apart_snoc:
  "ranges_apart gap (rs @ [r]) \<longleftrightarrow>
     ranges_apart gap rs \<and> (rs = [] \<or> fst (snd (last rs)) + gap < fst r)"
  by (induction gap rs rule: ranges_apart.induct) auto

lemma coalesce_loop_apart:
  "ranges_apart gap out \<Longrightarrow> ranges_apart gap (coalesce_loop gap ss out)"
proof (induction ss arbitrary: out)
  case (Cons s ss)
  show ?case
  proof (cases "out \<noteq> [] \<and> byte_start s - fst (snd (last out)) \<le> gap")
    case True
    then obtain xs r where "out = xs @ [r]" by (metis append_butlast_last_id)
    with Cons True show ?thesis by (simp add: ranges_apart_snoc)
  next
    case False
    then have "ranges_apart gap (out @ [(byte_start s, byte_end_exclusive s, span_original_size s)])"
      using Cons.prems by (auto simp: ranges_apart_snoc)
    with Cons.IH False show ?thesis by auto
  qed
qed simp

section \<open>A concrete environment\<close>

text \<open>
  A third-party environment with two JSON values and a zstd that stores its input, for evaluating
  the definitions on concrete inputs.
\<close>

definition sample_record :: "int \<Rightarrow> log_record" where
  "sample_record t = \<lparr>timestamp = t, stream = ''s'', message = ''m'', ingestion_time = None,
     event_id = None\<rparr>"

definition sample_json :: "log_record serde" where
  "sample_json =
     \<lparr>to_json = (\<lambda>r. Inr (if r = sample_record 5 then [65] else [66])),
      from_json = (\<lambda>b. Inr (if b = [65] then sample_record 5 else sample_record 9))\<rparr>"

definition sample_env :: chunk_env where
  "sample_env = \<lparr>json = sample_json, zstd_encode = (\<lambda>_ _ _ b. Inr b),
     zstd_decode = (\<lambda>b. Inr (b, None)), crc32c_of = (\<lambda>_. 0)\<rparr>"

definition sample_cend :: "frame_index_entry \<Rightarrow> nat" where
  "sample_cend fe = compressed_offset fe + compressed_size fe"

lemma sample_zstd_faithful: "zstd_faithful sample_env"
proof -
  have "list_all2 (\<lambda>p z. Inr p = (Inr z :: string + bytes)) ps zs \<Longrightarrow> ps = zs" for ps zs :: "bytes list"
    by (induction ps zs rule: list_all2_induct) auto
  then show ?thesis by (auto simp: zstd_faithful_def sample_env_def compress_frame_def)
qed

lemma sample_zstd_total: "zstd_total sample_env level"
  by (simp add: zstd_total_def sample_env_def compress_frame_def)

lemma sample_jsonl_faithful:
  "jsonl_faithful (json sample_env) [sample_record 9, sample_record 5]"
  by (simp add: json_faithful_def sample_env_def sample_json_def sample_record_def)

lemma sample_text_length:
  "length (jsonl_text (json sample_env) [sample_record 9, sample_record 5]) = 4"
  by (simp add: sample_env_def sample_json_def sample_record_def jsonl_line_def)

lemma sample_cend_ok: "cend_ok sample_cend"
  by (simp add: cend_ok_def sample_cend_def)

lemmas sample_env_facts = sample_zstd_faithful sample_zstd_total sample_jsonl_faithful
  sample_text_length sample_cend_ok

section \<open>Properties\<close>

text \<open>
  C8: a chunk decodes to what was pushed. From an empty writer, pushing any non-empty list of
  records and finishing succeeds; the object body decompresses as one stream to JSONL text whose
  lines parse to exactly the pushed records in order; and the counters, the timestamp range and
  the checksum in the chunk are those of the records and of the body.
\<close>

theorem chunk_roundtrip:
  assumes "zstd_faithful E" and "zstd_total E (zstd_level c)"
    and "jsonl_faithful (json E) rs" and "rs \<noteq> []" and "\<forall>r \<in> set rs. is_i64 (timestamp r)"
  shows "\<exists>w ch txt. push_all E rs (cw_new c) = (w, Inr ()) \<and> cw_finish E w = Inr (Some ch)
    \<and> zstd_decode E (chunk_body ch) = Inr (txt, None) \<and> record_lines (json E) txt = map Inr rs
    \<and> chunk_record_count ch = length rs \<and> uncompressed_bytes ch = length txt
    \<and> min_timestamp ch = Min (timestamp ` set rs) \<and> max_timestamp ch = Max (timestamp ` set rs)
    \<and> chunk_crc32c ch = crc32c_of E (chunk_body ch)"
proof -
  from written_chunk [OF assms(2,3)] assms(4) obtain w ch fs zs where
    w: "push_all E rs (cw_new c) = (w, Inr ())" "cw_finish E w = Inr (Some ch)"
    and h: "chunk_holds E (zstd_level c) ch fs zs" "concat fs = rs" by metis
  then show ?thesis
    using chunk_body_decodes [OF assms(1) h(1)] record_lines_text [OF assms(3)]
      ts_min_exact [OF assms(4,5)] ts_max_exact [OF assms(4,5)]
    by (intro exI [of _ w] exI [of _ ch]) (simp add: chunk_holds_def)
qed

theorem chunk_roundtrip_witness:
  "\<exists>w ch txt. push_all sample_env [sample_record 9, sample_record 5] (cw_new chunk_config_default)
      = (w, Inr ())
    \<and> cw_finish sample_env w = Inr (Some ch)
    \<and> zstd_decode sample_env (chunk_body ch) = Inr (txt, None)
    \<and> record_lines (json sample_env) txt = [Inr (sample_record 9), Inr (sample_record 5)]
    \<and> chunk_record_count ch = 2 \<and> min_timestamp ch = 5 \<and> max_timestamp ch = 9"
  using chunk_roundtrip [of sample_env chunk_config_default "[sample_record 9, sample_record 5]"]
    sample_env_facts
  by (auto simp: sample_record_def is_i64_def i64_MIN_def i64_MAX_def)

text \<open>
  C6: time-range pruning loses nothing. For a chunk written from any records, the frames selected
  by the timestamp sidecar can each be fetched by their byte range and decompressed on their own,
  and filtering the records of those frames by the time range gives exactly the records of the
  whole chunk in that range, in order.
\<close>

theorem pruned_range_read:
  assumes "zstd_faithful E" and "zstd_total E (zstd_level c)" and "cend_ok cend"
    and "jsonl_faithful (json E) rs" and "rs \<noteq> []"
    and "length (jsonl_text (json E) rs) \<le> MAX_DECOMPRESSED_BYTES"
  shows "\<exists>w ch spans texts got. push_all E rs (cw_new c) = (w, Inr ())
    \<and> cw_finish E w = Inr (Some ch)
    \<and> frames_overlapping cend (chunk_frame_index ch) (chunk_ts_index ch) rg = Inr spans
    \<and> map (read_span E (chunk_body ch)) spans = map Inr texts
    \<and> concat (map (record_lines (json E)) texts) = map Inr got
    \<and> filter (in_range rg) got = filter (in_range rg) rs"
proof -
  from written_chunk [OF assms(2,4)] assms(5) obtain w ch fs zs where
    w: "push_all E rs (cw_new c) = (w, Inr ())" "cw_finish E w = Inr (Some ch)"
    and h: "chunk_holds E (zstd_level c) ch fs zs" and rs: "concat fs = rs" by metis
  then show ?thesis
    using pruned_chunk [OF assms(1,3) h] assms(4,6) by (metis (no_types, lifting))
qed

theorem pruned_range_read_witness:
  "\<exists>w ch spans texts got.
    push_all sample_env [sample_record 9, sample_record 5] (cw_new \<lparr>frame_target_bytes = 1, zstd_level = 3\<rparr>)
      = (w, Inr ())
    \<and> cw_finish sample_env w = Inr (Some ch)
    \<and> frames_overlapping sample_cend (chunk_frame_index ch) (chunk_ts_index ch)
        \<lparr>from_ms = 5, to_ms_exclusive = 6\<rparr> = Inr spans
    \<and> map (read_span sample_env (chunk_body ch)) spans = map Inr texts
    \<and> concat (map (record_lines (json sample_env)) texts) = map Inr got
    \<and> filter (in_range \<lparr>from_ms = 5, to_ms_exclusive = 6\<rparr>) got = [sample_record 5]"
  using pruned_range_read [of sample_env "\<lparr>frame_target_bytes = 1, zstd_level = 3\<rparr>" sample_cend
      "[sample_record 9, sample_record 5]" "\<lparr>from_ms = 5, to_ms_exclusive = 6\<rparr>"]
    sample_env_facts
  by (simp add: MAX_DECOMPRESSED_BYTES_def in_range_def sample_record_def)

text \<open>
  C16: the decompression cap is exact. Decompression succeeds precisely when the claimed size is
  below the ceiling, the stream decodes without an error and has exactly the claimed size; so it
  never hands out more bytes than the sidecar claims.
\<close>

theorem decompress_frames_iff:
  "decompress_frames E input n = Inr out \<longleftrightarrow>
     n \<le> MAX_DECOMPRESSED_BYTES \<and> length out = n \<and> zstd_decode E input = Inr (out, None)"
  using decompress_frames_Inr [of E input n out] decompress_frames_exact [of E input out] by auto

text \<open>
  Coalescing of byte ranges. For spans in object order every span lies inside one coalesced
  range, neighbouring ranges are more than the allowed gap apart, and the sizes add up to the sizes
  of the spans (bytes of frames in a gap are not counted).
\<close>

theorem coalesce_spans_correct:
  assumes "spans_from 0 spans"
  shows "(\<forall>s \<in> set spans. covered_by (coalesce_spans spans gap) s)
    \<and> ranges_apart gap (coalesce_spans spans gap)
    \<and> sum_list (map (snd \<circ> snd) (coalesce_spans spans gap)) = sum_list (map span_original_size spans)"
  using assms coalesce_loop_covers [of "[]" spans _ gap] coalesce_loop_apart [of gap "[]" spans]
    coalesce_loop_sizes [of gap spans "[]"]
  by (simp add: coalesce_spans_def)

theorem coalesce_spans_correct_witness:
  "covered_by (coalesce_spans
      [\<lparr>frame_idx = 0, byte_start = 0, byte_end_exclusive = 3, span_original_size = 9\<rparr>,
       \<lparr>frame_idx = 2, byte_start = 5, byte_end_exclusive = 7, span_original_size = 8\<rparr>] 1)
     \<lparr>frame_idx = 2, byte_start = 5, byte_end_exclusive = 7, span_original_size = 8\<rparr>"
  using coalesce_spans_correct [of
      "[\<lparr>frame_idx = 0, byte_start = 0, byte_end_exclusive = 3, span_original_size = 9\<rparr>,
        \<lparr>frame_idx = 2, byte_start = 5, byte_end_exclusive = 7, span_original_size = 8\<rparr>]" 1]
  by simp

end
