(* ===== verification/S4_Layout.thy ===== *)
theory S4_Layout
  imports S4_Prelude
begin

text \<open>
  The S3 key layout (\<^verbatim>\<open>s4logs-core/src/layout.rs\<close>): the percent encoding of log group names, the
  prefix normalisation and the keys of data objects, sidecars and manifests. The lemmas show that
  keys can be parsed back, that different objects never share a key and that the listing prefix of
  one group matches the keys of that group only.
\<close>

section \<open>Definitions\<close>

definition DATA_SEG :: string where "DATA_SEG = ''data''"
definition INDEX_SEG :: string where "INDEX_SEG = ''index''"
definition MANIFEST_SEG :: string where "MANIFEST_SEG = ''manifest''"
definition DATA_SUFFIX :: string where "DATA_SUFFIX = ''.jsonl.zst''"
definition TS_SIDECAR_SUFFIX :: string where "TS_SIDECAR_SUFFIX = ''.s4lts''"

definition hex_char :: "nat \<Rightarrow> char" where
  "hex_char n = char_of (if n < 10 then 48 + n else 55 + n)"

text \<open>\<^verbatim>\<open>char::to_digit(16)\<close>: both letter cases are accepted.\<close>

definition to_digit16 :: "char \<Rightarrow> nat option" where
  "to_digit16 c =
     (let k = of_char c :: nat in
      if 48 \<le> k \<and> k \<le> 57 then Some (k - 48)
      else if 65 \<le> k \<and> k \<le> 70 then Some (k - 55)
      else if 97 \<le> k \<and> k \<le> 102 then Some (k - 87)
      else None)"

definition unreserved :: "char \<Rightarrow> bool" where
  "unreserved c \<longleftrightarrow>
     (let k = of_char c :: nat in
      65 \<le> k \<and> k \<le> 90 \<or> 97 \<le> k \<and> k \<le> 122 \<or> 48 \<le> k \<and> k \<le> 57
      \<or> c = CHR ''_'' \<or> c = CHR ''.'' \<or> c = CHR ''-'')"

definition pct_byte :: "char \<Rightarrow> string" where
  "pct_byte c = [CHR ''%'', hex_char (of_char c div 16), hex_char (of_char c mod 16)]"

definition sanitize_log_group :: "string \<Rightarrow> string" where
  "sanitize_log_group g = concat (map (\<lambda>c. if unreserved c then [c] else pct_byte c) g)"

text \<open>\<^verbatim>\<open>String::from_utf8\<close>: the byte sequences Rust accepts (RFC 3629: no overlong form, no surrogate).\<close>

definition byte_in :: "nat \<Rightarrow> nat \<Rightarrow> char \<Rightarrow> bool" where
  "byte_in lo hi c \<longleftrightarrow> lo \<le> (of_char c :: nat) \<and> (of_char c :: nat) \<le> hi"

fun utf8_ok :: "string \<Rightarrow> bool" where
  "utf8_ok [] = True"
| "utf8_ok (b # bs) =
     (if byte_in 0 127 b then utf8_ok bs
      else if byte_in 0xC2 0xDF b then
        (case bs of c1 # r \<Rightarrow> byte_in 0x80 0xBF c1 \<and> utf8_ok r | _ \<Rightarrow> False)
      else if byte_in 0xE0 0xEF b then
        (case bs of c1 # c2 # r \<Rightarrow>
           byte_in (if byte_in 0xE0 0xE0 b then 0xA0 else 0x80)
                   (if byte_in 0xED 0xED b then 0x9F else 0xBF) c1
           \<and> byte_in 0x80 0xBF c2 \<and> utf8_ok r
         | _ \<Rightarrow> False)
      else if byte_in 0xF0 0xF4 b then
        (case bs of c1 # c2 # c3 # r \<Rightarrow>
           byte_in (if byte_in 0xF0 0xF0 b then 0x90 else 0x80)
                   (if byte_in 0xF4 0xF4 b then 0x8F else 0xBF) c1
           \<and> byte_in 0x80 0xBF c2 \<and> byte_in 0x80 0xBF c3 \<and> utf8_ok r
         | _ \<Rightarrow> False)
      else False)"

fun unsanitize_bytes :: "string \<Rightarrow> string option" where
  "unsanitize_bytes [] = Some []"
| "unsanitize_bytes (c # cs) =
     (if c = CHR ''%'' then
        (case cs of
           h # l # rest \<Rightarrow>
             (case to_digit16 h of None \<Rightarrow> None
              | Some hi \<Rightarrow>
                 (case to_digit16 l of None \<Rightarrow> None
                  | Some lo \<Rightarrow>
                     map_option (\<lambda>out. char_of (hi * 16 + lo) # out) (unsanitize_bytes rest)))
         | _ \<Rightarrow> None)
      else map_option (\<lambda>out. c # out) (unsanitize_bytes cs))"

definition unsanitize_log_group :: "string \<Rightarrow> string option" where
  "unsanitize_log_group s =
     (case unsanitize_bytes s of
        None \<Rightarrow> None
      | Some out \<Rightarrow> if utf8_ok out then Some out else None)"

definition norm_prefix :: "string \<Rightarrow> string" where
  "norm_prefix p =
     (let trimmed = trim_matches (CHR ''/'') p in
      if trimmed = [] then [] else trimmed @ ''/'')"

text \<open>The chrono functions behind the calendar date of a timestamp.\<close>

record 'dt chrono =
  from_timestamp_millis :: "int \<Rightarrow> 'dt option"
  UNIX_EPOCH :: 'dt
  format_ymd :: "'dt \<Rightarrow> string"

definition date_from_ts_ms :: "'dt chrono \<Rightarrow> int \<Rightarrow> string" where
  "date_from_ts_ms C ts_ms =
     format_ymd C (case from_timestamp_millis C ts_ms of None \<Rightarrow> UNIX_EPOCH C | Some dt \<Rightarrow> dt)"

record chunk_location =
  account :: string
  log_group :: string
  date :: string
  obj_name :: string

definition loc_tail :: "chunk_location \<Rightarrow> string" where
  "loc_tail l = ''account='' @ account l @ ''/loggroup='' @ sanitize_log_group (log_group l)
     @ ''/dt='' @ date l @ ''/'' @ obj_name l @ DATA_SUFFIX"

definition data_key :: "chunk_location \<Rightarrow> string \<Rightarrow> string" where
  "data_key l p = norm_prefix p @ DATA_SEG @ ''/'' @ loc_tail l"

text \<open>\<open>sfx\<close> is s4-codec's \<^verbatim>\<open>SIDECAR_SUFFIX\<close>.\<close>

definition index_key :: "string \<Rightarrow> chunk_location \<Rightarrow> string \<Rightarrow> string" where
  "index_key sfx l p = norm_prefix p @ INDEX_SEG @ ''/'' @ loc_tail l @ sfx"

definition ts_index_key :: "chunk_location \<Rightarrow> string \<Rightarrow> string" where
  "ts_index_key l p = norm_prefix p @ INDEX_SEG @ ''/'' @ loc_tail l @ TS_SIDECAR_SUFFIX"

definition parse_data_key :: "string \<Rightarrow> string \<Rightarrow> chunk_location option" where
  "parse_data_key p key =
     (case strip_prefix (norm_prefix p @ DATA_SEG @ ''/'') key of
        None \<Rightarrow> None
      | Some rest \<Rightarrow>
         (case split_on (CHR ''/'') rest of
            [a, g, d, file] \<Rightarrow>
              (case strip_prefix ''account='' a of None \<Rightarrow> None | Some acct \<Rightarrow>
              (case strip_prefix ''loggroup='' g of None \<Rightarrow> None | Some group_enc \<Rightarrow>
              (case strip_prefix ''dt='' d of None \<Rightarrow> None | Some dt \<Rightarrow>
              (case strip_suffix DATA_SUFFIX file of None \<Rightarrow> None | Some nm \<Rightarrow>
              (case unsanitize_log_group group_enc of None \<Rightarrow> None | Some lg \<Rightarrow>
                 Some \<lparr>account = acct, log_group = lg, date = dt, obj_name = nm\<rparr>)))))
          | _ \<Rightarrow> None))"

definition group_tail :: "string \<Rightarrow> string \<Rightarrow> string" where
  "group_tail acct g = ''account='' @ acct @ ''/loggroup='' @ sanitize_log_group g @ ''/''"

definition data_group_prefix :: "string \<Rightarrow> string \<Rightarrow> string \<Rightarrow> string" where
  "data_group_prefix p acct g = norm_prefix p @ DATA_SEG @ ''/'' @ group_tail acct g"

definition manifest_key :: "string \<Rightarrow> string \<Rightarrow> string \<Rightarrow> int \<Rightarrow> int \<Rightarrow> string" where
  "manifest_key p acct g window_start_ms window_end_ms =
     norm_prefix p @ MANIFEST_SEG @ ''/'' @ group_tail acct g
     @ ''window='' @ show_int window_start_ms @ ''-'' @ show_int window_end_ms @ ''.json''"

definition manifest_group_prefix :: "string \<Rightarrow> string \<Rightarrow> string \<Rightarrow> string" where
  "manifest_group_prefix p acct g = norm_prefix p @ MANIFEST_SEG @ ''/'' @ group_tail acct g"

section \<open>Percent encoding\<close>

lemma to_digit16_hex_char [simp]: "n < 16 \<Longrightarrow> to_digit16 (hex_char n) = Some n"
  by (auto simp: to_digit16_def hex_char_def Let_def)

lemma char_split16 [simp]: "char_of (of_char c div 16 * 16 + of_char c mod (16::nat)) = (c :: char)"
  by simp

lemma of_char_div16 [simp]: "of_char c div 16 < (16::nat)"
  using nat_of_char_less_256 [of c] by linarith

lemma unreserved_not_pct [simp]: "\<not> unreserved (CHR ''%'')" "\<not> unreserved (CHR ''/'')"
  "\<not> unreserved (CHR ''='')"
  by (simp_all add: unreserved_def)

lemma unsanitize_bytes_step:
  "unsanitize_bytes ((if unreserved c then [c] else pct_byte c) @ s)
     = map_option (\<lambda>out. c # out) (unsanitize_bytes s)"
  by (cases "unreserved c") (auto simp: pct_byte_def)

lemma unsanitize_bytes_sanitize: "unsanitize_bytes (sanitize_log_group g) = Some g"
proof (induction g)
  case (Cons c g)
  have "unsanitize_bytes (sanitize_log_group (c # g)) =
      unsanitize_bytes ((if unreserved c then [c] else pct_byte c) @ sanitize_log_group g)"
    by (simp add: sanitize_log_group_def)
  then show ?case by (simp only: unsanitize_bytes_step Cons.IH) simp
qed (simp add: sanitize_log_group_def)

lemma unsanitize_sanitize: "utf8_ok g \<Longrightarrow> unsanitize_log_group (sanitize_log_group g) = Some g"
  by (simp add: unsanitize_log_group_def unsanitize_bytes_sanitize)

interpretation group_code: codec sanitize_log_group unsanitize_log_group utf8_ok
  by unfold_locales (rule unsanitize_sanitize)

interpretation group_bytes: codec sanitize_log_group unsanitize_bytes "\<lambda>_. True"
  by unfold_locales (rule unsanitize_bytes_sanitize)

lemma hex_char_unreserved: "n < 16 \<Longrightarrow> unreserved (hex_char n)"
  by (auto simp: unreserved_def hex_char_def Let_def)

lemma sanitize_chars: "c \<in> set (sanitize_log_group g) \<Longrightarrow> unreserved c \<or> c = CHR ''%''"
  by (auto simp: sanitize_log_group_def pct_byte_def hex_char_unreserved split: if_splits)

lemma sanitize_no_slash [simp]: "CHR ''/'' \<notin> set (sanitize_log_group g)"
  using sanitize_chars unreserved_not_pct(2) by fastforce

section \<open>Prefixes\<close>

lemma dropWhile_idem [simp]: "dropWhile P (dropWhile P xs) = dropWhile P xs"
  by (induction xs) auto

lemma trim_matches_ends:
  assumes "trim_matches c s = x # xs"
  shows "x \<noteq> c \<and> last (x # xs) \<noteq> c"
proof -
  let ?d = "dropWhile (\<lambda>x. x = c) s"
  let ?e = "dropWhile (\<lambda>x. x = c) (rev ?d)"
  have eq: "rev ?e = x # xs" using assms by (simp add: trim_matches_def)
  then have ne: "?e \<noteq> []" by auto
  have "hd ?e \<noteq> c" using hd_dropWhile [OF ne] by blast
  moreover have "hd ?e = last (x # xs)" using eq by (metis hd_rev rev_rev_ident)
  moreover have "x \<noteq> c"
  proof -
    obtain zs where "rev ?d = zs @ ?e" by (metis takeWhile_dropWhile_id)
    then have d: "?d = rev ?e @ rev zs" by (metis rev_append rev_rev_ident)
    then have "?d \<noteq> []" "hd ?d = x" using eq by auto
    then show ?thesis using hd_dropWhile [of "\<lambda>x. x = c" s] by auto
  qed
  ultimately show ?thesis by simp
qed

lemma dropWhile_hd: "s \<noteq> [] \<Longrightarrow> hd s \<noteq> c \<Longrightarrow> dropWhile (\<lambda>x. x = c) s = s"
  by (cases s) auto

lemma trim_matches_id: "s \<noteq> [] \<Longrightarrow> hd s \<noteq> c \<Longrightarrow> last s \<noteq> c \<Longrightarrow> trim_matches c s = s"
  by (simp add: trim_matches_def dropWhile_hd hd_rev)

lemma trim_matches_id_slash:
  assumes "s \<noteq> []" and "hd s \<noteq> c" and "last s \<noteq> c"
  shows "trim_matches c (s @ [c]) = s"
  using assms by (simp add: trim_matches_def dropWhile_hd hd_append hd_rev)

lemma norm_prefix_idem [simp]: "norm_prefix (norm_prefix p) = norm_prefix p"
proof (cases "trim_matches (CHR ''/'') p")
  case Nil
  then have "norm_prefix p = []" by (simp add: norm_prefix_def)
  then show ?thesis by (simp add: norm_prefix_def trim_matches_def)
next
  case (Cons x xs)
  then have "trim_matches (CHR ''/'') ((x # xs) @ [CHR ''/'']) = x # xs"
    using trim_matches_ends [OF Cons] by (intro trim_matches_id_slash) auto
  moreover have "norm_prefix p = (x # xs) @ [CHR ''/'']" using Cons by (simp add: norm_prefix_def)
  ultimately show ?thesis by (simp add: norm_prefix_def)
qed

section \<open>Keys\<close>

text \<open>
  Locations whose key is not ambiguous: the account label, the date and the object name hold no
  slash and the group name is a Rust string (valid UTF-8).
\<close>

definition wf_location :: "chunk_location \<Rightarrow> bool" where
  "wf_location l \<longleftrightarrow> CHR ''/'' \<notin> set (account l) \<and> CHR ''/'' \<notin> set (date l)
     \<and> CHR ''/'' \<notin> set (obj_name l) \<and> utf8_ok (log_group l)"

lemma split_on_four:
  assumes "c \<notin> set w" and "c \<notin> set x" and "c \<notin> set y" and "c \<notin> set z"
  shows "split_on c (w @ c # x @ c # y @ c # z) = [w, x, y, z]"
  using assms by (simp add: split_on_append split_on_free)

lemma parse_data_key_data_key:
  assumes "wf_location l"
  shows "parse_data_key p (data_key l p) = Some l"
proof -
  let ?a = "''account='' @ account l" and ?g = "''loggroup='' @ sanitize_log_group (log_group l)"
  let ?d = "''dt='' @ date l" and ?f = "obj_name l @ DATA_SUFFIX"
  have free: "CHR ''/'' \<notin> set ?a" "CHR ''/'' \<notin> set ?g" "CHR ''/'' \<notin> set ?d" "CHR ''/'' \<notin> set ?f"
    using assms by (simp_all add: wf_location_def DATA_SUFFIX_def)
  have "loc_tail l = ?a @ CHR ''/'' # ?g @ CHR ''/'' # ?d @ CHR ''/'' # ?f"
    by (simp add: loc_tail_def)
  then have "split_on (CHR ''/'') (loc_tail l) = [?a, ?g, ?d, ?f]"
    using split_on_four [OF free] by (simp only:)
  moreover have "strip_prefix (norm_prefix p @ DATA_SEG @ ''/'') (data_key l p) = Some (loc_tail l)"
    using strip_prefix_append [of "norm_prefix p @ DATA_SEG @ ''/''" "loc_tail l"]
    by (simp add: data_key_def)
  ultimately show ?thesis
    using assms
    by (simp only: parse_data_key_def option.case list.case strip_prefix_append strip_suffix_append
        unsanitize_sanitize wf_location_def) simp
qed

interpretation data_keys: codec "\<lambda>l. data_key l p" "parse_data_key p" wf_location for p
  by unfold_locales (rule parse_data_key_data_key)

lemma strip_head_inject:
  assumes "c \<notin> set xs" and "c \<notin> set ys" and "xs @ c # s = ys @ c # t"
  shows "xs = ys \<and> s = t"
  using assms by (metis split_once_append option.inject prod.inject)

lemma group_tail_inject:
  assumes "CHR ''/'' \<notin> set a" and "CHR ''/'' \<notin> set b"
    and "group_tail a g @ s = group_tail b h @ t"
  shows "a = b \<and> g = h \<and> s = t"
proof -
  have "a @ CHR ''/'' # ''loggroup='' @ sanitize_log_group g @ CHR ''/'' # s
      = b @ CHR ''/'' # ''loggroup='' @ sanitize_log_group h @ CHR ''/'' # t"
    using assms(3) by (simp add: group_tail_def)
  then have a: "a = b"
    and "sanitize_log_group g @ CHR ''/'' # s = sanitize_log_group h @ CHR ''/'' # t"
    using strip_head_inject [OF assms(1,2)] by auto
  then have "sanitize_log_group g = sanitize_log_group h" "s = t"
    using strip_head_inject [OF sanitize_no_slash sanitize_no_slash] by auto
  with a show ?thesis by (simp add: group_bytes.enc_inject)
qed

lemma show_nat_dash_inject:
  assumes "show_nat m @ CHR ''-'' # s = show_nat n @ CHR ''-'' # t"
  shows "m = n \<and> s = t"
  using strip_head_inject [OF _ _ assms] by simp

lemma show_int_dash_inject:
  assumes eq: "show_int x @ CHR ''-'' # s = show_int y @ CHR ''-'' # t"
  shows "x = y \<and> s = t"
proof -
  have hd: "show_nat n @ u \<noteq> CHR ''-'' # v" for n u v
    using hd_show_nat_digit [of n] by (cases "show_nat n") auto
  consider "x < 0" "y < 0" | "\<not> x < 0" "\<not> y < 0" | "x < 0" "\<not> y < 0" | "\<not> x < 0" "y < 0"
    by linarith
  then show ?thesis
  proof cases
    case 1
    with eq show ?thesis using show_nat_dash_inject [of "nat (- x)" s "nat (- y)" t]
      by (simp add: show_int_def) linarith
  next
    case 2
    with eq show ?thesis using show_nat_dash_inject [of "nat x" s "nat y" t]
      by (simp add: show_int_def) linarith
  next
    case 3
    with eq show ?thesis using hd [of "nat y" "CHR ''-'' # t"] by (simp add: show_int_def) metis
  next
    case 4
    with eq show ?thesis using hd [of "nat x" "CHR ''-'' # s"] by (simp add: show_int_def)
  qed
qed

lemma drop_three: "u @ v @ w @ x = u @ v @ w @ y \<Longrightarrow> x = y"
  by simp

lemma manifest_key_inject:
  assumes "CHR ''/'' \<notin> set a" and "CHR ''/'' \<notin> set b"
    and "manifest_key p a g s e = manifest_key p b h s' e'"
  shows "a = b \<and> g = h \<and> s = s' \<and> e = e'"
proof -
  note tails = group_tail_inject [OF assms(1,2) drop_three [OF assms(3) [unfolded manifest_key_def]]]
  then have "show_int s @ CHR ''-'' # show_int e @ ''.json''
      = show_int s' @ CHR ''-'' # show_int e' @ ''.json''"
    by (metis append_Cons append_Nil same_append_eq)
  from show_int_dash_inject [OF this] tails show ?thesis
    by (metis append_same_eq show_int_inj)
qed

lemma data_key_in_group:
  "data_key l p = data_group_prefix p (account l) (log_group l) @ ''dt='' @ date l @ ''/''
     @ obj_name l @ DATA_SUFFIX"
  by (simp add: data_key_def data_group_prefix_def loc_tail_def group_tail_def)

lemma manifest_key_in_group:
  "manifest_key p a g s e = manifest_group_prefix p a g @ ''window='' @ show_int s @ ''-''
     @ show_int e @ ''.json''"
  by (simp add: manifest_key_def manifest_group_prefix_def)

lemma group_prefix_separates:
  assumes "CHR ''/'' \<notin> set a" and "CHR ''/'' \<notin> set b"
  shows "starts_with (pre @ group_tail a g) (pre @ group_tail b h @ t) \<longleftrightarrow> a = b \<and> g = h"
proof
  assume "starts_with (pre @ group_tail a g) (pre @ group_tail b h @ t)"
  then obtain u where "pre @ group_tail b h @ t = (pre @ group_tail a g) @ u"
    unfolding starts_with_def by (metis append_take_drop_id)
  then have "group_tail a g @ u = group_tail b h @ t" by simp
  then show "a = b \<and> g = h" using group_tail_inject [OF assms] by blast
next
  assume "a = b \<and> g = h"
  then show "starts_with (pre @ group_tail a g) (pre @ group_tail b h @ t)"
    using starts_with_append [of "pre @ group_tail b h" t] by simp
qed

section \<open>Properties\<close>

text \<open>
  The percent encoding of log group names is reversible for every valid UTF-8 name, and its
  output holds only unreserved characters and percent signs, so never a slash or an equals sign
  that could break the partition path.
\<close>

theorem sanitize_roundtrip:
  assumes "utf8_ok g"
  shows "unsanitize_log_group (sanitize_log_group g) = Some g
    \<and> (\<forall>c \<in> set (sanitize_log_group g). unreserved c \<or> c = CHR ''%'')"
  using assms unsanitize_sanitize sanitize_chars by blast

theorem sanitize_roundtrip_witness:
  "unsanitize_log_group (sanitize_log_group ''/aws/a=b c'') = Some ''/aws/a=b c''"
  using sanitize_roundtrip [of "''/aws/a=b c''"] by (simp add: byte_in_def)

text \<open>
  C17: data keys can be parsed back. For a location without slashes in the account, the date and
  the object name, parsing its data key under the same prefix returns the location; two such
  locations with the same key are equal, under prefixes that differ only in outer slashes too.
\<close>

theorem data_key_roundtrip:
  assumes "wf_location l"
  shows "parse_data_key p (data_key l p) = Some l \<and> parse_data_key (norm_prefix p) (data_key l p) = Some l
    \<and> (wf_location l' \<longrightarrow> data_key l p = data_key l' p \<longrightarrow> l = l')"
  using assms parse_data_key_data_key [OF assms, of p] parse_data_key_data_key [OF assms, of "norm_prefix p"]
    data_keys.enc_inject [of l l' p]
  by (auto simp: data_key_def)

theorem data_key_roundtrip_witness:
  "parse_data_key ''//logs/'' (data_key \<lparr>account = ''1'', log_group = ''/g'', date = ''2024-01-01'',
      obj_name = ''0-000000''\<rparr> ''//logs/'')
    = Some \<lparr>account = ''1'', log_group = ''/g'', date = ''2024-01-01'', obj_name = ''0-000000''\<rparr>"
  using data_key_roundtrip [of "\<lparr>account = ''1'', log_group = ''/g'', date = ''2024-01-01'',
      obj_name = ''0-000000''\<rparr>" "''//logs/''"]
  by (simp add: wf_location_def byte_in_def)

text \<open>
  Manifests of different groups or windows never share a key, and the listing prefixes of one
  group match exactly the manifests and the data objects of that group.
\<close>

theorem manifest_keys_separate:
  assumes "CHR ''/'' \<notin> set a" and "CHR ''/'' \<notin> set b"
  shows "(manifest_key p a g s e = manifest_key p b h s' e' \<longleftrightarrow> a = b \<and> g = h \<and> s = s' \<and> e = e')
    \<and> (starts_with (manifest_group_prefix p a g) (manifest_key p b h s e) \<longleftrightarrow> a = b \<and> g = h)
    \<and> (account l = b \<longrightarrow>
        (starts_with (data_group_prefix p a g) (data_key l p) \<longleftrightarrow> a = b \<and> g = log_group l))"
proof (intro conjI impI)
  show "manifest_key p a g s e = manifest_key p b h s' e' \<longleftrightarrow> a = b \<and> g = h \<and> s = s' \<and> e = e'"
    using manifest_key_inject [OF assms] by blast
  show "starts_with (manifest_group_prefix p a g) (manifest_key p b h s e) \<longleftrightarrow> a = b \<and> g = h"
    using group_prefix_separates [OF assms, of "norm_prefix p @ MANIFEST_SEG @ ''/''"]
    by (simp add: manifest_key_def manifest_group_prefix_def)
  show "starts_with (data_group_prefix p a g) (data_key l p) \<longleftrightarrow> a = b \<and> g = log_group l"
    if "account l = b"
    using group_prefix_separates [OF assms, of "norm_prefix p @ DATA_SEG @ ''/''"] that
    by (simp add: data_key_in_group data_group_prefix_def)
qed

theorem manifest_keys_separate_witness:
  "manifest_key ''x'' ''1'' ''a'' (- 5) 3 \<noteq> manifest_key ''x'' ''1'' ''a'' 5 (- 3)"
  using manifest_keys_separate [of "''1''" "''1''" "''x''" "''a''" "- 5" 3 "''a''" 5 "- 3"] by simp

end
