(* ===== verification/S4_Sink.thy ===== *)
theory S4_Sink
  imports S4_Read S4_Layout "HOL-Library.List_Lexorder" "HOL-Library.Char_ord"
begin

text \<open>
  Where chunks go (\<^verbatim>\<open>s4logs-core/src/sink.rs\<close>, \<^verbatim>\<open>s4logs-core/src/store.rs\<close>): the \<^verbatim>\<open>ChunkSink\<close> trait as a
  locale, its in-memory and its S3 implementation, and the read and list helpers of the S3 store.
  The S3 client is an argument: a record of functions over the state \<open>'s\<close> of the bucket.
\<close>

section \<open>s4-codec\<close>

record s4_codec =
  encode_index :: "frame_index \<Rightarrow> bytes"
  decode_index :: "bytes \<Rightarrow> string + frame_index"
  SIDECAR_SUFFIX :: string
  compressed_end :: "frame_index_entry \<Rightarrow> nat"

section \<open>Data\<close>

datatype store_error =
    Aws string string string
  | NotFound string
  | StoreIndex string
  | StoreTsIndex ts_index_error

datatype sink_error = Storage string | Store store_error

record put_receipt =
  r_data_key :: string
  r_index_key :: string
  r_ts_index_key :: string
  r_etag :: "string option"
  r_crc32c :: nat
  r_body_len :: nat
  r_storage_class :: "string option"

definition encode_sidecars :: "s4_codec \<Rightarrow> encoded_chunk \<Rightarrow> string option \<Rightarrow> bytes \<times> bytes" where
  "encode_sidecars X chunk etag =
     (let idx = (chunk_frame_index chunk)\<lparr>source_etag := etag,
                  source_compressed_size := Some (length (chunk_body chunk))\<rparr>
      in (encode_index X idx, encode_ts_index (chunk_ts_index chunk)))"

section \<open>MemorySink\<close>

text \<open>The lock is held for the whole of one operation, so each is one step on the map.\<close>

record memory_sink =
  ms_prefix :: string
  ms_objects :: "string \<rightharpoonup> bytes"

definition ms_new :: "string \<Rightarrow> memory_sink" where
  "ms_new p = \<lparr>ms_prefix = norm_prefix p, ms_objects = Map.empty\<rparr>"

definition ms_get :: "memory_sink \<Rightarrow> string \<Rightarrow> bytes option" where
  "ms_get m key = ms_objects m key"

definition ms_keys :: "memory_sink \<Rightarrow> string list" where
  "ms_keys m = sorted_list_of_set (dom (ms_objects m))"

definition ms_insert :: "string \<Rightarrow> bytes \<Rightarrow> memory_sink \<Rightarrow> memory_sink" where
  "ms_insert key v m = m\<lparr>ms_objects := (ms_objects m)(key \<mapsto> v)\<rparr>"

fun show_hex :: "nat \<Rightarrow> string" where
  "show_hex n =
     (let h = (\<lambda>d. char_of (if d < 10 then 48 + d else 87 + d)) in
      if n < 16 then [h n] else show_hex (n div 16) @ [h (n mod 16)])"

declare show_hex.simps [simp del]

definition ms_put_chunk ::
    "s4_codec \<Rightarrow> chunk_location \<Rightarrow> encoded_chunk \<Rightarrow> memory_sink
     \<Rightarrow> memory_sink \<times> (sink_error + put_receipt)" where
  "ms_put_chunk X loc chunk m =
     (let dk = data_key loc (ms_prefix m);
          ik = index_key (SIDECAR_SUFFIX X) loc (ms_prefix m);
          tk = ts_index_key loc (ms_prefix m);
          etag = [CHR 0x22] @ ''mem-'' @ pad0 8 (show_hex (chunk_crc32c chunk)) @ [CHR 0x22];
          (idx_bytes, ts_bytes) = encode_sidecars X chunk (Some etag)
      in (ms_insert tk ts_bytes (ms_insert ik idx_bytes (ms_insert dk (chunk_body chunk) m)),
          Inr \<lparr>r_data_key = dk, r_index_key = ik, r_ts_index_key = tk, r_etag = Some etag,
               r_crc32c = chunk_crc32c chunk, r_body_len = length (chunk_body chunk),
               r_storage_class = None\<rparr>))"

section \<open>ObjectStore\<close>

text \<open>
  The S3 operations the store calls, with the request fields it sets: bucket, key, body and storage
  class for PutObject; bucket, key and an inclusive byte range for GetObject (the response body is
  collected separately and can fail on its own); bucket, prefix and continuation token for
  ListObjectsV2 (keys of the page, next token); bucket and key for HeadObject.
\<close>

datatype s3_get_error = NoSuchKey | GetOther string
datatype s3_head_error = HeadNotFound | HeadOther string

record 's s3_client =
  s3_put_object :: "string \<Rightarrow> string \<Rightarrow> bytes \<Rightarrow> string option \<Rightarrow> 's \<Rightarrow> 's \<times> (string + string option)"
  s3_get_object :: "string \<Rightarrow> string \<Rightarrow> (nat \<times> nat) option \<Rightarrow> 's \<Rightarrow> s3_get_error + (string + bytes)"
  s3_list_objects :: "string \<Rightarrow> string \<Rightarrow> string option \<Rightarrow> 's \<Rightarrow> string + (string option list \<times> string option)"
  s3_head_object :: "string \<Rightarrow> string \<Rightarrow> 's \<Rightarrow> s3_head_error + unit"

record object_store =
  os_bucket :: string
  os_prefix :: string
  os_storage_class :: "string option"

definition os_new :: "string \<Rightarrow> string \<Rightarrow> object_store" where
  "os_new bkt p = \<lparr>os_bucket = bkt, os_prefix = norm_prefix p, os_storage_class = None\<rparr>"

definition with_storage_class :: "string option \<Rightarrow> object_store \<Rightarrow> object_store" where
  "with_storage_class sc st = st\<lparr>os_storage_class := sc\<rparr>"

definition put_object_inner ::
    "'s s3_client \<Rightarrow> object_store \<Rightarrow> string \<Rightarrow> bytes \<Rightarrow> string option \<Rightarrow> 's
     \<Rightarrow> 's \<times> (store_error + string option)" where
  "put_object_inner cl st key body sc s =
     (case s3_put_object cl (os_bucket st) key body sc s of
        (s', Inl e) \<Rightarrow> (s', Inl (Aws ''PutObject'' key e))
      | (s', Inr etag) \<Rightarrow> (s', Inr etag))"

definition put_bytes ::
    "'s s3_client \<Rightarrow> object_store \<Rightarrow> string \<Rightarrow> bytes \<Rightarrow> 's \<Rightarrow> 's \<times> (store_error + string option)" where
  "put_bytes cl st key body s = put_object_inner cl st key body None s"

definition put_data_bytes ::
    "'s s3_client \<Rightarrow> object_store \<Rightarrow> string \<Rightarrow> bytes \<Rightarrow> 's \<Rightarrow> 's \<times> (store_error + string option)" where
  "put_data_bytes cl st key body s = put_object_inner cl st key body (os_storage_class st) s"

definition get_bytes :: "'s s3_client \<Rightarrow> object_store \<Rightarrow> string \<Rightarrow> 's \<Rightarrow> store_error + bytes" where
  "get_bytes cl st key s =
     (case s3_get_object cl (os_bucket st) key None s of
        Inl NoSuchKey \<Rightarrow> Inl (NotFound key)
      | Inl (GetOther e) \<Rightarrow> Inl (Aws ''GetObject'' key e)
      | Inr (Inl e) \<Rightarrow> Inl (Aws ''GetObject(body)'' key e)
      | Inr (Inr data) \<Rightarrow> Inr data)"

definition get_range ::
    "'s s3_client \<Rightarrow> object_store \<Rightarrow> string \<Rightarrow> nat \<Rightarrow> nat \<Rightarrow> 's \<Rightarrow> store_error + bytes" where
  "get_range cl st key start end_exclusive s =
     (if start \<ge> end_exclusive then Inr []
      else case s3_get_object cl (os_bucket st) key (Some (start, end_exclusive - 1)) s of
        Inl NoSuchKey \<Rightarrow> Inl (NotFound key)
      | Inl (GetOther e) \<Rightarrow> Inl (Aws ''GetObject(range)'' key e)
      | Inr (Inl e) \<Rightarrow> Inl (Aws ''GetObject(range body)'' key e)
      | Inr (Inr data) \<Rightarrow> Inr data)"

text \<open>The listing loop follows the token the service returns; \<^const>\<open>None\<close> is a listing that never ends.\<close>

partial_function (option) list_keys_loop ::
    "'s s3_client \<Rightarrow> object_store \<Rightarrow> string \<Rightarrow> 's \<Rightarrow> string list \<Rightarrow> string option
     \<Rightarrow> (store_error + string list) option" where
  "list_keys_loop cl st key_prefix s keys token =
     (case s3_list_objects cl (os_bucket st) key_prefix token s of
        Inl e \<Rightarrow> Some (Inl (Aws ''ListObjectsV2'' key_prefix e))
      | Inr (contents, next) \<Rightarrow>
          (case next of
             None \<Rightarrow> Some (Inr (keys @ List.map_filter id contents))
           | Some t \<Rightarrow> list_keys_loop cl st key_prefix s (keys @ List.map_filter id contents) (Some t)))"

definition list_keys ::
    "'s s3_client \<Rightarrow> object_store \<Rightarrow> string \<Rightarrow> 's \<Rightarrow> (store_error + string list) option" where
  "list_keys cl st key_prefix s = list_keys_loop cl st key_prefix s [] None"

definition os_exists :: "'s s3_client \<Rightarrow> object_store \<Rightarrow> string \<Rightarrow> 's \<Rightarrow> store_error + bool" where
  "os_exists cl st key s =
     (case s3_head_object cl (os_bucket st) key s of
        Inr _ \<Rightarrow> Inr True
      | Inl HeadNotFound \<Rightarrow> Inr False
      | Inl (HeadOther e) \<Rightarrow> Inl (Aws ''HeadObject'' key e))"

definition load_indexes ::
    "s4_codec \<Rightarrow> 's s3_client \<Rightarrow> object_store \<Rightarrow> chunk_location \<Rightarrow> 's
     \<Rightarrow> store_error + (frame_index \<times> ts_index)" where
  "load_indexes X cl st loc s =
     (case get_bytes cl st (index_key (SIDECAR_SUFFIX X) loc (os_prefix st)) s of
        Inl e \<Rightarrow> Inl e
      | Inr ib \<Rightarrow>
         (case decode_index X ib of
            Inl e \<Rightarrow> Inl (StoreIndex e)
          | Inr idx \<Rightarrow>
             (case get_bytes cl st (ts_index_key loc (os_prefix st)) s of
                Inl e \<Rightarrow> Inl e
              | Inr tb \<Rightarrow>
                 (case decode_ts_index tb of
                    Inl e \<Rightarrow> Inl (StoreTsIndex e)
                  | Inr ts \<Rightarrow> Inr (idx, ts)))))"

definition list_chunks ::
    "'s s3_client \<Rightarrow> object_store \<Rightarrow> string \<Rightarrow> string \<Rightarrow> 's
     \<Rightarrow> (store_error + chunk_location list) option" where
  "list_chunks cl st acct lg s =
     map_option (\<lambda>r. case r of Inl e \<Rightarrow> Inl e
                   | Inr keys \<Rightarrow> Inr (List.map_filter (parse_data_key (os_prefix st)) keys))
       (list_keys cl st (data_group_prefix (os_prefix st) acct lg) s)"

definition os_put_chunk ::
    "s4_codec \<Rightarrow> 's s3_client \<Rightarrow> object_store \<Rightarrow> chunk_location \<Rightarrow> encoded_chunk \<Rightarrow> 's
     \<Rightarrow> 's \<times> (sink_error + put_receipt)" where
  "os_put_chunk X cl st loc chunk s =
     (let dk = data_key loc (os_prefix st);
          ik = index_key (SIDECAR_SUFFIX X) loc (os_prefix st);
          tk = ts_index_key loc (os_prefix st) in
      case put_data_bytes cl st dk (chunk_body chunk) s of
        (s1, Inl e) \<Rightarrow> (s1, Inl (Store e))
      | (s1, Inr etag) \<Rightarrow>
         (let (idx_bytes, ts_bytes) = encode_sidecars X chunk etag in
          case put_bytes cl st ik idx_bytes s1 of
            (s2, Inl e) \<Rightarrow> (s2, Inl (Store e))
          | (s2, Inr _) \<Rightarrow>
             (case put_bytes cl st tk ts_bytes s2 of
                (s3, Inl e) \<Rightarrow> (s3, Inl (Store e))
              | (s3, Inr _) \<Rightarrow>
                 (s3, Inr \<lparr>r_data_key = dk, r_index_key = ik, r_ts_index_key = tk, r_etag = etag,
                           r_crc32c = chunk_crc32c chunk, r_body_len = length (chunk_body chunk),
                           r_storage_class = os_storage_class st\<rparr>))))"

section \<open>The three keys of a chunk\<close>

definition chunk_keys :: "s4_codec \<Rightarrow> chunk_location \<Rightarrow> string \<Rightarrow> string set" where
  "chunk_keys X l p = {data_key l p, index_key (SIDECAR_SUFFIX X) l p, ts_index_key l p}"

lemma seg_differ:
  "data_key l p \<noteq> index_key sfx l' p" "data_key l p \<noteq> ts_index_key l' p"
  "manifest_key p a g s e \<noteq> data_key l p" "manifest_key p a g s e \<noteq> index_key sfx l p"
  "manifest_key p a g s e \<noteq> ts_index_key l p"
  by (simp_all add: data_key_def index_key_def ts_index_key_def manifest_key_def DATA_SEG_def
      INDEX_SEG_def MANIFEST_SEG_def)

lemma sidecar_keys_differ [simp]:
  "index_key sfx l p = ts_index_key l p \<longleftrightarrow> sfx = TS_SIDECAR_SUFFIX"
  by (simp add: index_key_def ts_index_key_def)

lemma manifest_key_not_chunk: "manifest_key p a g s e \<notin> chunk_keys X l p"
  by (simp add: chunk_keys_def seg_differ)

lemma data_key_in_chunk_keys:
  assumes "wf_location l" and "wf_location l'" and "data_key l p \<in> chunk_keys X l' p"
  shows "l = l'"
  using assms seg_differ data_keys.enc_inject [of l l' p] by (auto simp: chunk_keys_def)

section \<open>The ChunkSink contract\<close>

text \<open>
  \<open>objs\<close> is the content of the store under each key, \<open>inv\<close> what the sink keeps of its own state. A
  successful put stores the data object and both sidecars, stamped with the etag of the receipt; no
  put touches any other key, whatever its outcome.
\<close>

locale chunk_sink =
  fixes X :: s4_codec
    and put :: "chunk_location \<Rightarrow> encoded_chunk \<Rightarrow> 's \<Rightarrow> 's \<times> (sink_error + put_receipt)"
    and objs :: "'s \<Rightarrow> string \<rightharpoonup> bytes" and pre :: string and inv :: "'s \<Rightarrow> bool"
  assumes put_inv: "inv s \<Longrightarrow> put loc ch s = (s', res) \<Longrightarrow> inv s'"
    and put_stored: "inv s \<Longrightarrow> put loc ch s = (s', Inr r) \<Longrightarrow>
       objs s' (data_key loc pre) = Some (chunk_body ch)
       \<and> (SIDECAR_SUFFIX X \<noteq> TS_SIDECAR_SUFFIX \<longrightarrow>
          objs s' (index_key (SIDECAR_SUFFIX X) loc pre) = Some (fst (encode_sidecars X ch (r_etag r))))
       \<and> objs s' (ts_index_key loc pre) = Some (snd (encode_sidecars X ch (r_etag r)))"
    and put_frame: "inv s \<Longrightarrow> put loc ch s = (s', res) \<Longrightarrow> k \<notin> chunk_keys X loc pre \<Longrightarrow>
       objs s' k = objs s k"
    and put_receipt: "inv s \<Longrightarrow> put loc ch s = (s', Inr r) \<Longrightarrow>
       r_data_key r = data_key loc pre \<and> r_crc32c r = chunk_crc32c ch
       \<and> r_body_len r = length (chunk_body ch)"
begin

text \<open>A stored data object survives every later put at another location.\<close>

lemma put_keeps_data:
  assumes "inv s" and "put loc ch s = (s', res)" and "wf_location l" "wf_location loc" "l \<noteq> loc"
  shows "objs s' (data_key l pre) = objs s (data_key l pre)"
  using assms put_frame data_key_in_chunk_keys by blast

lemma put_keeps_manifest:
  assumes "inv s" and "put loc ch s = (s', res)"
  shows "objs s' (manifest_key pre a g b e) = objs s (manifest_key pre a g b e)"
  using assms put_frame manifest_key_not_chunk by blast

fun put_many :: "(chunk_location \<times> encoded_chunk) list \<Rightarrow> 's \<Rightarrow> 's \<times> bool" where
  "put_many [] s = (s, True)"
| "put_many ((l, c) # ps) s =
     (case put l c s of (s', Inl _) \<Rightarrow> (s', False) | (s', Inr _) \<Rightarrow> put_many ps s')"

lemma put_many_keeps:
  assumes "inv s" and "put_many ps s = (s', ok)" and "wf_location l"
    and "\<forall>(k, _) \<in> set ps. wf_location k \<and> k \<noteq> l"
  shows "objs s' (data_key l pre) = objs s (data_key l pre)"
  using assms
proof (induction ps arbitrary: s)
  case (Cons p ps)
  obtain k c where p: "p = (k, c)" by (cases p)
  obtain s1 r where s1: "put k c s = (s1, r)" by (cases "put k c s")
  have k: "wf_location k" "k \<noteq> l" using Cons.prems(4) p by auto
  have keep: "objs s1 (data_key l pre) = objs s (data_key l pre)"
    using put_keeps_data [OF Cons.prems(1) s1 Cons.prems(3)] k by metis
  have "inv s1" using put_inv [OF Cons.prems(1) s1] .
  show ?case
  proof (cases r)
    case Inl
    then show ?thesis using Cons.prems(2) p s1 keep by simp
  next
    case Inr
    then have "put_many ps s1 = (s', ok)" using Cons.prems(2) p s1 by simp
    from Cons.IH [OF \<open>inv s1\<close> this Cons.prems(3)] Cons.prems(4) keep show ?thesis by simp
  qed
qed simp

lemma put_many_stores:
  assumes "inv s" and "put_many ps s = (s', True)" and "distinct (map fst ps)"
    and "\<forall>(k, _) \<in> set ps. wf_location k" and "(l, c) \<in> set ps"
  shows "objs s' (data_key l pre) = Some (chunk_body c)"
  using assms
proof (induction ps arbitrary: s)
  case (Cons p ps)
  obtain k d where p: "p = (k, d)" by (cases p)
  from Cons.prems(2) obtain s1 r where s1: "put k d s = (s1, Inr r)"
    and rest: "put_many ps s1 = (s', True)"
    by (auto simp: p split: prod.splits sum.splits)
  note inv1 = put_inv [OF Cons.prems(1) s1]
  show ?case
  proof (cases "(l, c) = p")
    case True
    then have "\<forall>(k, _) \<in> set ps. wf_location k \<and> k \<noteq> l" "wf_location l"
      using Cons.prems(3,4) p by (auto simp: rev_image_eqI)
    from put_many_keeps [OF inv1 rest this(2,1)] put_stored [OF Cons.prems(1) s1] True p
    show ?thesis by simp
  next
    case False
    then show ?thesis using Cons.IH [OF inv1 rest] Cons.prems by simp
  qed
qed simp

end

interpretation mem: chunk_sink X "ms_put_chunk X" ms_objects pre "\<lambda>m. ms_prefix m = pre" for X pre
  by unfold_locales
    (auto simp: ms_put_chunk_def ms_insert_def Let_def encode_sidecars_def chunk_keys_def seg_differ
      seg_differ(1,2)[symmetric] sidecar_keys_differ[symmetric])

section \<open>S3\<close>

text \<open>
  What S3 documents: a PUT changes no other key, is atomic (the key holds the body or what it held
  before) and, when it is acknowledged, the key holds the body (strong read-after-write consistency); a GET of a stored key returns the body, and a range
  that starts inside it the bytes of the range.
\<close>

definition put_law :: "'s s3_client \<Rightarrow> string \<Rightarrow> ('s \<Rightarrow> string \<rightharpoonup> bytes) \<Rightarrow> bool" where
  "put_law cl bkt objs \<longleftrightarrow>
     (\<forall>key body sc s. let (s', res) = s3_put_object cl bkt key body sc s in
        (\<forall>k. k \<noteq> key \<longrightarrow> objs s' k = objs s k) \<and> (is_ok res \<longrightarrow> objs s' key = Some body)
        \<and> (objs s' key = Some body \<or> objs s' key = objs s key))"

definition get_law :: "'s s3_client \<Rightarrow> string \<Rightarrow> ('s \<Rightarrow> string \<rightharpoonup> bytes) \<Rightarrow> bool" where
  "get_law cl bkt objs \<longleftrightarrow>
     (\<forall>key body s. objs s key = Some body \<longrightarrow>
        s3_get_object cl bkt key None s = Inr (Inr body)
        \<and> (\<forall>a b. a \<le> b \<longrightarrow> a < length body \<longrightarrow>
             s3_get_object cl bkt key (Some (a, b)) s = Inr (Inr (take (b + 1 - a) (drop a body)))))"

lemma put_object_inner_frame:
  assumes "put_law cl (os_bucket st) objs" and "put_object_inner cl st key body sc s = (s', res)"
  shows "k \<noteq> key \<Longrightarrow> objs s' k = objs s k" "is_ok res \<Longrightarrow> objs s' key = Some body"
    "objs s' key = Some body \<or> objs s' key = objs s key"
  using assms(2) assms(1) [unfolded put_law_def, rule_format, of key body sc s]
  by (auto simp: put_object_inner_def split: prod.splits sum.splits)

lemmas put_ops = put_data_bytes_def put_bytes_def

text \<open>The possible runs of \<open>os_put_chunk\<close>: it stops after the first failing PUT.\<close>

lemma os_put_chunk_cases:
  assumes "os_put_chunk X cl st loc ch s = (s', res)"
  obtains (data) e where "put_data_bytes cl st (data_key loc (os_prefix st)) (chunk_body ch) s = (s', Inl e)"
      "res = Inl (Store e)"
  | (index) s1 etag e where
      "put_data_bytes cl st (data_key loc (os_prefix st)) (chunk_body ch) s = (s1, Inr etag)"
      "put_bytes cl st (index_key (SIDECAR_SUFFIX X) loc (os_prefix st))
         (fst (encode_sidecars X ch etag)) s1 = (s', Inl e)" "res = Inl (Store e)"
  | (ts) s1 s2 etag et r where
      "put_data_bytes cl st (data_key loc (os_prefix st)) (chunk_body ch) s = (s1, Inr etag)"
      "put_bytes cl st (index_key (SIDECAR_SUFFIX X) loc (os_prefix st))
         (fst (encode_sidecars X ch etag)) s1 = (s2, Inr et)"
      "put_bytes cl st (ts_index_key loc (os_prefix st)) (snd (encode_sidecars X ch etag)) s2 = (s', r)"
      "res = (case r of Inl e \<Rightarrow> Inl (Store e) | Inr _ \<Rightarrow>
         Inr \<lparr>r_data_key = data_key loc (os_prefix st),
              r_index_key = index_key (SIDECAR_SUFFIX X) loc (os_prefix st),
              r_ts_index_key = ts_index_key loc (os_prefix st), r_etag = etag,
              r_crc32c = chunk_crc32c ch, r_body_len = length (chunk_body ch),
              r_storage_class = os_storage_class st\<rparr>)"
  using assms unfolding os_put_chunk_def Let_def
  by (fastforce split: prod.splits sum.splits)

lemma os_put_chunk_frame:
  assumes l: "put_law cl (os_bucket st) objs" and "os_put_chunk X cl st loc ch s = (s', res)"
    and k: "k \<notin> chunk_keys X loc (os_prefix st)"
  shows "objs s' k = objs s k"
  using assms(2)
proof (cases rule: os_put_chunk_cases)
  case data
  then show ?thesis using put_object_inner_frame(1) [OF l] k by (auto simp: put_ops chunk_keys_def)
next
  case (index s1)
  then have "objs s1 k = objs s k" "objs s' k = objs s1 k"
    using put_object_inner_frame(1) [OF l] k by (auto simp: put_ops chunk_keys_def)
  then show ?thesis by simp
next
  case (ts s1 s2)
  then have "objs s1 k = objs s k" "objs s2 k = objs s1 k" "objs s' k = objs s2 k"
    using put_object_inner_frame(1) [OF l] k by (auto simp: put_ops chunk_keys_def)
  then show ?thesis by simp
qed

lemma os_put_chunk_data:
  assumes l: "put_law cl (os_bucket st) objs" and "os_put_chunk X cl st loc ch s = (s', res)"
    and "is_ok res \<or> objs s' (index_key (SIDECAR_SUFFIX X) loc (os_prefix st))
           \<noteq> objs s (index_key (SIDECAR_SUFFIX X) loc (os_prefix st))
         \<or> objs s' (ts_index_key loc (os_prefix st)) \<noteq> objs s (ts_index_key loc (os_prefix st))"
  shows "objs s' (data_key loc (os_prefix st)) = Some (chunk_body ch)"
  using assms(2)
proof (cases rule: os_put_chunk_cases)
  case data
  then show ?thesis
    using assms(3) put_object_inner_frame(1) [OF l data(1) [unfolded put_ops]] seg_differ
    by (metis is_ok.simps(1))
next
  case (index s1)
  then show ?thesis
    using put_object_inner_frame [OF l index(1) [unfolded put_ops]]
      put_object_inner_frame(1) [OF l index(2) [unfolded put_ops]] seg_differ by simp
next
  case (ts s1 s2)
  then show ?thesis
    using put_object_inner_frame [OF l ts(1) [unfolded put_ops]]
      put_object_inner_frame(1) [OF l ts(2) [unfolded put_ops]]
      put_object_inner_frame(1) [OF l ts(3) [unfolded put_ops]] seg_differ by simp
qed

lemma os_put_chunk_Inr:
  assumes l: "put_law cl (os_bucket st) objs" and "os_put_chunk X cl st loc ch s = (s', Inr r)"
  shows "(SIDECAR_SUFFIX X \<noteq> TS_SIDECAR_SUFFIX \<longrightarrow>
      objs s' (index_key (SIDECAR_SUFFIX X) loc (os_prefix st))
        = Some (fst (encode_sidecars X ch (r_etag r))))
    \<and> objs s' (ts_index_key loc (os_prefix st)) = Some (snd (encode_sidecars X ch (r_etag r)))
    \<and> r_data_key r = data_key loc (os_prefix st) \<and> r_crc32c r = chunk_crc32c ch
    \<and> r_body_len r = length (chunk_body ch)"
  using assms(2)
proof (cases rule: os_put_chunk_cases)
  case (ts s1 s2 etag et q)
  then have "is_ok q" by (cases q) auto
  then show ?thesis
    using put_object_inner_frame(2) [OF l ts(2) [unfolded put_ops]]
      put_object_inner_frame [OF l ts(3) [unfolded put_ops]] ts(4)
    by (auto split: sum.splits)
qed auto

text \<open>The S3 store meets the same contract, for any client with the documented PUT behaviour.\<close>

lemma object_store_sink:
  assumes "put_law cl (os_bucket st) objs"
  shows "chunk_sink X (os_put_chunk X cl st) objs (os_prefix st) (\<lambda>_. True)"
  using os_put_chunk_Inr [OF assms] os_put_chunk_data [OF assms] os_put_chunk_frame [OF assms]
  by unfold_locales auto

text \<open>A finite listing: the pages the service returns, each with the token of the next.\<close>

fun list_pages ::
    "(string option \<Rightarrow> string + (string option list \<times> string option)) \<Rightarrow> string option
     \<Rightarrow> string option list list \<Rightarrow> bool" where
  "list_pages f tok [] = False"
| "list_pages f tok [c] = (f tok = Inr (c, None))"
| "list_pages f tok (c # cs) =
     (case f tok of Inr (c', Some t) \<Rightarrow> c' = c \<and> list_pages f (Some t) cs | _ \<Rightarrow> False)"

lemma list_keys_loop_pages:
  assumes "list_pages (\<lambda>t. s3_list_objects cl (os_bucket st) key_prefix t s) tok pages"
  shows "list_keys_loop cl st key_prefix s keys tok
    = Some (Inr (keys @ List.map_filter id (concat pages)))"
  using assms
proof (induction "\<lambda>t. s3_list_objects cl (os_bucket st) key_prefix t s" tok pages
    arbitrary: keys rule: list_pages.induct)
  case (2 tok c)
  then show ?case by (subst list_keys_loop.simps) simp
next
  case (3 tok c c2 cs)
  then obtain t where "s3_list_objects cl (os_bucket st) key_prefix tok s = Inr (c, Some t)"
    "list_pages (\<lambda>t. s3_list_objects cl (os_bucket st) key_prefix t s) (Some t) (c2 # cs)"
    by (auto split: sum.splits prod.splits option.splits)
  with 3(1) show ?case
    by (subst list_keys_loop.simps) (simp add: map_filter_def)
qed simp

section \<open>Reading back what was put\<close>

lemma get_bytes_stored:
  "get_law cl (os_bucket st) objs \<Longrightarrow> objs s key = Some b \<Longrightarrow> get_bytes cl st key s = Inr b"
  by (simp add: get_law_def get_bytes_def)

lemma get_range_stored:
  assumes "get_law cl (os_bucket st) objs" and "objs s key = Some b" and "hi \<le> length b"
  shows "get_range cl st key lo hi s = Inr (take (hi - lo) (drop lo b))"
  using assms by (auto simp: get_law_def get_range_def Suc_diff_Suc not_le)

definition stamp :: "encoded_chunk \<Rightarrow> string option \<Rightarrow> frame_index" where
  "stamp ch etag = (chunk_frame_index ch)\<lparr>source_etag := etag,
     source_compressed_size := Some (length (chunk_body ch))\<rparr>"

lemma load_indexes_stored:
  assumes g: "get_law cl (os_bucket st) objs"
    and "objs s (index_key (SIDECAR_SUFFIX X) loc (os_prefix st)) = Some (fst (encode_sidecars X ch etag))"
    and "objs s (ts_index_key loc (os_prefix st)) = Some (snd (encode_sidecars X ch etag))"
    and "decode_index X (encode_index X (stamp ch etag)) = Inr (stamp ch etag)"
    and "wf_ts_index (chunk_ts_index ch)"
  shows "load_indexes X cl st loc s = Inr (stamp ch etag, chunk_ts_index ch)"
  using get_bytes_stored [OF g assms(2)] get_bytes_stored [OF g assms(3)] assms(4,5)
  by (simp add: load_indexes_def encode_sidecars_def Let_def decode_encode_ts_index flip: stamp_def)

lemma tile_bounds:
  assumes "fe \<in> set (tile off pos ps)"
  shows "compressed_offset fe + compressed_size fe \<le> pos + length (concat (map snd ps))"
  using assms by (induction ps arbitrary: off pos) fastforce+

lemma span_bounds:
  assumes "cend_ok cend" and h: "chunk_holds E level ch fs zs"
    and "frames_overlapping cend (chunk_frame_index ch) ti rg = Inr spans" and "sp \<in> set spans"
  shows "byte_end_exclusive sp \<le> length (chunk_body ch)"
proof -
  have len: "length fs = length zs" using h by (auto simp: chunk_holds_def dest: list_all2_lengthD)
  from assms(3,4) obtain fe where "fe \<in> set (fi_entries (chunk_frame_index ch))"
    and "byte_end_exclusive sp = compressed_offset fe + compressed_size fe"
    using assms(1)
    by (force simp: frames_overlapping_def cend_ok_def in_set_enumerate_eq set_zip split: if_splits)
  with tile_bounds [of fe 0 0 "pairs_of E fs zs"] h len show ?thesis
    by (simp add: chunk_holds_def map_pairs_of)
qed

lemma chunk_holds_frame_count:
  assumes "chunk_holds E level ch fs zs"
  shows "length fs \<le> length (concat fs)"
proof -
  have "list_all2 (frame_of E level) fs zs" using assms by (simp add: chunk_holds_def)
  then show ?thesis
    by (induction rule: list_all2_induct) (auto simp: frame_of_def Suc_le_eq neq_Nil_conv)
qed

lemma frames_overlapping_stamp [simp]:
  "frames_overlapping cend (stamp ch etag) ti rg = frames_overlapping cend (chunk_frame_index ch) ti rg"
  by (simp add: frames_overlapping_def stamp_def)

lemma chunk_ts_wf:
  assumes h: "chunk_holds E level ch fs zs" and t: "\<forall>r \<in> set (concat fs). is_i64 (timestamp r)"
    and "length fs \<le> MAX_FRAMES"
  shows "wf_ts_index (chunk_ts_index ch)"
proof -
  have "wf_ts_entry (ts_range f)" if "f \<in> set fs" for f
  proof -
    have "f \<noteq> []" using h that
      by (auto simp: chunk_holds_def frame_of_def list_all2_conv_all_nth in_set_conv_nth)
    then obtain r where r: "r \<in> set f" by (cases f) auto
    then have "is_i64 (timestamp r)" using t that by auto
    moreover have "i64_MIN \<le> ts_min f" "ts_max f \<le> i64_MAX"
      using t that by (auto simp: ts_min_def ts_max_def is_i64_def i64_MIN_def i64_MAX_def)
    ultimately show ?thesis
      using ts_min_le [OF r] ts_max_ge [OF r] by (auto simp: wf_ts_entry_def ts_range_def is_i64_def)
  qed
  then show ?thesis using h assms(3) by (auto simp: wf_ts_index_def chunk_holds_def)
qed

section \<open>A bucket in memory\<close>

text \<open>
  A client over a plain key/value map with the documented behaviour: it shows that the laws above
  can hold together and lets the definitions be evaluated.
\<close>

definition map_client :: "(string \<rightharpoonup> bytes) s3_client" where
  "map_client =
     \<lparr>s3_put_object = (\<lambda>_ key body _ s. (s(key \<mapsto> body), Inr (Some ''e''))),
      s3_get_object = (\<lambda>_ key rng s. case s key of None \<Rightarrow> Inl NoSuchKey
        | Some b \<Rightarrow> Inr (Inr (case rng of None \<Rightarrow> b
                              | Some (x, y) \<Rightarrow> take (y + 1 - x) (drop x b)))),
      s3_list_objects = (\<lambda>_ _ t _. case t of None \<Rightarrow> Inr ([Some ''a'', None], Some ''t'')
        | Some _ \<Rightarrow> Inr ([Some ''b''], None)),
      s3_head_object = (\<lambda>_ key s. case s key of None \<Rightarrow> Inl HeadNotFound | Some _ \<Rightarrow> Inr ())\<rparr>"

definition sample_chunk :: encoded_chunk where
  "sample_chunk = \<lparr>chunk_body = [65, NL],
     chunk_frame_index = \<lparr>total_padded_size = 2,
       fi_entries = [\<lparr>original_offset = 0, original_size = 2, compressed_offset = 0, compressed_size = 2\<rparr>],
       source_etag = None, source_compressed_size = None, sse_v3 = None\<rparr>,
     chunk_ts_index = \<lparr>ts_entries = [\<lparr>min_ts = 5, max_ts = 5\<rparr>]\<rparr>,
     chunk_record_count = 1, uncompressed_bytes = 2, min_timestamp = 5, max_timestamp = 5,
     chunk_crc32c = 0\<rparr>"

definition sample_codec :: s4_codec where
  "sample_codec = \<lparr>encode_index = (\<lambda>_. [1]), decode_index = (\<lambda>_. Inr (stamp sample_chunk (Some ''e''))),
     SIDECAR_SUFFIX = ''.s4index'', compressed_end = sample_cend\<rparr>"

definition sample_loc :: chunk_location where
  "sample_loc = \<lparr>account = ''1'', log_group = ''g'', date = ''2024-01-01'', obj_name = ''n''\<rparr>"

lemma map_client_laws: "put_law map_client bkt id" "get_law map_client bkt id"
  by (simp_all add: put_law_def get_law_def map_client_def)

lemma sample_chunk_written:
  "\<exists>w. push_all sample_env [sample_record 5] (cw_new chunk_config_default) = (w, Inr ())
     \<and> cw_finish sample_env w = Inr (Some sample_chunk)"
  by (simp add: cw_push_def append_jsonl_def sample_env_def sample_json_def cw_new_def Let_def
      chunk_config_default_def cw_finish_def cw_encode_def compress_frame_def sample_chunk_def
      sample_record_def i64_MAX_def i64_MIN_def)

definition sample_receipt :: put_receipt where
  "sample_receipt = \<lparr>r_data_key = data_key sample_loc ''p/'',
     r_index_key = index_key ''.s4index'' sample_loc ''p/'',
     r_ts_index_key = ts_index_key sample_loc ''p/'', r_etag = Some ''e'', r_crc32c = 0,
     r_body_len = 2, r_storage_class = None\<rparr>"

definition sample_bucket :: "string \<rightharpoonup> bytes" where
  "sample_bucket = Map.empty(data_key sample_loc ''p/'' \<mapsto> [65, NL],
     index_key ''.s4index'' sample_loc ''p/'' \<mapsto> [1],
     ts_index_key sample_loc ''p/'' \<mapsto> encode_ts_index (chunk_ts_index sample_chunk))"

lemma sample_put:
  "os_put_chunk sample_codec map_client (os_new ''b'' ''p'') sample_loc sample_chunk Map.empty =
     (sample_bucket, Inr sample_receipt)"
  by (simp add: os_put_chunk_def put_ops put_object_inner_def map_client_def sample_codec_def
      encode_sidecars_def os_new_def norm_prefix_def trim_matches_def Let_def sample_chunk_def
      sample_receipt_def sample_bucket_def)

lemma sample_codec_facts:
  "cend_ok (compressed_end sample_codec)" "SIDECAR_SUFFIX sample_codec \<noteq> TS_SIDECAR_SUFFIX"
  "decode_index sample_codec (encode_index sample_codec (stamp sample_chunk (r_etag sample_receipt)))
     = Inr (stamp sample_chunk (r_etag sample_receipt))"
  by (simp_all add: sample_codec_def sample_cend_ok TS_SIDECAR_SUFFIX_def sample_receipt_def)

section \<open>Properties\<close>

text \<open>
  C13: write-after-data. Whatever the outcome of storing a chunk in S3, if either sidecar key
  changed, or the call succeeded, then the data object is in place with the chunk's body; and no
  key other than the three of the chunk is touched. A crash or failed PUT never leaves a new
  sidecar that points at missing data.
\<close>

theorem write_after_data:
  assumes "put_law cl (os_bucket st) objs" and "os_put_chunk X cl st loc ch s = (s', res)"
  shows "(is_ok res \<or> objs s' (index_key (SIDECAR_SUFFIX X) loc (os_prefix st))
           \<noteq> objs s (index_key (SIDECAR_SUFFIX X) loc (os_prefix st))
         \<or> objs s' (ts_index_key loc (os_prefix st)) \<noteq> objs s (ts_index_key loc (os_prefix st))
       \<longrightarrow> objs s' (data_key loc (os_prefix st)) = Some (chunk_body ch))
     \<and> (k \<notin> chunk_keys X loc (os_prefix st) \<longrightarrow> objs s' k = objs s k)"
  using os_put_chunk_data [OF assms] os_put_chunk_frame [OF assms] by blast

theorem write_after_data_witness:
  "fst (os_put_chunk sample_codec map_client (os_new ''b'' ''p'') sample_loc sample_chunk Map.empty)
     (data_key sample_loc (os_prefix (os_new ''b'' ''p''))) = Some (chunk_body sample_chunk)"
  using write_after_data [OF map_client_laws(1) sample_put] by (simp add: sample_put)

text \<open>
  C14: an archived chunk can be read by time range. When a chunk written from any records has been
  stored in S3, the sidecars load and decode, the pruned spans can be fetched with Range requests,
  each decompresses on its own, and the records of those frames that lie in the time range are
  exactly the archived records in the range.
\<close>

theorem stored_chunk_readable:
  assumes "zstd_faithful E" and "zstd_total E (zstd_level c)" and "cend_ok (compressed_end X)"
    and "put_law cl (os_bucket st) objs" and "get_law cl (os_bucket st) objs"
    and "SIDECAR_SUFFIX X \<noteq> TS_SIDECAR_SUFFIX"
    and "jsonl_faithful (json E) rs" and "\<forall>r \<in> set rs. is_i64 (timestamp r)"
    and "length (jsonl_text (json E) rs) \<le> MAX_DECOMPRESSED_BYTES" and "length rs \<le> MAX_FRAMES"
    and "push_all E rs (cw_new c) = (w, Inr ())" and "cw_finish E w = Inr (Some ch)"
    and "os_put_chunk X cl st loc ch s = (s', Inr r)"
    and "decode_index X (encode_index X (stamp ch (r_etag r))) = Inr (stamp ch (r_etag r))"
  shows "\<exists>fi ti spans texts got. load_indexes X cl st loc s' = Inr (fi, ti)
    \<and> frames_overlapping (compressed_end X) fi ti rg = Inr spans
    \<and> map (\<lambda>sp. case get_range cl st (r_data_key r) (byte_start sp) (byte_end_exclusive sp) s' of
             Inl _ \<Rightarrow> None | Inr b \<Rightarrow> ok_of (decompress_frames E b (span_original_size sp))) spans
        = map Some texts
    \<and> concat (map (record_lines (json E)) texts) = map Inr got
    \<and> filter (in_range rg) got = filter (in_range rg) rs"
proof -
  from written_chunk [OF assms(2,7)] assms(11,12) obtain fs zs where
    h: "chunk_holds E (zstd_level c) ch fs zs" and rs: "concat fs = rs"
    by (metis Inr_inject option.distinct(1) option.inject prod.inject)
  have "length fs \<le> length rs" using chunk_holds_frame_count [OF h] rs by simp
  then have wf: "wf_ts_index (chunk_ts_index ch)"
    using chunk_ts_wf [OF h] assms(8,10) rs by simp
  note stored = os_put_chunk_Inr [OF assms(4,13)] os_put_chunk_data [OF assms(4,13)]
  have load: "load_indexes X cl st loc s' = Inr (stamp ch (r_etag r), chunk_ts_index ch)"
    using stored assms(6) by (intro load_indexes_stored [OF assms(5) _ _ assms(14) wf]) simp_all
  from pruned_chunk [OF assms(1,3) h, of rg] assms(7,9) rs obtain spans texts got where
    s: "frames_overlapping (compressed_end X) (chunk_frame_index ch) (chunk_ts_index ch) rg = Inr spans"
      "map (read_span E (chunk_body ch)) spans = map Inr texts"
      "concat (map (record_lines (json E)) texts) = map Inr got"
      "filter (in_range rg) got = filter (in_range rg) rs" by blast
  have "get_range cl st (r_data_key r) (byte_start sp) (byte_end_exclusive sp) s'
      = Inr (span_slice (chunk_body ch) sp)" if "sp \<in> set spans" for sp
    using get_range_stored [OF assms(5), of s' "r_data_key r" "chunk_body ch"] stored
      span_bounds [OF assms(3) h s(1) that] by (simp add: span_slice_def)
  then have "map (\<lambda>sp. case get_range cl st (r_data_key r) (byte_start sp) (byte_end_exclusive sp) s' of
             Inl _ \<Rightarrow> None | Inr b \<Rightarrow> ok_of (decompress_frames E b (span_original_size sp))) spans
      = map ok_of (map (read_span E (chunk_body ch)) spans)"
    by (simp add: read_span_def)
  also have "\<dots> = map Some texts" by (simp only: s(2) map_map) simp
  finally show ?thesis
    using load s by (auto simp: frames_overlapping_stamp)
qed

theorem stored_chunk_readable_witness:
  "\<exists>fi ti spans texts got.
     load_indexes sample_codec map_client (os_new ''b'' ''p'') sample_loc sample_bucket = Inr (fi, ti)
     \<and> frames_overlapping (compressed_end sample_codec) fi ti \<lparr>from_ms = 5, to_ms_exclusive = 6\<rparr> = Inr spans
     \<and> concat (map (record_lines (json sample_env)) texts) = map Inr got
     \<and> filter (in_range \<lparr>from_ms = 5, to_ms_exclusive = 6\<rparr>) got = [sample_record 5]"
proof -
  from sample_chunk_written obtain w where
    w: "push_all sample_env [sample_record 5] (cw_new chunk_config_default) = (w, Inr ())"
      "cw_finish sample_env w = Inr (Some sample_chunk)" by blast
  have j: "jsonl_faithful (json sample_env) [sample_record 5]"
    and i: "\<forall>r \<in> set [sample_record 5]. is_i64 (timestamp r)"
    and t: "length (jsonl_text (json sample_env) [sample_record 5]) \<le> MAX_DECOMPRESSED_BYTES"
    and n: "length [sample_record 5] \<le> MAX_FRAMES"
    and f: "filter (in_range \<lparr>from_ms = 5, to_ms_exclusive = 6\<rparr>) [sample_record 5] = [sample_record 5]"
    using sample_jsonl_faithful sample_text_length
    by (simp_all add: is_i64_def i64_MIN_def i64_MAX_def MAX_FRAMES_def MAX_DECOMPRESSED_BYTES_def
        in_range_def sample_record_def)
  show ?thesis
    using stored_chunk_readable [OF sample_zstd_faithful sample_zstd_total sample_codec_facts(1)
        map_client_laws sample_codec_facts(2) j i t n w sample_put sample_codec_facts(3),
        of "\<lparr>from_ms = 5, to_ms_exclusive = 6\<rparr>"]
    unfolding f by blast
qed

text \<open>
  Listing is complete. When the service pages a listing to an end, the loop ends and returns
  every key of every page, in order.
\<close>

theorem list_keys_complete:
  assumes "list_pages (\<lambda>t. s3_list_objects cl (os_bucket st) key_prefix t s) None pages"
  shows "list_keys cl st key_prefix s = Some (Inr (List.map_filter id (concat pages)))"
  using list_keys_loop_pages [OF assms, of "[]"] by (simp add: list_keys_def)

theorem list_keys_complete_witness:
  "list_keys map_client (os_new ''b'' ''p'') ''x'' Map.empty = Some (Inr [''a'', ''b''])"
  using list_keys_complete [of map_client "os_new ''b'' ''p''" "''x''" Map.empty
      "[[Some ''a'', None], [Some ''b'']]"]
  by (simp add: map_client_def map_filter_def)

end
