(* ===== verification/S4_Window.thy ===== *)
theory S4_Window
  imports S4_Prelude
begin

text \<open>
  Drain windows (\<^verbatim>\<open>s4logs-drain/src/window.rs\<close>): half-open time ranges on a grid anchored at each UTC
  day. The lemmas show that the grid is absolute (two windows of any two runs are equal or
  disjoint), that no window spans a day, and that both enumerations end and cover what they promise
  for every timestamp up to the last full day an i64 can hold.
\<close>

section \<open>Definitions\<close>

definition HOUR_MS :: int where "HOUR_MS = 3600000"
definition DAY_MS :: int where "DAY_MS = 86400000"

record window =
  start_ms :: int
  end_ms :: int

datatype window_error = NonPositiveWindow int | NegativeRange int int

definition validate :: "int \<Rightarrow> int \<Rightarrow> int \<Rightarrow> window_error + unit" where
  "validate frm to window_ms =
     (if window_ms \<le> 0 then Inl (NonPositiveWindow window_ms)
      else if frm < 0 \<or> to < 0 then Inl (NegativeRange frm to)
      else Inr ())"

text \<open>No operator here can overflow: every intermediate value lies between 0 and \<open>ts\<close>.\<close>

definition align_down :: "int \<Rightarrow> int \<Rightarrow> int" where
  "align_down ts window_ms =
     (let day = (ts sdiv DAY_MS) * DAY_MS
      in day + ((ts - day) sdiv window_ms) * window_ms)"

text \<open>The sum for the day end is a plain operator: it wraps in the last, incomplete day of the i64 range.\<close>

definition next_boundary :: "int \<Rightarrow> int \<Rightarrow> int" where
  "next_boundary boundary window_ms =
     (let day_end = wrap_i64 ((boundary sdiv DAY_MS) * DAY_MS + DAY_MS)
      in min (sat_i64 (boundary + window_ms)) day_end)"

partial_function (option) windows_loop ::
    "int \<Rightarrow> int \<Rightarrow> int \<Rightarrow> window list \<Rightarrow> window list option" where
  "windows_loop to window_ms start out =
     (let e = next_boundary start window_ms in
      if e > to then Some out
      else windows_loop to window_ms e (out @ [\<lparr>start_ms = start, end_ms = e\<rparr>]))"

definition windows :: "int \<Rightarrow> int \<Rightarrow> int \<Rightarrow> (window_error + window list) option" where
  "windows frm to window_ms =
     (case validate frm to window_ms of
        Inl e \<Rightarrow> Some (Inl e)
      | Inr _ \<Rightarrow> map_option Inr (windows_loop to window_ms (align_down frm window_ms) []))"

partial_function (option) covering_loop ::
    "int \<Rightarrow> int \<Rightarrow> int \<Rightarrow> window list \<Rightarrow> window list option" where
  "covering_loop until window_ms start out =
     (if start < until then
        let e = next_boundary start window_ms
        in covering_loop until window_ms e (out @ [\<lparr>start_ms = start, end_ms = e\<rparr>])
      else Some out)"

definition windows_covering :: "int \<Rightarrow> int \<Rightarrow> int \<Rightarrow> (window_error + window list) option" where
  "windows_covering frm until window_ms =
     (case validate frm until window_ms of
        Inl e \<Rightarrow> Some (Inl e)
      | Inr _ \<Rightarrow> map_option Inr (covering_loop until window_ms (align_down frm window_ms) []))"

section \<open>The grid\<close>

text \<open>The start of the last day that does not fit into an i64.\<close>

definition horizon :: int where
  "horizon = i64_MAX div DAY_MS * DAY_MS"

definition holds_ts :: "window \<Rightarrow> int \<Rightarrow> bool" where
  "holds_ts w t \<longleftrightarrow> start_ms w \<le> t \<and> t < end_ms w"

text \<open>A grid window: its start is a grid point and its end the next one.\<close>

definition grid_window :: "int \<Rightarrow> window \<Rightarrow> bool" where
  "grid_window window_ms w \<longleftrightarrow>
     0 \<le> start_ms w \<and> start_ms w < horizon \<and> align_down (start_ms w) window_ms = start_ms w
     \<and> end_ms w = next_boundary (start_ms w) window_ms"

lemma DAY_MS_pos [simp]: "0 < DAY_MS" "DAY_MS \<noteq> 0" "\<not> DAY_MS \<le> 0" "0 \<le> DAY_MS"
  by (simp_all add: DAY_MS_def)

lemma align_down_eq:
  assumes "0 \<le> t" and "0 < w"
  shows "align_down t w = t div DAY_MS * DAY_MS + t mod DAY_MS div w * w"
  using assms by (simp add: align_down_def Let_def sdiv_nonneg minus_div_mult_eq_mod)

lemma day_parts: "t = t div DAY_MS * DAY_MS + t mod DAY_MS" "0 \<le> t mod DAY_MS" "t mod DAY_MS < DAY_MS"
  by (simp_all add: DAY_MS_def)

lemma day_unique:
  assumes "d * DAY_MS \<le> t" and "t < d * DAY_MS + DAY_MS"
  shows "t div DAY_MS = d" "t mod DAY_MS = t - d * DAY_MS"
proof -
  have "t div DAY_MS = (t - d * DAY_MS) div DAY_MS + d"
    using div_mult_self1 [of DAY_MS "t - d * DAY_MS" d] by simp
  also have "(t - d * DAY_MS) div DAY_MS = 0" using assms by (intro div_pos_pos_trivial) simp_all
  finally show q: "t div DAY_MS = d" by simp
  show "t mod DAY_MS = t - d * DAY_MS" using day_parts(1) [of t] q by simp
qed

lemma day_before:
  assumes "t < q * DAY_MS"
  shows "t div DAY_MS < q"
proof (rule ccontr)
  assume "\<not> t div DAY_MS < q"
  then have "q * DAY_MS \<le> t div DAY_MS * DAY_MS" by (intro mult_right_mono) simp_all
  then show False using assms day_parts [of t] by linarith
qed

lemma horizon_max: "horizon \<le> i64_MAX"
  by (simp add: horizon_def DAY_MS_def i64_MAX_def)

lemma day_end_horizon: "t < horizon \<Longrightarrow> t div DAY_MS * DAY_MS + DAY_MS \<le> horizon"
proof -
  assume "t < horizon"
  then have "t div DAY_MS + 1 \<le> i64_MAX div DAY_MS"
    using day_before unfolding horizon_def by fastforce
  then have "(t div DAY_MS + 1) * DAY_MS \<le> i64_MAX div DAY_MS * DAY_MS"
    by (intro mult_right_mono) simp_all
  then show ?thesis by (simp add: horizon_def distrib_right)
qed

lemma next_boundary_eq:
  assumes "0 \<le> t" and "0 < w" and "t < horizon"
  shows "next_boundary t w = min (t + w) (t div DAY_MS * DAY_MS + DAY_MS)"
proof -
  have le: "t div DAY_MS * DAY_MS + DAY_MS \<le> i64_MAX"
    using day_end_horizon [OF assms(3)] horizon_max by simp
  have "0 \<le> t div DAY_MS * DAY_MS"
    using assms(1) by (intro mult_nonneg_nonneg) (simp_all add: pos_imp_zdiv_nonneg_iff)
  then have "is_i64 (t div DAY_MS * DAY_MS + DAY_MS)"
    using le by (simp add: is_i64_def i64_MIN_def DAY_MS_def)
  moreover have "sat_i64 (t + w) = min i64_MAX (t + w)"
    using assms by (simp add: sat_i64_def i64_MIN_def max_def i64_MAX_def)
  ultimately show ?thesis
    using assms le by (simp add: next_boundary_def Let_def sdiv_nonneg wrap_i64_id)
qed

lemma next_boundary_bounds:
  assumes "0 \<le> t" and "0 < w" and "t < horizon"
  shows "t < next_boundary t w" "next_boundary t w \<le> t + w" "next_boundary t w \<le> horizon"
    "next_boundary t w \<le> t div DAY_MS * DAY_MS + DAY_MS"
  using next_boundary_eq [OF assms] day_parts [of t] day_end_horizon [OF assms(3)] assms(2) by linarith+

lemma align_down_parts:
  assumes "0 \<le> t" and "0 < w"
  shows "align_down t w div DAY_MS = t div DAY_MS"
    "align_down t w mod DAY_MS = t mod DAY_MS div w * w" "align_down t w \<le> t" "0 \<le> align_down t w"
    "t < align_down t w + w"
proof -
  let ?k = "t mod DAY_MS div w"
  have "0 \<le> ?k * w"
    using assms(2) day_parts(2) [of t] by (intro mult_nonneg_nonneg) (simp_all add: pos_imp_zdiv_nonneg_iff)
  then have b: "0 \<le> ?k * w" "?k * w \<le> t mod DAY_MS" "t mod DAY_MS < ?k * w + w"
    using pos_mod_bound [OF assms(2), of "t mod DAY_MS"]
      div_mult_mod_eq [of "t mod DAY_MS" w] pos_mod_sign [OF assms(2), of "t mod DAY_MS"]
    by linarith+
  have e: "align_down t w = t div DAY_MS * DAY_MS + ?k * w" by (rule align_down_eq [OF assms])
  show "align_down t w div DAY_MS = t div DAY_MS"
    "align_down t w mod DAY_MS = ?k * w"
    using day_unique [of "t div DAY_MS" "align_down t w"] e b day_parts [of t] by linarith+
  have "0 \<le> t div DAY_MS * DAY_MS"
    using assms(1) by (intro mult_nonneg_nonneg) (simp_all add: pos_imp_zdiv_nonneg_iff)
  then show "align_down t w \<le> t" "0 \<le> align_down t w" "t < align_down t w + w"
    using e b day_parts [of t] by linarith+
qed

lemma align_down_same:
  assumes "0 \<le> t" and "0 < w" and "t < horizon"
    and "align_down t w \<le> u" and "u < next_boundary (align_down t w) w"
  shows "align_down u w = align_down t w"
proof -
  let ?a = "align_down t w" and ?k = "t mod DAY_MS div w"
  note a = align_down_parts [OF assms(1,2)]
  have nb: "next_boundary ?a w = min (?a + w) (t div DAY_MS * DAY_MS + DAY_MS)"
    using next_boundary_eq [of ?a w] a assms by simp
  have ae: "?a = t div DAY_MS * DAY_MS + ?k * w" by (rule align_down_eq [OF assms(1,2)])
  have lo: "t div DAY_MS * DAY_MS \<le> ?a" 
    using day_parts(1) [of ?a, unfolded a(1)] day_parts(2) [of ?a] by linarith
  have u: "u div DAY_MS = t div DAY_MS" "u mod DAY_MS = u - t div DAY_MS * DAY_MS"
    using day_unique [of "t div DAY_MS" u] assms(4,5) nb lo by linarith+
  have "0 \<le> u mod DAY_MS - ?k * w" "u mod DAY_MS - ?k * w < w"
    using u(2) ae assms(4,5) nb by linarith+
  then have "(u mod DAY_MS - ?k * w + ?k * w) div w = ?k"
    using assms(2) by (subst div_mult_self1) (simp_all add: div_pos_pos_trivial)
  then show ?thesis using align_down_eq [of u w] ae u assms a(4) by simp
qed

lemma align_down_next:
  assumes "0 \<le> t" and "0 < w" and "t < horizon"
  shows "t < next_boundary (align_down t w) w"
proof -
  note a = align_down_parts [OF assms(1,2)]
  have "next_boundary (align_down t w) w = min (align_down t w + w) (t div DAY_MS * DAY_MS + DAY_MS)"
    using next_boundary_eq [of "align_down t w" w] a assms by simp
  then show ?thesis using a(5) day_parts [of t] by linarith
qed

lemma grid_window_start:
  assumes "grid_window w x" and "0 < w" and "holds_ts x t"
  shows "start_ms x = align_down t w"
  using assms align_down_same [of "start_ms x" w t] by (simp add: grid_window_def holds_ts_def)

lemma grid_window_unique:
  assumes "grid_window w x" and "grid_window w y" and "0 < w" and "holds_ts x t" and "holds_ts y t"
  shows "x = y"
proof -
  have "start_ms x = start_ms y" using grid_window_start assms by metis
  then have "end_ms x = end_ms y" using assms(1,2) by (simp add: grid_window_def)
  with \<open>start_ms x = start_ms y\<close> show ?thesis by simp
qed

lemma grid_window_day:
  assumes "grid_window w x" and "0 < w"
  shows "start_ms x < end_ms x" "end_ms x \<le> start_ms x + w"
    "holds_ts x t \<Longrightarrow> t div DAY_MS = start_ms x div DAY_MS"
proof -
  have b: "0 \<le> start_ms x" "start_ms x < horizon" "end_ms x = next_boundary (start_ms x) w"
    using assms by (simp_all add: grid_window_def)
  note nb = next_boundary_bounds [OF b(1) assms(2) b(2)]
  show "start_ms x < end_ms x" "end_ms x \<le> start_ms x + w" using nb b by simp_all
  show "holds_ts x t \<Longrightarrow> t div DAY_MS = start_ms x div DAY_MS"
    using day_unique(1) [of "start_ms x div DAY_MS" t] nb(4) b(3) day_parts [of "start_ms x"]
    by (simp add: holds_ts_def)
qed

lemma align_down_grid: "0 \<le> t \<Longrightarrow> 0 < w \<Longrightarrow> t < horizon \<Longrightarrow> align_down (align_down t w) w = align_down t w"
  using align_down_same [of t w "align_down t w"] align_down_parts [of t w] next_boundary_bounds [of "align_down t w" w]
  by simp

text \<open>The end of a grid window is a grid point again.\<close>

lemma next_boundary_grid:
  assumes "0 \<le> a" and "0 < w" and "a < horizon" and g: "align_down a w = a"
  shows "align_down (next_boundary a w) w = next_boundary a w"
proof (cases "a + w < a div DAY_MS * DAY_MS + DAY_MS")
  case True
  then have nb: "next_boundary a w = a + w" using next_boundary_eq [OF assms(1-3)] by simp
  have q: "(a + w) div DAY_MS = a div DAY_MS" "(a + w) mod DAY_MS = a mod DAY_MS + w"
    using day_unique [of "a div DAY_MS" "a + w"] True day_parts [of a] assms(2) by linarith+
  have k: "a mod DAY_MS = a mod DAY_MS div w * w"
    using align_down_eq [OF assms(1,2)] g day_parts(1) [of a] by linarith
  have "(a mod DAY_MS + w) div w = a mod DAY_MS div w + 1"
    using assms(2) div_mult_self1 [of w "a mod DAY_MS" 1] by simp
  then have "(a mod DAY_MS + w) div w * w = a mod DAY_MS + w"
    using k by (simp add: distrib_right)
  then have "align_down (a + w) w = a + w"
    using align_down_eq [of "a + w" w] q assms(1,2) day_parts(1) [of a] by simp
  then show ?thesis by (simp add: nb)
next
  case False
  let ?e = "a div DAY_MS * DAY_MS + DAY_MS"
  have nb: "next_boundary a w = ?e" using False next_boundary_eq [OF assms(1-3)] by simp
  have e0: "0 \<le> ?e" using next_boundary_bounds(1) [OF assms(1-3)] assms(1) nb by linarith
  have "?e = (a div DAY_MS + 1) * DAY_MS" by (simp add: distrib_right)
  then have "?e mod DAY_MS = 0" "?e div DAY_MS * DAY_MS = ?e"
    by (simp_all del: distrib_right_numeral)
  then have "align_down ?e w = ?e" using align_down_eq [OF e0 assms(2)] by simp
  then show ?thesis by (simp add: nb)
qed

section \<open>The enumerations\<close>

text \<open>Windows laid end to end from \<open>a\<close> to \<open>b\<close>.\<close>

fun chain :: "int \<Rightarrow> window list \<Rightarrow> int \<Rightarrow> bool" where
  "chain a [] b \<longleftrightarrow> a = b"
| "chain a (x # xs) b \<longleftrightarrow> start_ms x = a \<and> a < end_ms x \<and> chain (end_ms x) xs b"

lemma chain_le: "chain a ws b \<Longrightarrow> a \<le> b"
  by (induction ws arbitrary: a) fastforce+

lemma chain_covers: "chain a ws b \<Longrightarrow> a \<le> t \<Longrightarrow> t < b \<Longrightarrow> \<exists>x \<in> set ws. holds_ts x t"
proof (induction ws arbitrary: a)
  case (Cons x xs)
  then show ?case by (cases "t < end_ms x") (fastforce simp: holds_ts_def)+
qed simp

lemma chain_bounds: "chain a ws b \<Longrightarrow> x \<in> set ws \<Longrightarrow> a \<le> start_ms x \<and> end_ms x \<le> b"
  by (induction ws arbitrary: a) (fastforce dest: chain_le)+

lemma windows_loop_total:
  assumes "0 < w" and "to < horizon" and "0 \<le> a" and "a < horizon" and "align_down a w = a"
  shows "\<exists>ws b. windows_loop to w a out = Some (out @ ws) \<and> chain a ws b
    \<and> (ws = [] \<or> b \<le> to) \<and> b < horizon \<and> to < next_boundary b w \<and> (\<forall>x \<in> set ws. grid_window w x)"
  using assms(3-5)
proof (induction "nat (to - a)" arbitrary: a out rule: less_induct)
  case less
  let ?e = "next_boundary a w"
  note nb = next_boundary_bounds [OF less.prems(1) assms(1) less.prems(2)]
  show ?case
  proof (cases "?e > to")
    case True
    then show ?thesis
      using less.prems by (subst windows_loop.simps) (auto simp: Let_def intro!: exI [of _ "[]"])
  next
    case False
    let ?x = "\<lparr>start_ms = a, end_ms = ?e\<rparr>"
    have "nat (to - ?e) < nat (to - a)" "0 \<le> ?e" "?e < horizon"
      using nb False less.prems assms(2) by auto
    from less.hyps [OF this(1,2,3) next_boundary_grid [OF less.prems(1) assms(1) less.prems(2,3)],
        of "out @ [?x]"]
    obtain ws b where ws: "windows_loop to w ?e (out @ [?x]) = Some ((out @ [?x]) @ ws)"
      "chain ?e ws b" "ws = [] \<or> b \<le> to" "b < horizon" "to < next_boundary b w"
      "\<forall>x \<in> set ws. grid_window w x" by blast
    have "windows_loop to w a out = Some (out @ ?x # ws)"
      using False ws(1) by (subst windows_loop.simps) (simp add: Let_def)
    moreover have "grid_window w ?x" using less.prems by (simp add: grid_window_def)
    ultimately show ?thesis
      using ws False nb by (intro exI [of _ "?x # ws"] exI [of _ b]) auto
  qed
qed

lemma covering_loop_total:
  assumes "0 < w" and "until \<le> horizon" and "0 \<le> a" and "a \<le> horizon" and "align_down a w = a"
  shows "\<exists>ws b. covering_loop until w a out = Some (out @ ws) \<and> chain a ws b
    \<and> until \<le> b \<and> (\<forall>x \<in> set ws. grid_window w x \<and> start_ms x < until)"
  using assms(3-5)
proof (induction "nat (until - a)" arbitrary: a out rule: less_induct)
  case less
  let ?e = "next_boundary a w"
  show ?case
  proof (cases "a < until")
    case False
    then show ?thesis by (subst covering_loop.simps) (auto intro!: exI [of _ "[]"])
  next
    case True
    then have h: "a < horizon" using assms(2) by simp
    note nb = next_boundary_bounds [OF less.prems(1) assms(1) h]
    let ?x = "\<lparr>start_ms = a, end_ms = ?e\<rparr>"
    have "nat (until - ?e) < nat (until - a)" "0 \<le> ?e" "?e \<le> horizon"
      using nb True less.prems by auto
    from less.hyps [OF this next_boundary_grid [OF less.prems(1) assms(1) h less.prems(3)],
        of "out @ [?x]"]
    obtain ws b where ws: "covering_loop until w ?e (out @ [?x]) = Some ((out @ [?x]) @ ws)"
      "chain ?e ws b" "until \<le> b" "\<forall>x \<in> set ws. grid_window w x \<and> start_ms x < until" by blast
    have "covering_loop until w a out = Some (out @ ?x # ws)"
      using True ws(1) by (subst covering_loop.simps) (simp add: Let_def)
    moreover have "grid_window w ?x" using less.prems h by (simp add: grid_window_def)
    ultimately show ?thesis
      using ws nb True by (intro exI [of _ "?x # ws"] exI [of _ b]) auto
  qed
qed

lemma windows_covering_total:
  assumes "0 < w" and "0 \<le> frm" and "frm < horizon" and "0 \<le> until" and "until \<le> horizon"
  shows "\<exists>ws b. windows_covering frm until w = Some (Inr ws) \<and> chain (align_down frm w) ws b
    \<and> until \<le> b \<and> (\<forall>x \<in> set ws. grid_window w x \<and> start_ms x < until)"
  using covering_loop_total [OF assms(1,5), of "align_down frm w" "[]"] assms
    align_down_parts [of frm w] align_down_grid [of frm w]
  by (fastforce simp: windows_covering_def validate_def)

text \<open>Past the horizon the sum for the day end wraps: the next boundary of a grid point is negative.\<close>

lemma next_boundary_wraps: "next_boundary horizon HOUR_MS < 0"
  by (simp add: next_boundary_def Let_def sdiv_nonneg horizon_def i64_MAX_def i64_MIN_def DAY_MS_def
      HOUR_MS_def wrap_i64_def sat_i64_def)

lemma windows_total:
  assumes "0 < w" and "0 \<le> frm" and "frm < horizon" and "0 \<le> to" and "to < horizon"
  shows "\<exists>ws b. windows frm to w = Some (Inr ws) \<and> chain (align_down frm w) ws b
    \<and> (ws = [] \<or> b \<le> to) \<and> to < next_boundary b w \<and> (\<forall>x \<in> set ws. grid_window w x)"
  using windows_loop_total [OF assms(1,5), of "align_down frm w" "[]"] assms
    align_down_parts [of frm w] align_down_grid [of frm w]
  by (fastforce simp: windows_def validate_def)

section \<open>Properties\<close>

text \<open>
  C11: \<^verbatim>\<open>windows\<close> ends and tiles the range. For non-negative bounds below the horizon it returns
  windows laid end to end from the grid point at or below \<open>frm\<close>; each is complete by \<open>to\<close>, at most
  \<open>w\<close> long and inside one UTC day, and the next window would end after \<open>to\<close>.
\<close>

theorem windows_tile:
  assumes "0 < w" and "0 \<le> frm" and "frm < horizon" and "0 \<le> to" and "to < horizon"
  shows "\<exists>ws b. windows frm to w = Some (Inr ws) \<and> chain (align_down frm w) ws b
    \<and> to < next_boundary b w
    \<and> (\<forall>x \<in> set ws. end_ms x \<le> to \<and> end_ms x \<le> start_ms x + w
        \<and> (\<forall>t. holds_ts x t \<longrightarrow> t div DAY_MS = start_ms x div DAY_MS))"
proof -
  from windows_total [OF assms] obtain ws b where ws: "windows frm to w = Some (Inr ws)"
    "chain (align_down frm w) ws b" "ws = [] \<or> b \<le> to" "to < next_boundary b w"
    "\<forall>x \<in> set ws. grid_window w x" by blast
  have "end_ms x \<le> to" if "x \<in> set ws" for x
    using chain_bounds [OF ws(2) that] ws(3) that by auto
  then show ?thesis using ws grid_window_day [OF _ assms(1)] by blast
qed

theorem windows_tile_witness:
  "\<exists>ws b. windows 90000000 100000000 HOUR_MS = Some (Inr ws)
     \<and> chain (align_down 90000000 HOUR_MS) ws b \<and> 100000000 < next_boundary b HOUR_MS"
  using windows_tile [of HOUR_MS 90000000 100000000]
  by (auto simp: HOUR_MS_def horizon_def DAY_MS_def i64_MAX_def)

text \<open>
  The grid is absolute. A window of one run and a window of another run with the same window
  length, for whatever ranges, are equal as soon as they share one timestamp, so the identity of a
  window (and its manifest key) does not depend on the range it was requested with.
\<close>

theorem windows_absolute:
  assumes "0 < w" and "frm < horizon" and "to < horizon" and "frm' < horizon" and "to' < horizon"
    and "windows frm to w = Some (Inr ws)" and "windows frm' to' w = Some (Inr ws')"
    and "x \<in> set ws" and "y \<in> set ws'" and "holds_ts x t" and "holds_ts y t"
  shows "x = y"
proof -
  have v: "0 \<le> frm" "0 \<le> to" "0 \<le> frm'" "0 \<le> to'"
    using assms(6,7) by (auto simp: windows_def validate_def split: if_splits)
  have "grid_window w x" using windows_total [OF assms(1) v(1) assms(2) v(2) assms(3)] assms(6,8) by auto
  moreover have "grid_window w y"
    using windows_total [OF assms(1) v(3) assms(4) v(4) assms(5)] assms(7,9) by auto
  ultimately show ?thesis using grid_window_unique assms(1,10,11) by blast
qed

lemma windows_sample:
  "windows 100 50 20 = Some (Inr [])"
  "windows 30 65 20 = Some (Inr [\<lparr>start_ms = 20, end_ms = 40\<rparr>, \<lparr>start_ms = 40, end_ms = 60\<rparr>])"
  "windows 50 70 20 = Some (Inr [\<lparr>start_ms = 40, end_ms = 60\<rparr>])"
  by (simp_all add: windows_def validate_def align_down_def next_boundary_def Let_def sdiv_nonneg
      DAY_MS_def sat_i64_def wrap_i64_def i64_MIN_def i64_MAX_def windows_loop.simps)

theorem windows_absolute_witness:
  "\<exists>x1 x2 y. windows 30 65 20 = Some (Inr [x1, x2]) \<and> windows 50 70 20 = Some (Inr [y])
     \<and> holds_ts x2 45 \<and> holds_ts y 45 \<and> x2 = y"
proof -
  let ?w = "\<lparr>start_ms = 40, end_ms = 60\<rparr> :: window"
  have "?w = ?w"
    by (rule windows_absolute [OF _ _ _ _ _ windows_sample(2,3), where t = 45])
      (simp_all add: horizon_def DAY_MS_def i64_MAX_def holds_ts_def)
  then show ?thesis using windows_sample by (simp add: holds_ts_def)
qed

text \<open>
  C12: \<^verbatim>\<open>windows_covering\<close> ends and leaves no gap: every timestamp in the half-open range from \<open>frm\<close>
  to \<open>until\<close> lies in one of the returned grid windows, including the window the bound falls into,
  and no window starts at or after the bound.
\<close>

theorem windows_covering_complete:
  assumes "0 < w" and "0 \<le> frm" and "frm < horizon" and "0 \<le> until" and "until \<le> horizon"
  shows "\<exists>ws. windows_covering frm until w = Some (Inr ws)
    \<and> (\<forall>t. frm \<le> t \<and> t < until \<longrightarrow> (\<exists>x \<in> set ws. holds_ts x t))
    \<and> (\<forall>x \<in> set ws. start_ms x < until \<and> grid_window w x)"
proof -
  from windows_covering_total [OF assms] obtain ws b where
    ws: "windows_covering frm until w = Some (Inr ws)" "chain (align_down frm w) ws b" "until \<le> b"
      "\<forall>x \<in> set ws. grid_window w x \<and> start_ms x < until" by blast
  have "\<exists>x \<in> set ws. holds_ts x t" if "frm \<le> t" "t < until" for t
    using chain_covers [OF ws(2), of t] align_down_parts(3) [OF assms(2,1)] ws(3) that by linarith
  then show ?thesis using ws by blast
qed

theorem windows_covering_complete_witness:
  "\<exists>ws. windows_covering 30 65 20 = Some (Inr ws)
    \<and> (\<forall>t. 30 \<le> t \<and> t < 65 \<longrightarrow> (\<exists>x \<in> set ws. holds_ts x t))"
  using windows_covering_complete [of 20 30 65] by (auto simp: horizon_def DAY_MS_def i64_MAX_def)

end
