(* ===== verification/S4_Manifest.thy ===== *)
theory S4_Manifest
  imports S4_Sink S4_Window
begin

text \<open>
  Drain manifests (\<^verbatim>\<open>s4logs-drain/src/manifest.rs\<close>): the proof that a window is archived, its JSON form
  with the version check, the keys parsed back, and the \<^verbatim>\<open>ManifestStore\<close> trait as a locale with its
  two implementations.
\<close>

section \<open>Data\<close>

definition MANIFEST_VERSION :: nat where "MANIFEST_VERSION = 1"

record manifest_object =
  mo_data_key :: string
  mo_etag :: "string option"
  mo_crc32c :: nat
  mo_body_len :: nat
  mo_raw_bytes :: "nat option"
  mo_storage_class :: "string option"
  mo_record_count :: nat
  mo_min_ts :: int
  mo_max_ts :: int

record manifest =
  m_version :: nat
  m_account :: string
  m_log_group :: string
  m_window_start_ms :: int
  m_window_end_ms :: int
  m_objects :: "manifest_object list"
  m_record_count :: nat
  m_completed_at_ms :: int
  m_drain_version :: string
  m_reconciled_at_ms :: "int option"
  m_reconciled_added :: "nat option"

datatype manifest_error =
    ManifestStorage string string string
  | ManifestEncode string
  | ManifestDecode string
  | ManifestUnsupportedVersion nat

section \<open>Operations\<close>

definition to_json_bytes :: "manifest serde \<Rightarrow> manifest \<Rightarrow> manifest_error + bytes" where
  "to_json_bytes J m = map_err ManifestEncode (to_json J m)"

definition from_json_bytes :: "manifest serde \<Rightarrow> bytes \<Rightarrow> manifest_error + manifest" where
  "from_json_bytes J b =
     (case from_json J b of
        Inl e \<Rightarrow> Inl (ManifestDecode e)
      | Inr m \<Rightarrow> if m_version m \<noteq> MANIFEST_VERSION then Inl (ManifestUnsupportedVersion (m_version m))
                 else Inr m)"

definition manifest_covers_window ::
    "manifest serde \<Rightarrow> bytes \<Rightarrow> string \<Rightarrow> string \<Rightarrow> int \<Rightarrow> int \<Rightarrow> bool" where
  "manifest_covers_window J b acct lg window_start_ms window_end_ms =
     (case from_json_bytes J b of
        Inr m \<Rightarrow> m_account m = acct \<and> m_log_group m = lg
                 \<and> m_window_start_ms m = window_start_ms \<and> m_window_end_ms m = window_end_ms
      | Inl _ \<Rightarrow> False)"

definition parse_manifest_key_window :: "string \<Rightarrow> window option" where
  "parse_manifest_key_window key =
     (case strip_prefix ''window='' (last_piece (CHR ''/'') key) of None \<Rightarrow> None
      | Some inner0 \<Rightarrow>
     (case strip_suffix ''.json'' inner0 of None \<Rightarrow> None
      | Some inner \<Rightarrow>
     (case split_once (CHR ''-'') inner of None \<Rightarrow> None
      | Some (s, e) \<Rightarrow>
     (case parse_i64 s of None \<Rightarrow> None
      | Some a \<Rightarrow>
     (case parse_i64 e of None \<Rightarrow> None
      | Some b \<Rightarrow> Some \<lparr>start_ms = a, end_ms = b\<rparr>)))))"

definition manifest_account_prefix :: "string \<Rightarrow> string \<Rightarrow> string" where
  "manifest_account_prefix p acct = norm_prefix p @ MANIFEST_SEG @ ''/account='' @ acct @ ''/''"

definition parse_manifest_key_log_group :: "string \<Rightarrow> string option" where
  "parse_manifest_key_log_group key =
     (case List.map_filter (strip_prefix ''loggroup='') (split_on (CHR ''/'') key) of
        [] \<Rightarrow> None
      | enc # _ \<Rightarrow> unsanitize_log_group enc)"

text \<open>The \<^verbatim>\<open>ManifestStore\<close> trait object; \<open>mf_list\<close> is \<^const>\<open>None\<close> when the listing does not end.\<close>

record 's manifest_store =
  mf_exists :: "string \<Rightarrow> 's \<Rightarrow> manifest_error + bool"
  mf_get :: "string \<Rightarrow> 's \<Rightarrow> manifest_error + bytes option"
  mf_put :: "string \<Rightarrow> bytes \<Rightarrow> 's \<Rightarrow> 's \<times> (manifest_error + unit)"
  mf_list :: "string \<Rightarrow> 's \<Rightarrow> (manifest_error + string list) option"

subsection \<open>MemoryManifestStore\<close>

type_synonym memory_manifests = "string \<rightharpoonup> bytes"

definition mms_keys :: "memory_manifests \<Rightarrow> string list" where
  "mms_keys m = sorted_list_of_set (dom m)"

definition mms_is_empty :: "memory_manifests \<Rightarrow> bool" where
  "mms_is_empty m \<longleftrightarrow> m = Map.empty"

definition mms_list :: "string \<Rightarrow> memory_manifests \<Rightarrow> string list" where
  "mms_list p m = takeWhile (starts_with p) (filter (\<lambda>k. p \<le> k) (mms_keys m))"

definition memory_manifest_store :: "memory_manifests manifest_store" where
  "memory_manifest_store =
     \<lparr>mf_exists = (\<lambda>key m. Inr (key \<in> dom m)),
      mf_get = (\<lambda>key m. Inr (m key)),
      mf_put = (\<lambda>key body m. (m(key \<mapsto> body), Inr ())),
      mf_list = (\<lambda>p m. Some (Inr (mms_list p m)))\<rparr>"

subsection \<open>ObjectStoreManifestStore\<close>

text \<open>The \<^verbatim>\<open>Display\<close> text of a store error.\<close>

fun store_error_text :: "store_error \<Rightarrow> string" where
  "store_error_text (Aws op key source) = ''s3 '' @ op @ '' failed for key '' @ key @ '': '' @ source"
| "store_error_text (NotFound key) = ''object not found: '' @ key"
| "store_error_text (StoreIndex _) = ''bad S4IX sidecar''"
| "store_error_text (StoreTsIndex _) = ''bad S4LT sidecar''"

definition storage_err :: "string \<Rightarrow> string \<Rightarrow> store_error \<Rightarrow> manifest_error" where
  "storage_err op key e = ManifestStorage op key (store_error_text e)"

definition osm_get :: "'s s3_client \<Rightarrow> object_store \<Rightarrow> string \<Rightarrow> 's \<Rightarrow> manifest_error + bytes option" where
  "osm_get cl st key s =
     (case get_bytes cl st key s of
        Inr b \<Rightarrow> Inr (Some b)
      | Inl (NotFound _) \<Rightarrow> Inr None
      | Inl e \<Rightarrow> Inl (storage_err ''get'' key e))"

definition object_manifest_store :: "'s s3_client \<Rightarrow> object_store \<Rightarrow> 's manifest_store" where
  "object_manifest_store cl st =
     \<lparr>mf_exists = (\<lambda>key s. map_err (storage_err ''exists'' key) (os_exists cl st key s)),
      mf_get = osm_get cl st,
      mf_put = (\<lambda>key body s. case put_bytes cl st key body s of
                  (s', Inl e) \<Rightarrow> (s', Inl (storage_err ''put'' key e))
                | (s', Inr _) \<Rightarrow> (s', Inr ())),
      mf_list = (\<lambda>p s. map_option (map_err (storage_err ''list'' p)) (list_keys cl st p s))\<rparr>"

section \<open>The ManifestStore contract\<close>

text \<open>
  \<open>view\<close> is the content of the store. An answered read tells the content, an acknowledged write
  changes exactly its key; a failed write may or may not have taken effect, on its own key only.
\<close>

locale manifest_view =
  fixes M :: "'s manifest_store" and view :: "'s \<Rightarrow> string \<rightharpoonup> bytes"
  assumes get_view: "mf_get M k s = Inr v \<Longrightarrow> v = view s k"
    and exists_view: "mf_exists M k s = Inr x \<Longrightarrow> x \<longleftrightarrow> view s k \<noteq> None"
    and put_view: "mf_put M k b s = (s', Inr u) \<Longrightarrow> view s' k = Some b"
    and put_frame: "mf_put M k b s = (s', r) \<Longrightarrow> k' \<noteq> k \<Longrightarrow> view s' k' = view s k'"
    and put_atomic: "mf_put M k b s = (s', r) \<Longrightarrow> view s' k = Some b \<or> view s' k = view s k"
begin

lemma get_after_put: "mf_put M k b s = (s', Inr u) \<Longrightarrow> mf_get M k s' = Inr v \<Longrightarrow> v = Some b"
  using get_view put_view by metis

lemma get_after_other_put:
  "mf_put M k b s = (s', r) \<Longrightarrow> k' \<noteq> k \<Longrightarrow> mf_get M k' s = Inr v \<Longrightarrow> mf_get M k' s' = Inr v' \<Longrightarrow> v' = v"
  using get_view put_frame by metis

end

interpretation memory_manifests: manifest_view memory_manifest_store "\<lambda>m. m"
  by unfold_locales (auto simp: memory_manifest_store_def)

definition get_sound :: "'s s3_client \<Rightarrow> string \<Rightarrow> ('s \<Rightarrow> string \<rightharpoonup> bytes) \<Rightarrow> bool" where
  "get_sound cl bkt objs \<longleftrightarrow>
     (\<forall>key s. (\<forall>b. s3_get_object cl bkt key None s = Inr (Inr b) \<longrightarrow> objs s key = Some b)
        \<and> (s3_get_object cl bkt key None s = Inl NoSuchKey \<longrightarrow> objs s key = None)
        \<and> (s3_head_object cl bkt key s = Inr () \<longrightarrow> objs s key \<noteq> None)
        \<and> (s3_head_object cl bkt key s = Inl HeadNotFound \<longrightarrow> objs s key = None))"

lemma get_bytes_not_found:
  "get_bytes cl st key s = Inl (NotFound k) \<Longrightarrow> s3_get_object cl (os_bucket st) key None s = Inl NoSuchKey"
  "get_bytes cl st key s = Inr b \<Longrightarrow> s3_get_object cl (os_bucket st) key None s = Inr (Inr b)"
  by (auto simp: get_bytes_def split: sum.splits s3_get_error.splits)

lemma object_manifest_view:
  assumes p: "put_law cl (os_bucket st) objs" and g: "get_sound cl (os_bucket st) objs"
  shows "manifest_view (object_manifest_store cl st) objs"
proof
  fix k s v assume "mf_get (object_manifest_store cl st) k s = Inr v"
  then show "v = objs s k"
    using g [unfolded get_sound_def, rule_format, of k s]
    by (auto simp: object_manifest_store_def osm_get_def dest: get_bytes_not_found
        split: sum.splits store_error.splits)
next
  fix k s x assume "mf_exists (object_manifest_store cl st) k s = Inr x"
  then show "x \<longleftrightarrow> objs s k \<noteq> None"
    using g [unfolded get_sound_def, rule_format, of k s]
    by (auto simp: object_manifest_store_def os_exists_def split: sum.splits s3_head_error.splits)
next
  fix k b s s' u assume "mf_put (object_manifest_store cl st) k b s = (s', Inr u)"
  then show "objs s' k = Some b"
    by (auto simp: object_manifest_store_def put_bytes_def split: prod.splits sum.splits
        dest: put_object_inner_frame(2) [OF p])
next
  fix k b s s' r k' assume "mf_put (object_manifest_store cl st) k b s = (s', r)" "k' \<noteq> k"
  then show "objs s' k' = objs s k'"
    by (auto simp: object_manifest_store_def put_bytes_def split: prod.splits sum.splits
        dest: put_object_inner_frame(1) [OF p])
next
  fix k b s s' r assume "mf_put (object_manifest_store cl st) k b s = (s', r)"
  then show "objs s' k = Some b \<or> objs s' k = objs s k"
    by (auto simp: object_manifest_store_def put_bytes_def split: prod.splits sum.splits
        dest: put_object_inner_frame(3) [OF p])
qed

section \<open>Keys and lists\<close>

lemma split_on_mid: "split_on c (xs @ c # ys) = split_on c xs @ split_on c ys"
proof (induction xs)
  case (Cons x xs)
  then show ?case by (cases "split_on c xs") auto
qed simp

lemma manifest_key_tail: "\<exists>pre. manifest_key p a g s e
    = pre @ CHR ''/'' # (''window='' @ show_int s @ CHR ''-'' # show_int e @ ''.json'')"
  by (rule exI [of _ "norm_prefix p @ MANIFEST_SEG @ ''/account='' @ a @ ''/loggroup=''
        @ sanitize_log_group g"]) (simp add: manifest_key_def group_tail_def)

lemma parse_manifest_key_window_key:
  assumes "0 \<le> s" and "is_i64 s" and "is_i64 e"
  shows "parse_manifest_key_window (manifest_key p a g s e) = Some \<lparr>start_ms = s, end_ms = e\<rparr>"
proof -
  obtain pre where k: "manifest_key p a g s e
      = pre @ CHR ''/'' # (''window='' @ show_int s @ CHR ''-'' # show_int e @ ''.json'')"
    using manifest_key_tail by blast
  have "CHR ''/'' \<notin> set (''window='' @ show_int s @ CHR ''-'' # show_int e @ ''.json'')"
    using show_int_free [of "CHR ''/''"] by simp
  then have b: "last_piece (CHR ''/'') (manifest_key p a g s e)
      = ''window='' @ show_int s @ CHR ''-'' # show_int e @ ''.json''"
    unfolding k by (rule last_piece_append)
  have i: "strip_suffix ''.json'' (show_int s @ CHR ''-'' # show_int e @ ''.json'')
      = Some (show_int s @ CHR ''-'' # show_int e)"
    using strip_suffix_append [of "''.json''" "show_int s @ CHR ''-'' # show_int e"] by simp
  have "CHR ''-'' \<notin> set (show_int s)" using assms(1) by simp
  then have "split_once (CHR ''-'') (show_int s @ CHR ''-'' # show_int e) = Some (show_int s, show_int e)"
    by (rule split_once_append)
  then show ?thesis
    using b i assms by (simp only: parse_manifest_key_window_def strip_prefix_append option.case
        prod.case parse_i64_show_int)
qed

lemma norm_prefix_slash: "norm_prefix p = [] \<or> (\<exists>q. norm_prefix p = q @ [CHR ''/''])"
  by (auto simp: norm_prefix_def Let_def)

lemma parse_manifest_key_group_key:
  assumes "List.map_filter (strip_prefix ''loggroup='') (split_on (CHR ''/'') (norm_prefix p)) = []"
    and "utf8_ok g" and "CHR ''/'' \<notin> set a"
  shows "parse_manifest_key_log_group (manifest_key p a g s e) = Some g"
proof -
  let ?w = "''window='' @ show_int s @ CHR ''-'' # show_int e @ ''.json''"
  let ?r = "''manifest'' @ CHR ''/'' # (''account='' @ a) @ CHR ''/'' # (''loggroup='' @ sanitize_log_group g)
      @ CHR ''/'' # ?w"
  have "CHR ''/'' \<notin> set ?w" using show_int_free [of "CHR ''/''"] by simp
  then have r: "split_on (CHR ''/'') ?r
      = [''manifest'', ''account='' @ a, ''loggroup='' @ sanitize_log_group g, ?w]"
    using assms(3) by (intro split_on_four) simp_all
  have k: "manifest_key p a g s e = norm_prefix p @ ?r"
    by (simp add: manifest_key_def group_tail_def MANIFEST_SEG_def)
  have "List.map_filter (strip_prefix ''loggroup='') (split_on (CHR ''/'') (norm_prefix p @ ?r))
      = List.map_filter (strip_prefix ''loggroup='') (split_on (CHR ''/'') ?r)"
    using norm_prefix_slash [of p] assms(1)
    by (auto simp: split_on_mid map_filter_def split: if_splits)
  also have "\<dots> = [sanitize_log_group g]"
    unfolding r by (simp add: map_filter_def strip_prefix_def)
  finally show ?thesis
    using assms(2) by (simp add: parse_manifest_key_log_group_def k unsanitize_sanitize)
qed

end
