(* ===== verification/S4_Cw.thy ===== *)
theory S4_Cw
  imports S4_Record
begin

text \<open>
  The CloudWatch access layer (\<^verbatim>\<open>s4logs-drain/src/cw.rs\<close>): the \<^verbatim>\<open>CwSource\<close> trait as a record of
  functions, the backoff loop with its deterministic jitter, and the AWS implementation with its
  pagination loops. The SDK client is an argument; the answer of one call may depend on the number
  of the attempt inside the backoff loop.
\<close>

section \<open>Data\<close>

record cw_event =
  ev_timestamp :: int
  ev_message :: string
  ev_log_stream_name :: string
  ev_ingestion_time :: "int option"
  ev_event_id :: "string option"

record cw_event_page =
  pg_events :: "cw_event list"
  pg_next_token :: "string option"

record log_group_info =
  lg_retention_days :: "int option"
  lg_stored_bytes :: "int option"
  lg_creation_time_ms :: int

datatype cw_error =
    CwThrottled string string nat string
  | CwApi string string string
  | CwGroupNotFound string
  | CwMalformed string string

text \<open>
  The \<^verbatim>\<open>CwSource\<close> trait. Reads are functions of their arguments (what CloudWatch holds does not
  change while a job runs); the one write acts on the state \<open>'c\<close> of the service.
\<close>

record 'c cw_source =
  filter_log_events :: "string \<Rightarrow> int \<Rightarrow> int \<Rightarrow> string option \<Rightarrow> string list option \<Rightarrow> cw_error + cw_event_page"
  describe_log_group :: "string \<Rightarrow> cw_error + log_group_info"
  list_log_streams :: "string \<Rightarrow> string option \<Rightarrow> cw_error + string list"
  list_log_groups :: "string option \<Rightarrow> cw_error + (string \<times> log_group_info) list"
  put_retention_policy :: "string \<Rightarrow> int \<Rightarrow> 'c \<Rightarrow> 'c \<times> (cw_error + unit)"

section \<open>Backoff\<close>

record backoff_config =
  base_ms :: nat
  cap_ms :: nat
  max_attempts :: nat

definition backoff_default :: backoff_config where
  "backoff_default = \<lparr>base_ms = 200, cap_ms = 10000, max_attempts = 8\<rparr>"

text \<open>\<open>hash\<close> is the \<^verbatim>\<open>DefaultHasher\<close> value of the pair of key and attempt.\<close>

definition backoff_exp :: "backoff_config \<Rightarrow> nat \<Rightarrow> nat" where
  "backoff_exp c attempt = max 1 (min (cap_ms c) (sat_u64 (base_ms c * 2 ^ min 20 (attempt - 1))))"

definition delay_ms :: "(string \<Rightarrow> nat \<Rightarrow> nat) \<Rightarrow> backoff_config \<Rightarrow> nat \<Rightarrow> string \<Rightarrow> nat" where
  "delay_ms hash c attempt key =
     (let e = backoff_exp c attempt in e div 2 + hash key attempt mod (e div 2 + 1))"

datatype call_failure = Throttled string | Fatal string

text \<open>
  \<open>call n\<close> is the outcome of the \<open>n\<close>-th invocation; the result carries the delays slept and the number
  of calls made.
\<close>

function with_backoff_loop ::
    "(string \<Rightarrow> nat \<Rightarrow> nat) \<Rightarrow> backoff_config \<Rightarrow> string \<Rightarrow> string \<Rightarrow> (nat \<Rightarrow> call_failure + 'a)
     \<Rightarrow> nat \<Rightarrow> nat list \<Rightarrow> nat list \<times> nat \<times> (cw_error + 'a)" where
  "with_backoff_loop hash c op lg call attempts0 slept =
     (let attempts = attempts0 + 1 in
      case call attempts of
        Inr v \<Rightarrow> (slept, attempts, Inr v)
      | Inl (Fatal m) \<Rightarrow> (slept, attempts, Inl (CwApi op lg m))
      | Inl (Throttled m) \<Rightarrow>
          if attempts \<ge> max_attempts c then (slept, attempts, Inl (CwThrottled op lg attempts m))
          else with_backoff_loop hash c op lg call attempts (slept @ [delay_ms hash c attempts lg]))"
  by pat_completeness auto
termination by (relation "measure (\<lambda>(_, c, _, _, _, n, _). max_attempts c - n)") auto

declare with_backoff_loop.simps [simp del]

definition with_backoff ::
    "(string \<Rightarrow> nat \<Rightarrow> nat) \<Rightarrow> backoff_config \<Rightarrow> string \<Rightarrow> string \<Rightarrow> (nat \<Rightarrow> call_failure + 'a) \<Rightarrow> cw_error + 'a" where
  "with_backoff hash c op lg call = snd (snd (with_backoff_loop hash c op lg call 0 []))"

definition THROTTLE_CODES :: "string list" where
  "THROTTLE_CODES = [''ThrottlingException'', ''Throttling'', ''TooManyRequestsException'',
     ''RequestLimitExceeded'']"

text \<open>An SDK error: the service error code, if it is a service error that has one, and its text.\<close>

record sdk_error =
  sdk_code :: "string option"
  sdk_text :: string

definition classify :: "sdk_error \<Rightarrow> call_failure" where
  "classify e =
     (let throttled = (case sdk_code e of None \<Rightarrow> False | Some c \<Rightarrow> c \<in> set THROTTLE_CODES)
      in if throttled then Throttled (sdk_text e) else Fatal (sdk_text e))"

section \<open>AwsCwSource\<close>

record sdk_event =
  se_timestamp :: "int option"
  se_message :: "string option"
  se_log_stream_name :: "string option"
  se_ingestion_time :: "int option"
  se_event_id :: "string option"

record sdk_log_group =
  sg_log_group_name :: "string option"
  sg_retention_in_days :: "int option"
  sg_stored_bytes :: "int option"
  sg_creation_time :: "int option"

text \<open>
  The SDK requests with the fields the source sets, the attempt number last. FilterLogEvents has
  the inclusive end time; every listing answers with an optional list and the next token.
\<close>

record 'c cw_client =
  sdk_filter_log_events :: "string \<Rightarrow> int \<Rightarrow> int \<Rightarrow> string list option \<Rightarrow> string option \<Rightarrow> nat
     \<Rightarrow> sdk_error + (sdk_event list option \<times> string option)"
  sdk_describe_log_groups :: "string option \<Rightarrow> string option \<Rightarrow> nat
     \<Rightarrow> sdk_error + (sdk_log_group list option \<times> string option)"
  sdk_describe_log_streams :: "string \<Rightarrow> string option \<Rightarrow> string option \<Rightarrow> nat
     \<Rightarrow> sdk_error + (string option list option \<times> string option)"
  sdk_put_retention_policy :: "string \<Rightarrow> int \<Rightarrow> nat \<Rightarrow> 'c \<Rightarrow> 'c \<times> (sdk_error + unit)"

definition or_default :: "'a list option \<Rightarrow> 'a list" where
  "or_default x = (case x of None \<Rightarrow> [] | Some v \<Rightarrow> v)"

definition event_of_sdk :: "sdk_event \<Rightarrow> cw_event option" where
  "event_of_sdk e = map_option (\<lambda>ts. \<lparr>ev_timestamp = ts, ev_message = or_default (se_message e),
     ev_log_stream_name = or_default (se_log_stream_name e), ev_ingestion_time = se_ingestion_time e,
     ev_event_id = se_event_id e\<rparr>) (se_timestamp e)"

definition aws_filter_log_events ::
    "(string \<Rightarrow> nat \<Rightarrow> nat) \<Rightarrow> 'c cw_client \<Rightarrow> backoff_config \<Rightarrow> string \<Rightarrow> int \<Rightarrow> int
     \<Rightarrow> string option \<Rightarrow> string list option \<Rightarrow> cw_error + cw_event_page" where
  "aws_filter_log_events hash cl c lg start end_exclusive tok streams =
     (case with_backoff hash c ''FilterLogEvents'' lg
        (\<lambda>n. map_err classify
           (sdk_filter_log_events cl lg start (sat_i64 (end_exclusive - 1)) streams tok n)) of
        Inl e \<Rightarrow> Inl e
      | Inr (events, next) \<Rightarrow>
          Inr \<lparr>pg_events = List.map_filter event_of_sdk (or_default events), pg_next_token = next\<rparr>)"

definition group_info :: "sdk_log_group \<Rightarrow> int \<Rightarrow> log_group_info" where
  "group_info g created = \<lparr>lg_retention_days = sg_retention_in_days g, lg_stored_bytes = sg_stored_bytes g,
     lg_creation_time_ms = created\<rparr>"

partial_function (option) aws_describe_loop ::
    "(string \<Rightarrow> nat \<Rightarrow> nat) \<Rightarrow> 'c cw_client \<Rightarrow> backoff_config \<Rightarrow> string \<Rightarrow> string option
     \<Rightarrow> (cw_error + log_group_info) option" where
  "aws_describe_loop hash cl c lg tok =
     (case with_backoff hash c ''DescribeLogGroups'' lg
        (\<lambda>n. map_err classify (sdk_describe_log_groups cl (Some lg) tok n)) of
        Inl e \<Rightarrow> Some (Inl e)
      | Inr (groups, next) \<Rightarrow>
         (case List.find (\<lambda>g. sg_log_group_name g = Some lg) (or_default groups) of
            Some g \<Rightarrow>
              Some (case sg_creation_time g of
                      None \<Rightarrow> Inl (CwMalformed ''log group creation_time'' lg)
                    | Some t \<Rightarrow> Inr (group_info g t))
          | None \<Rightarrow>
             (case next of
                None \<Rightarrow> Some (Inl (CwGroupNotFound lg))
              | Some t \<Rightarrow> aws_describe_loop hash cl c lg (Some t))))"

definition aws_describe_log_group ::
    "(string \<Rightarrow> nat \<Rightarrow> nat) \<Rightarrow> 'c cw_client \<Rightarrow> backoff_config \<Rightarrow> string \<Rightarrow> (cw_error + log_group_info) option" where
  "aws_describe_log_group hash cl c lg = aws_describe_loop hash cl c lg None"

partial_function (option) aws_streams_loop ::
    "(string \<Rightarrow> nat \<Rightarrow> nat) \<Rightarrow> 'c cw_client \<Rightarrow> backoff_config \<Rightarrow> string \<Rightarrow> string option
     \<Rightarrow> string option \<Rightarrow> string list \<Rightarrow> (cw_error + string list) option" where
  "aws_streams_loop hash cl c lg hint tok out =
     (case with_backoff hash c ''DescribeLogStreams'' lg
        (\<lambda>n. map_err classify (sdk_describe_log_streams cl lg hint tok n)) of
        Inl e \<Rightarrow> Some (Inl e)
      | Inr (names, next) \<Rightarrow>
          (case next of
             None \<Rightarrow> Some (Inr (out @ List.map_filter id (or_default names)))
           | Some t \<Rightarrow> aws_streams_loop hash cl c lg hint (Some t)
                         (out @ List.map_filter id (or_default names))))"

definition aws_list_log_streams ::
    "(string \<Rightarrow> nat \<Rightarrow> nat) \<Rightarrow> 'c cw_client \<Rightarrow> backoff_config \<Rightarrow> string \<Rightarrow> string option
     \<Rightarrow> (cw_error + string list) option" where
  "aws_list_log_streams hash cl c lg hint = aws_streams_loop hash cl c lg hint None []"

definition group_entry :: "sdk_log_group \<Rightarrow> (string \<times> log_group_info) option" where
  "group_entry g =
     (case sg_log_group_name g of
        None \<Rightarrow> None
      | Some nm \<Rightarrow> (case sg_creation_time g of None \<Rightarrow> None | Some t \<Rightarrow> Some (nm, group_info g t)))"

partial_function (option) aws_groups_loop ::
    "(string \<Rightarrow> nat \<Rightarrow> nat) \<Rightarrow> 'c cw_client \<Rightarrow> backoff_config \<Rightarrow> string option \<Rightarrow> string option
     \<Rightarrow> (string \<times> log_group_info) list \<Rightarrow> (cw_error + (string \<times> log_group_info) list) option" where
  "aws_groups_loop hash cl c hint tok out =
     (case with_backoff hash c ''DescribeLogGroups'' (case hint of None \<Rightarrow> ''*'' | Some h \<Rightarrow> h)
        (\<lambda>n. map_err classify (sdk_describe_log_groups cl hint tok n)) of
        Inl e \<Rightarrow> Some (Inl e)
      | Inr (groups, next) \<Rightarrow>
          (case next of
             None \<Rightarrow> Some (Inr (out @ List.map_filter group_entry (or_default groups)))
           | Some t \<Rightarrow> aws_groups_loop hash cl c hint (Some t)
                         (out @ List.map_filter group_entry (or_default groups))))"

definition aws_list_log_groups ::
    "(string \<Rightarrow> nat \<Rightarrow> nat) \<Rightarrow> 'c cw_client \<Rightarrow> backoff_config \<Rightarrow> string option
     \<Rightarrow> (cw_error + (string \<times> log_group_info) list) option" where
  "aws_list_log_groups hash cl c hint = aws_groups_loop hash cl c hint None []"

text \<open>The retention write changes the service, so its attempts are threaded through the state.\<close>

function aws_put_retention_loop ::
    "(string \<Rightarrow> nat \<Rightarrow> nat) \<Rightarrow> 'c cw_client \<Rightarrow> backoff_config \<Rightarrow> string \<Rightarrow> int \<Rightarrow> nat \<Rightarrow> 'c
     \<Rightarrow> 'c \<times> (cw_error + unit)" where
  "aws_put_retention_loop hash cl c lg days attempts0 s =
     (let attempts = attempts0 + 1 in
      case sdk_put_retention_policy cl lg days attempts s of
        (s', Inr _) \<Rightarrow> (s', Inr ())
      | (s', Inl e) \<Rightarrow>
         (case classify e of
            Fatal m \<Rightarrow> (s', Inl (CwApi ''PutRetentionPolicy'' lg m))
          | Throttled m \<Rightarrow>
              if attempts \<ge> max_attempts c
              then (s', Inl (CwThrottled ''PutRetentionPolicy'' lg attempts m))
              else aws_put_retention_loop hash cl c lg days attempts s'))"
  by pat_completeness auto
termination by (relation "measure (\<lambda>(_, _, c, _, _, n, _). max_attempts c - n)") auto

declare aws_put_retention_loop.simps [simp del]

definition aws_put_retention_policy ::
    "(string \<Rightarrow> nat \<Rightarrow> nat) \<Rightarrow> 'c cw_client \<Rightarrow> backoff_config \<Rightarrow> string \<Rightarrow> int \<Rightarrow> 'c \<Rightarrow> 'c \<times> (cw_error + unit)" where
  "aws_put_retention_policy hash cl c lg days s = aws_put_retention_loop hash cl c lg days 0 s"

section \<open>Bounds of the backoff loop\<close>

lemma backoff_exp_bounds: "1 \<le> backoff_exp c attempt" "backoff_exp c attempt \<le> max 1 (cap_ms c)"
  by (simp_all add: backoff_exp_def)

lemma delay_ms_bounds:
  "backoff_exp c a div 2 \<le> delay_ms hash c a key" "delay_ms hash c a key \<le> backoff_exp c a"
proof -
  let ?e = "backoff_exp c a"
  have "hash key a mod (?e div 2 + 1) \<le> ?e div 2"
    using mod_less_divisor [of "?e div 2 + 1" "hash key a"] by linarith
  then show "?e div 2 \<le> delay_ms hash c a key" "delay_ms hash c a key \<le> ?e"
    unfolding delay_ms_def Let_def by linarith+
qed

lemma with_backoff_loop_outcome:
  assumes "with_backoff_loop hash c op lg call k slept = (ds, n, r)"
  shows "k < n \<and> n \<le> max (k + 1) (max_attempts c)
    \<and> (\<forall>i. k < i \<and> i < n \<longrightarrow> (\<exists>m. call i = Inl (Throttled m)))
    \<and> ds = slept @ map (\<lambda>i. delay_ms hash c i lg) [Suc k..<n]
    \<and> (case r of Inr v \<Rightarrow> call n = Inr v
       | Inl e \<Rightarrow> (\<exists>m. call n = Inl (Fatal m) \<and> e = CwApi op lg m)
          \<or> (\<exists>m. call n = Inl (Throttled m) \<and> e = CwThrottled op lg n m \<and> max_attempts c \<le> n))"
  using assms
proof (induction hash c op lg call k slept arbitrary: ds n r rule: with_backoff_loop.induct)
  case (1 hash c op lg call k slept)
  consider (ok) v where "call (k + 1) = Inr v" | (fatal) m where "call (k + 1) = Inl (Fatal m)"
    | (give_up) m where "call (k + 1) = Inl (Throttled m)" "max_attempts c \<le> k + 1"
    | (retry) m where "call (k + 1) = Inl (Throttled m)" "k + 1 < max_attempts c"
    by (metis call_failure.exhaust not_le sum.exhaust)
  then show ?case
  proof cases
    case retry
    then have "with_backoff_loop hash c op lg call (k + 1) (slept @ [delay_ms hash c (k + 1) lg]) = (ds, n, r)"
      using 1(2) by (subst (asm) with_backoff_loop.simps) (simp add: Let_def)
    note IH = 1(1) [OF refl retry(1) refl _ this]
    have *: "(\<exists>m. call i = Inl (Throttled m))" if "k < i" "i < n" for i
      using IH retry that by (cases "i = k + 1") auto
    show ?thesis
      using IH retry * by (auto simp: upt_conv_Cons split: sum.splits)
  qed (use 1(2) in \<open>subst (asm) with_backoff_loop.simps, force simp: Let_def\<close>)+
qed

section \<open>Properties\<close>



end
