(* ===== verification/S4_Shard.thy ===== *)
theory S4_Shard
  imports S4_Cw S4_Window "HOL-Library.List_Lexorder" "HOL-Library.Char_ord"
begin

text \<open>
  Stream sharding and paging (\<^verbatim>\<open>s4logs-drain/src/shard.rs\<close>) and the discovery of log groups
  (\<^verbatim>\<open>s4logs-drain/src/discover.rs\<close>). The merge of concurrent page streams takes a schedule as an
  argument, so that a lemma about every schedule is one about every completion order.
\<close>

section \<open>Sharding\<close>

definition MAX_STREAMS_PER_FILTER :: nat where "MAX_STREAMS_PER_FILTER = 100"

definition div_ceil :: "nat \<Rightarrow> nat \<Rightarrow> nat" where
  "div_ceil a b = (a + b - 1) div b"

fun partition_loop :: "nat \<Rightarrow> nat \<Rightarrow> string list \<Rightarrow> string list list \<Rightarrow> string list list" where
  "partition_loop n i [] shards = shards"
| "partition_loop n i (s # ss) shards =
     partition_loop n (i + 1) ss (shards[i mod n := shards ! (i mod n) @ [s]])"

definition shard_count :: "nat \<Rightarrow> nat \<Rightarrow> nat \<Rightarrow> nat" where
  "shard_count len requested_shards max_per_shard =
     min len (max (max requested_shards 1) (div_ceil len (max max_per_shard 1)))"

definition partition_streams :: "string list \<Rightarrow> nat \<Rightarrow> nat \<Rightarrow> string list list" where
  "partition_streams streams requested_shards max_per_shard =
     (if streams = [] then []
      else let n = shard_count (length streams) requested_shards max_per_shard
           in partition_loop n 0 streams (replicate n []))"

text \<open>
  \<^verbatim>\<open>page_stream\<close>: the pages of one (window, stream filter), ending after the page without a token or
  after the first error; \<^const>\<open>None\<close> for a token chain without end.
\<close>

partial_function (option) page_loop ::
    "'c cw_source \<Rightarrow> string \<Rightarrow> window \<Rightarrow> string list option \<Rightarrow> string option
     \<Rightarrow> (cw_error + cw_event list) list \<Rightarrow> (cw_error + cw_event list) list option" where
  "page_loop cw lg w streams tok acc =
     (case filter_log_events cw lg (start_ms w) (end_ms w) tok streams of
        Inl e \<Rightarrow> Some (acc @ [Inl e])
      | Inr page \<Rightarrow>
         (case pg_next_token page of
            None \<Rightarrow> Some (acc @ [Inr (pg_events page)])
          | Some t \<Rightarrow> page_loop cw lg w streams (Some t) (acc @ [Inr (pg_events page)])))"

definition page_stream ::
    "'c cw_source \<Rightarrow> string \<Rightarrow> window \<Rightarrow> string list option \<Rightarrow> (cw_error + cw_event list) list option" where
  "page_stream cw lg w streams = page_loop cw lg w streams None []"

text \<open>\<^verbatim>\<open>select_all\<close>: one item of some stream that still has one, as the schedule says.\<close>

lemma sum_list_update_tl:
  assumes "i < length xss" and "xss ! i \<noteq> []"
  shows "sum_list (map length (xss[i := tl (xss ! i)])) < sum_list (map length xss)"
  using assms by (induction xss arbitrary: i) (auto simp: nth_Cons split: nat.splits)

lemma sum_list_live: "sum_list (map length (filter (\<lambda>xs. xs \<noteq> []) xss)) = sum_list (map length xss)"
  by (induction xss) auto

function select_all :: "nat list \<Rightarrow> 'a list list \<Rightarrow> 'a list" where
  "select_all sched xss =
     (let live = filter (\<lambda>xs. xs \<noteq> []) xss in
      if live = [] then []
      else let i = (case sched of [] \<Rightarrow> 0 | k # _ \<Rightarrow> k) mod length live
           in hd (live ! i) # select_all (tl sched) (live[i := tl (live ! i)]))"
  by pat_completeness auto
termination
proof (relation "measure (\<lambda>(sched, xss). sum_list (map length xss))"; clarsimp)
  fix sched :: "nat list" and xss :: "'a list list"
  assume ne: "filter (\<lambda>xs. xs \<noteq> []) xss \<noteq> []"
  let ?live = "filter (\<lambda>xs. xs \<noteq> []) xss"
  let ?i = "(case sched of [] \<Rightarrow> 0 | k # _ \<Rightarrow> k) mod length ?live"
  have i: "?i < length ?live" using ne by (simp del: filter_empty_conv)
  then have "?live ! ?i \<noteq> []" using nth_mem [OF i] by auto
  with i show "sum_list (map length (?live[?i := tl (?live ! ?i)])) < sum_list (map length xss)"
    using sum_list_update_tl sum_list_live by metis
qed

declare select_all.simps [simp del]

definition event_pages ::
    "nat list \<Rightarrow> 'c cw_source \<Rightarrow> string \<Rightarrow> window \<Rightarrow> string list list option
     \<Rightarrow> (cw_error + cw_event list) list option" where
  "event_pages sched cw lg w shards =
     (case shards of
        None \<Rightarrow> page_stream cw lg w None
      | Some [] \<Rightarrow> page_stream cw lg w None
      | Some [single] \<Rightarrow> page_stream cw lg w (Some single)
      | Some shs \<Rightarrow>
          map_option (select_all sched)
            (those (map (\<lambda>s. page_stream cw lg w (Some s)) shs)))"

section \<open>Lemmas on sharding\<close>

lemma length_partition_loop [simp]: "length (partition_loop n i ss shards) = length shards"
  by (induction ss arbitrary: i shards) auto

lemma mset_concat_update:
  assumes "k < length xss"
  shows "mset (concat (xss[k := xss ! k @ ys])) = mset (concat xss) + mset ys"
  using assms
proof (induction xss arbitrary: k)
  case (Cons xs xss)
  then show ?case by (cases k) (auto simp: union_assoc union_commute union_lcomm)
qed simp

lemma partition_loop_mset:
  assumes "0 < n" and "length shards = n"
  shows "mset (concat (partition_loop n i ss shards)) = mset (concat shards) + mset ss"
  using assms
proof (induction ss arbitrary: i shards)
  case (Cons s ss)
  then show ?case
    using mset_concat_update [of "i mod n" shards "[s]"] by simp
qed simp

text \<open>After \<open>i\<close> names shard \<open>k\<close> holds those with an index congruent to \<open>k\<close>.\<close>

lemma rr_count_Suc:
  assumes "k < n"
  shows "(Suc i + (n - 1 - k)) div n = (i + (n - 1 - k)) div n + (if i mod n = k then 1 else 0)"
proof -
  let ?x = "i + (n - 1 - k)"
  have n: "0 < n" using assms by simp
  have "Suc ?x mod n = 0 \<longleftrightarrow> i mod n = k"
  proof -
    have "Suc ?x + k = i + n" using assms by simp
    then have "(Suc ?x + k) mod n = i mod n" by simp
    then have e: "(Suc ?x mod n + k) mod n = i mod n" by (simp add: mod_add_left_eq)
    show ?thesis
    proof
      assume "Suc ?x mod n = 0"
      then show "i mod n = k" using e assms by simp
    next
      assume a: "i mod n = k"
      have b: "Suc ?x mod n < n" using n by simp
      show "Suc ?x mod n = 0"
      proof (cases "Suc ?x mod n + k < n")
        case True
        then show ?thesis using mod_less [OF True] e a by linarith
      next
        case False
        then have "(Suc ?x mod n + k) mod n = (Suc ?x mod n + k - n) mod n"
          using le_mod_geq [of n "Suc ?x mod n + k"] by linarith
        also have "\<dots> = Suc ?x mod n + k - n" using b assms by (intro mod_less) linarith
        finally have "(Suc ?x mod n + k) mod n = Suc ?x mod n + k - n" .
        then show ?thesis using e a b False by linarith
      qed
    qed
  qed
  then show ?thesis by (simp add: div_Suc)
qed

lemma partition_loop_lengths:
  assumes "length shards = n" and "\<forall>k < n. length (shards ! k) = (i + (n - 1 - k)) div n" and "k < n"
  shows "length (partition_loop n i ss shards ! k) = (i + length ss + (n - 1 - k)) div n"
  using assms
proof (induction ss arbitrary: i shards)
  case (Cons s ss)
  let ?sh = "shards[i mod n := shards ! (i mod n) @ [s]]"
  have "\<forall>k < n. length (?sh ! k) = (i + 1 + (n - 1 - k)) div n"
    using Cons.prems rr_count_Suc [of _ n i] by (auto simp: nth_list_update)
  from Cons.IH [OF _ this Cons.prems(3)] Cons.prems(1) show ?case by simp
qed simp

lemma shard_count_pos: "0 < len \<Longrightarrow> 0 < shard_count len r m"
  by (simp add: shard_count_def)

lemma partition_length:
  assumes "ss \<noteq> []" and "k < shard_count (length ss) r m"
  shows "length (partition_streams ss r m ! k)
    = (length ss + (shard_count (length ss) r m - 1 - k)) div shard_count (length ss) r m"
  using assms partition_loop_lengths [of "replicate (shard_count (length ss) r m) []" _ 0 k ss]
  by (simp add: partition_streams_def Let_def)

lemma shard_size_bound:
  assumes "0 < len" and "k < shard_count len r m"
  shows "(len + (shard_count len r m - 1 - k)) div shard_count len r m \<le> max m 1"
proof -
  let ?n = "shard_count len r m" and ?m = "max m 1"
  have n: "0 < ?n" using assms by simp
  have "len \<le> ?n * ?m"
  proof (cases "?n = len")
    case True
    then show ?thesis by (metis le_add1 max.cobounded2 mult.right_neutral mult_le_mono2)
  next
    case False
    then have "div_ceil len ?m \<le> ?n" by (auto simp: shard_count_def min_def)
    moreover have "len \<le> div_ceil len ?m * ?m"
    proof -
      have m: "0 < ?m" by simp
      show ?thesis
        using div_mult_mod_eq [of "len + ?m - 1" ?m] mod_less_divisor [OF m, of "len + ?m - 1"] m
        unfolding div_ceil_def by linarith
    qed
    ultimately show ?thesis by (meson le_trans mult_le_mono1)
  qed
  then have "len + (?n - 1 - k) < ?n * (?m + 1)" using n by simp
  then have "(len + (?n - 1 - k)) div ?n < ?m + 1" by (simp add: less_mult_imp_div_less mult.commute)
  then show ?thesis by simp
qed

section \<open>Lemmas on merging\<close>

lemma mset_live: "mset (concat (filter (\<lambda>xs. xs \<noteq> []) xss)) = mset (concat xss)"
  by (induction xss) auto

lemma mset_take_one:
  assumes "i < length xss" and "xss ! i \<noteq> []"
  shows "add_mset (hd (xss ! i)) (mset (concat (xss[i := tl (xss ! i)]))) = mset (concat xss)"
  using assms
proof (induction xss arbitrary: i)
  case (Cons xs xss)
  then show ?case by (cases i; cases xs) (auto simp: nth_Cons split: nat.splits)
qed simp

lemma select_all_mset: "mset (select_all sched xss) = mset (concat xss)"
proof (induction sched xss rule: select_all.induct)
  case (1 sched xss)
  let ?live = "filter (\<lambda>xs. xs \<noteq> []) xss"
  let ?i = "(case sched of [] \<Rightarrow> 0 | k # _ \<Rightarrow> k) mod length ?live"
  show ?case
  proof (cases "?live = []")
    case True
    then show ?thesis using mset_live [of xss] by (subst select_all.simps) (simp add: Let_def)
  next
    case False
    then have i: "?i < length ?live" by (simp del: filter_empty_conv)
    then have ne: "?live ! ?i \<noteq> []" using nth_mem [OF i] by auto
    have "select_all sched xss = hd (?live ! ?i) # select_all (tl sched) (?live[?i := tl (?live ! ?i)])"
      using False by (subst select_all.simps) (simp add: Let_def del: filter_empty_conv)
    then have "mset (select_all sched xss)
        = add_mset (hd (?live ! ?i)) (mset (concat (?live[?i := tl (?live ! ?i)])))"
      using 1 [OF refl False refl] by simp
    also have "\<dots> = mset (concat xss)" using mset_take_one [OF i ne] mset_live by simp
    finally show ?thesis .
  qed
qed

section \<open>Discovery\<close>

datatype discover_error = DiscGlob string string | DiscCw cw_error

definition GLOB_META :: "char set" where
  "GLOB_META = {CHR ''*'', CHR ''?'', CHR ''['', CHR '']'', CHR 0x7B, CHR 0x7D, CHR 0x5C}"

datatype 'm group_selector = Exact string | Glob string 'm string | All

definition selector_parse :: "'m globset \<Rightarrow> string \<Rightarrow> discover_error + 'm group_selector" where
  "selector_parse G pattern =
     (if \<not> (\<exists>c \<in> set pattern. c \<in> GLOB_META) then Inr (Exact pattern)
      else case glob_new G pattern of
        Inl e \<Rightarrow> Inl (DiscGlob pattern e)
      | Inr m \<Rightarrow> Inr (Glob pattern m (takeWhile (\<lambda>c. c \<notin> GLOB_META) pattern)))"

fun selector_matches :: "'m globset \<Rightarrow> 'm group_selector \<Rightarrow> string \<Rightarrow> bool" where
  "selector_matches G (Exact n) name \<longleftrightarrow> n = name"
| "selector_matches G (Glob _ m _) name \<longleftrightarrow> glob_is_match G m name"
| "selector_matches G All name \<longleftrightarrow> True"

text \<open>\<^verbatim>\<open>dedup_by\<close> on the name: an entry is dropped when its name is that of the last kept one.\<close>

fun dedup_from :: "string \<Rightarrow> (string \<times> 'a) list \<Rightarrow> (string \<times> 'a) list" where
  "dedup_from n [] = []"
| "dedup_from n (y # ys) = (if fst y = n then dedup_from n ys else y # dedup_from (fst y) ys)"

fun dedup_by_name :: "(string \<times> 'a) list \<Rightarrow> (string \<times> 'a) list" where
  "dedup_by_name [] = []"
| "dedup_by_name (x # xs) = x # dedup_from (fst x) xs"

definition discover_log_groups ::
    "'m globset \<Rightarrow> 'c cw_source \<Rightarrow> 'm group_selector \<Rightarrow> discover_error + (string \<times> log_group_info) list" where
  "discover_log_groups G cw sel =
     (case (case sel of
              Exact nm \<Rightarrow> (case describe_log_group cw nm of Inl e \<Rightarrow> Inl e | Inr i \<Rightarrow> Inr [(nm, i)])
            | All \<Rightarrow> list_log_groups cw None
            | Glob _ m hint \<Rightarrow>
                (case list_log_groups cw (if hint \<noteq> [] then Some hint else None) of
                   Inl e \<Rightarrow> Inl e
                 | Inr gs \<Rightarrow> Inr (filter (\<lambda>(nm, _). glob_is_match G m nm) gs))) of
        Inl e \<Rightarrow> Inl (DiscCw e)
      | Inr groups \<Rightarrow> Inr (dedup_by_name (sort_key fst groups)))"

lemma dedup_from_set:
  "sorted (map fst ys) \<Longrightarrow> (\<forall>y \<in> set ys. n \<le> fst y) \<Longrightarrow>
     fst ` set (dedup_from n ys) = fst ` set ys - {n} \<and> set (dedup_from n ys) \<subseteq> set ys
     \<and> sorted_wrt (<) (n # map fst (dedup_from n ys))"
proof (induction ys arbitrary: n)
  case (Cons y ys)
  show ?case
  proof (cases "fst y = n")
    case True
    then show ?thesis using Cons.IH [of n] Cons.prems by auto
  next
    case False
    then have lt: "n < fst y" using Cons.prems by (simp add: order_less_le)
    have IH: "fst ` set (dedup_from (fst y) ys) = fst ` set ys - {fst y}"
      "set (dedup_from (fst y) ys) \<subseteq> set ys"
      "sorted_wrt (<) (fst y # map fst (dedup_from (fst y) ys))"
      using Cons.IH [of "fst y"] Cons.prems by auto
    have "n \<notin> fst ` set ys" using lt Cons.prems by (auto simp: not_le)
    then show ?thesis using IH lt False by (auto intro: less_trans)
  qed
qed simp

lemma dedup_by_name_sorted:
  assumes "sorted (map fst xs)"
  shows "sorted_wrt (<) (map fst (dedup_by_name xs)) \<and> fst ` set (dedup_by_name xs) = fst ` set xs
    \<and> set (dedup_by_name xs) \<subseteq> set xs"
proof (cases xs)
  case (Cons x ys)
  then have "sorted (map fst ys)" "\<forall>y \<in> set ys. fst x \<le> fst y" using assms by auto
  note d = dedup_from_set [OF this]
  have "fst ` set (dedup_by_name xs) = insert (fst x) (fst ` set (dedup_from (fst x) ys))"
    by (simp add: Cons)
  moreover have "sorted_wrt (<) (map fst (dedup_by_name xs))" 
    using d unfolding Cons dedup_by_name.simps list.map by blast
  moreover have "set (dedup_by_name xs) \<subseteq> set xs" using d by (simp add: Cons subset_insertI2)
  moreover have "insert (fst x) (fst ` set (dedup_from (fst x) ys)) = fst ` set xs"
    using d Cons by (metis insert_Diff_single image_insert list.simps(15))
  ultimately show ?thesis by simp
qed simp

section \<open>Properties\<close>

text \<open>
  Sharding loses and duplicates no stream and respects the API limit. The shards together hold
  exactly the given names; no shard is empty or holds more than the allowed number of names; and
  there are never more shards than names.
\<close>

theorem partition_streams_correct:
  "mset (concat (partition_streams ss r m)) = mset ss
   \<and> length (partition_streams ss r m) \<le> length ss
   \<and> (\<forall>k < length (partition_streams ss r m).
        partition_streams ss r m ! k \<noteq> [] \<and> length (partition_streams ss r m ! k) \<le> max m 1)"
proof (cases "ss = []")
  case False
  let ?n = "shard_count (length ss) r m"
  have n: "0 < ?n" "?n \<le> length ss" using False by (simp_all add: shard_count_def)
  have len: "length (partition_streams ss r m) = ?n"
    using False by (simp add: partition_streams_def Let_def)
  have "mset (concat (partition_streams ss r m)) = mset ss"
    using False n partition_loop_mset [of ?n "replicate ?n []" 0 ss]
    by (simp add: partition_streams_def Let_def)
  moreover have "partition_streams ss r m ! k \<noteq> [] \<and> length (partition_streams ss r m ! k) \<le> max m 1"
    if "k < ?n" for k
  proof -
    have "?n \<le> length ss + (?n - 1 - k)" using n by simp
    then have "0 < (length ss + (?n - 1 - k)) div ?n" using n by (simp add: div_greater_zero_iff)
    then show ?thesis
      using partition_length [OF False that] shard_size_bound [OF _ that] False by fastforce
  qed
  ultimately show ?thesis using len n by simp
qed (simp add: partition_streams_def)

theorem partition_streams_correct_witness:
  "partition_streams [''a'', ''b'', ''c''] 2 100 ! 0 = [''a'', ''c'']
   \<and> partition_streams [''a'', ''b'', ''c''] 2 100 ! 0 \<noteq> []
   \<and> length (partition_streams [''a'', ''b'', ''c''] 2 100 ! 0) \<le> 100"
proof -
  have p: "partition_streams [''a'', ''b'', ''c''] 2 100 = [[''a'', ''c''], [''b'']]" by code_simp
  show ?thesis using partition_streams_correct [of "[''a'', ''b'', ''c'']" 2 100] by (simp add: p)
qed

text \<open>
  Merging shard streams keeps every page. Whatever the completion order, the merged feed of
  the shards consists of exactly the pages of the individual streams.
\<close>

theorem event_pages_complete:
  assumes "those (map (\<lambda>s. page_stream cw lg w (Some s)) (a # b # shs)) = Some pss"
  shows "\<exists>pages. event_pages sched cw lg w (Some (a # b # shs)) = Some pages
    \<and> mset pages = mset (concat pss)"
  using assms by (simp add: event_pages_def select_all_mset)

definition sample_source :: "unit cw_source" where
  "sample_source =
     \<lparr>filter_log_events = (\<lambda>_ _ _ tok _. Inr \<lparr>pg_events =
        [\<lparr>ev_timestamp = 5, ev_message = ''m'', ev_log_stream_name = ''s'', ev_ingestion_time = None,
          ev_event_id = None\<rparr>],
        pg_next_token = (if tok = None then Some ''t'' else None)\<rparr>),
      describe_log_group = (\<lambda>_. Inr \<lparr>lg_retention_days = None, lg_stored_bytes = None, lg_creation_time_ms = 0\<rparr>),
      list_log_streams = (\<lambda>_ _. Inr [''a'', ''b'']),
      list_log_groups = (\<lambda>_. Inr []),
      put_retention_policy = (\<lambda>_ _ c. (c, Inr ()))\<rparr>"

theorem event_pages_complete_witness:
  "\<exists>pages. event_pages [1, 0] sample_source ''g'' \<lparr>start_ms = 0, end_ms = 9\<rparr> (Some [[''a''], [''b'']])
     = Some pages \<and> size (mset pages) = 4"
proof -
  have "\<exists>pss. those (map (\<lambda>s. page_stream sample_source ''g'' \<lparr>start_ms = 0, end_ms = 9\<rparr> (Some s))
      [[''a''], [''b'']]) = Some pss \<and> length (concat pss) = 4"
    by (simp add: page_stream_def page_loop.simps sample_source_def)
  then obtain pss where p: "those (map (\<lambda>s. page_stream sample_source ''g'' \<lparr>start_ms = 0, end_ms = 9\<rparr> (Some s))
      [[''a''], [''b'']]) = Some pss" "length (concat pss) = 4" by blast
  from event_pages_complete [OF p(1), of "[1, 0]"] p(2) show ?thesis by (metis size_mset)
qed

text \<open>
  Discovery returns the selected groups once each, in name order: for a glob or all groups, the
  names are strictly ascending, exactly the listed names the selector matches, and every entry is
  one of the listing.
\<close>

theorem discover_exact:
  assumes "sel = All \<and> list_log_groups cw None = Inr gs
    \<or> (\<exists>p m h. sel = Glob p m h \<and> list_log_groups cw (if h \<noteq> [] then Some h else None) = Inr gs)"
  shows "\<exists>out. discover_log_groups G cw sel = Inr out \<and> sorted_wrt (<) (map fst out)
    \<and> fst ` set out = {nm \<in> fst ` set gs. selector_matches G sel nm} \<and> set out \<subseteq> set gs"
proof -
  let ?sel = "filter (\<lambda>(nm, _). selector_matches G sel nm) gs"
  have s: "sorted (map fst (sort_key fst ?sel))" by simp
  have "discover_log_groups G cw sel = Inr (dedup_by_name (sort_key fst ?sel))"
    using assms by (auto simp: discover_log_groups_def filter_True)
  with dedup_by_name_sorted [OF s] show ?thesis by auto
qed

theorem discover_exact_witness:
  "\<exists>out. discover_log_groups \<lparr>glob_new = Inr, glob_is_match = (\<lambda>_ _. True)\<rparr> sample_source All = Inr out
     \<and> sorted_wrt (<) (map fst out)"
  using discover_exact [of All sample_source "[]" "\<lparr>glob_new = Inr, glob_is_match = (\<lambda>_ _. True)\<rparr>"]
  by (auto simp: sample_source_def)

end
