(* ===== verification/S4_Job.thy ===== *)
theory S4_Job
  imports S4_Manifest S4_Shard
begin

text \<open>
  The drain job (\<^verbatim>\<open>s4logs-drain/src/job.rs\<close>, \<^verbatim>\<open>s4logs-drain/src/progress.rs\<close>): one window is paged out of
  CloudWatch, written as chunks and sealed with a manifest; a run does so for every window of a
  range and a multi-group run for every group. The state is the object store and the progress
  events seen by the observer. Windows of a run are processed in an order that is an argument,
  each in one step: different windows touch different keys.
\<close>

section \<open>Progress\<close>

datatype progress_event =
    WindowStarted window
  | WindowSkipped window
  | Page window nat nat
  | ObjectWritten string nat nat
  | WindowDone window nat
  | ReconcileWindowDone window nat nat nat

section \<open>Data\<close>

datatype drain_error =
    DCw cw_error
  | DChunk chunk_error
  | DSink sink_error
  | DManifest manifest_error
  | DWindow window_error
  | DBadOptions string

text \<open>\<open>o_progress\<close> says whether an observer is installed.\<close>

record drain_options =
  o_account :: string
  o_log_group :: string
  o_from_ms :: "int option"
  o_to_ms :: "int option"
  o_now_cutoff_ms :: int
  o_window_ms :: int
  o_chunk_target_bytes :: nat
  o_chunk :: chunk_config
  o_concurrency :: nat
  o_dry_run :: bool
  o_shard_streams :: nat
  o_progress :: bool

definition drain_options_new :: "string \<Rightarrow> string \<Rightarrow> drain_options" where
  "drain_options_new acct lg =
     \<lparr>o_account = acct, o_log_group = lg, o_from_ms = None, o_to_ms = None,
      o_now_cutoff_ms = 15 * 60000, o_window_ms = HOUR_MS, o_chunk_target_bytes = 256 * 2 ^ 20,
      o_chunk = chunk_config_default, o_concurrency = 2, o_dry_run = False, o_shard_streams = 1,
      o_progress = False\<rparr>"

record drain_report =
  dr_log_group :: string
  dr_dry_run :: bool
  dr_windows_total :: nat
  dr_windows_processed :: nat
  dr_windows_skipped :: nat
  dr_windows_empty :: nat
  dr_records :: nat
  dr_events_outside_window :: nat
  dr_raw_bytes :: nat
  dr_compressed_bytes :: nat
  dr_objects_written :: nat

record window_outcome =
  wo_skipped :: bool
  wo_records :: nat
  wo_dropped :: nat
  wo_raw_bytes :: nat
  wo_compressed_bytes :: nat
  wo_objects_written :: nat

definition window_outcome_default :: window_outcome where
  "window_outcome_default = \<lparr>wo_skipped = False, wo_records = 0, wo_dropped = 0, wo_raw_bytes = 0,
     wo_compressed_bytes = 0, wo_objects_written = 0\<rparr>"

definition drain_report_default :: drain_report where
  "drain_report_default = \<lparr>dr_log_group = [], dr_dry_run = False, dr_windows_total = 0,
     dr_windows_processed = 0, dr_windows_skipped = 0, dr_windows_empty = 0, dr_records = 0,
     dr_events_outside_window = 0, dr_raw_bytes = 0, dr_compressed_bytes = 0, dr_objects_written = 0\<rparr>"

definition absorb :: "drain_report \<Rightarrow> window_outcome \<Rightarrow> drain_report" where
  "absorb r o' =
     (if wo_skipped o' then r\<lparr>dr_windows_skipped := dr_windows_skipped r + 1\<rparr>
      else r\<lparr>dr_windows_processed := dr_windows_processed r + 1,
             dr_windows_empty := dr_windows_empty r + (if wo_records o' = 0 then 1 else 0),
             dr_records := dr_records r + wo_records o',
             dr_events_outside_window := dr_events_outside_window r + wo_dropped o',
             dr_raw_bytes := dr_raw_bytes r + wo_raw_bytes o',
             dr_compressed_bytes := dr_compressed_bytes r + wo_compressed_bytes o',
             dr_objects_written := dr_objects_written r + wo_objects_written o'\<rparr>)"

datatype object_naming = Base | Reconcile nat

fun naming_name :: "object_naming \<Rightarrow> int \<Rightarrow> nat \<Rightarrow> string" where
  "naming_name Base start seq = show_int start @ ''-'' @ pad0 6 (show_nat seq)"
| "naming_name (Reconcile attempt) start seq =
     show_int start @ ''-r'' @ pad0 2 (show_nat attempt) @ pad0 4 (show_nat seq)"

section \<open>The environment of a job\<close>

text \<open>
  The trait objects of \<^verbatim>\<open>DrainJob\<close> and the third-party functions: \<open>d_now\<close> is the clock reading,
  \<open>d_version\<close> the crate version the build stamps, \<open>d_sched\<close> the completion order of shard pages.
\<close>

record ('s, 'c, 'dt) drain_env =
  d_cw :: "'c cw_source"
  d_prefix :: string
  d_put :: "chunk_location \<Rightarrow> encoded_chunk \<Rightarrow> 's \<Rightarrow> 's \<times> (sink_error + put_receipt)"
  d_manifests :: "'s manifest_store"
  d_chunk :: chunk_env
  d_mjson :: "manifest serde"
  d_chrono :: "'dt chrono"
  d_now :: int
  d_version :: string
  d_sched :: "nat list"

record 's drain_state =
  ds_store :: 's
  ds_events :: "progress_event list"

definition emit :: "drain_options \<Rightarrow> progress_event \<Rightarrow> 's drain_state \<Rightarrow> 's drain_state" where
  "emit opts ev st = (if o_progress opts then st\<lparr>ds_events := ds_events st @ [ev]\<rparr> else st)"

section \<open>WindowWriter\<close>

record window_writer =
  ww_window_start_ms :: int
  ww_date :: string
  ww_naming :: object_naming
  ww_writer :: chunk_writer
  ww_seq :: nat
  ww_objects :: "manifest_object list"
  ww_records :: nat
  ww_raw_bytes :: nat
  ww_compressed_bytes :: nat
  ww_objects_written :: nat

definition ww_new ::
    "('s, 'c, 'dt) drain_env \<Rightarrow> drain_options \<Rightarrow> window \<Rightarrow> object_naming \<Rightarrow> window_writer" where
  "ww_new D opts w naming =
     \<lparr>ww_window_start_ms = start_ms w, ww_date = date_from_ts_ms (d_chrono D) (start_ms w),
      ww_naming = naming, ww_writer = cw_new (o_chunk opts), ww_seq = 0, ww_objects = [],
      ww_records = 0, ww_raw_bytes = 0, ww_compressed_bytes = 0, ww_objects_written = 0\<rparr>"

definition bytes_so_far :: "window_writer \<Rightarrow> nat" where
  "bytes_so_far ww = ww_raw_bytes ww + uncompressed_len (ww_writer ww)"

definition ww_location :: "drain_options \<Rightarrow> window_writer \<Rightarrow> chunk_location" where
  "ww_location opts ww = \<lparr>account = o_account opts, log_group = o_log_group opts, date = ww_date ww,
     obj_name = naming_name (ww_naming ww) (ww_window_start_ms ww) (ww_seq ww)\<rparr>"

definition ww_flush ::
    "('s, 'c, 'dt) drain_env \<Rightarrow> drain_options \<Rightarrow> window_writer \<Rightarrow> chunk_writer \<Rightarrow> 's drain_state
     \<Rightarrow> window_writer \<times> 's drain_state \<times> (drain_error + unit)" where
  "ww_flush D opts ww writer st =
     (case cw_finish (d_chunk D) writer of
        Inl e \<Rightarrow> (ww, st, Inl (DChunk e))
      | Inr None \<Rightarrow> (ww, st, Inr ())
      | Inr (Some chunk) \<Rightarrow>
          let ww1 = ww\<lparr>ww_records := ww_records ww + chunk_record_count chunk,
                       ww_raw_bytes := ww_raw_bytes ww + uncompressed_bytes chunk,
                       ww_compressed_bytes := ww_compressed_bytes ww + length (chunk_body chunk)\<rparr>
          in if o_dry_run opts then (ww1\<lparr>ww_seq := ww_seq ww1 + 1\<rparr>, st, Inr ())
             else case d_put D (ww_location opts ww1) chunk (ds_store st) of
               (s', Inl e) \<Rightarrow> (ww1, st\<lparr>ds_store := s'\<rparr>, Inl (DSink e))
             | (s', Inr receipt) \<Rightarrow>
                 (ww1\<lparr>ww_objects := ww_objects ww1 @
                        [\<lparr>mo_data_key = r_data_key receipt, mo_etag = r_etag receipt,
                          mo_crc32c = r_crc32c receipt, mo_body_len = r_body_len receipt,
                          mo_raw_bytes = Some (uncompressed_bytes chunk),
                          mo_storage_class = r_storage_class receipt,
                          mo_record_count = chunk_record_count chunk,
                          mo_min_ts = min_timestamp chunk, mo_max_ts = max_timestamp chunk\<rparr>],
                      ww_objects_written := ww_objects_written ww1 + 1,
                      ww_seq := ww_seq ww1 + 1\<rparr>,
                  emit opts (ObjectWritten (r_data_key receipt) (uncompressed_bytes chunk) (r_body_len receipt))
                    (st\<lparr>ds_store := s'\<rparr>),
                  Inr ()))"

definition ww_push ::
    "('s, 'c, 'dt) drain_env \<Rightarrow> drain_options \<Rightarrow> log_record \<Rightarrow> window_writer \<Rightarrow> 's drain_state
     \<Rightarrow> window_writer \<times> 's drain_state \<times> (drain_error + unit)" where
  "ww_push D opts r ww st =
     (case cw_push (d_chunk D) r (ww_writer ww) of
        (wr, Inl e) \<Rightarrow> (ww\<lparr>ww_writer := wr\<rparr>, st, Inl (DChunk e))
      | (wr, Inr _) \<Rightarrow>
          if uncompressed_len wr \<ge> o_chunk_target_bytes opts
          then ww_flush D opts (ww\<lparr>ww_writer := cw_new (o_chunk opts)\<rparr>) wr st
          else (ww\<lparr>ww_writer := wr\<rparr>, st, Inr ()))"

definition ww_finish ::
    "('s, 'c, 'dt) drain_env \<Rightarrow> drain_options \<Rightarrow> window_writer \<Rightarrow> 's drain_state
     \<Rightarrow> window_writer \<times> 's drain_state \<times> (drain_error + unit)" where
  "ww_finish D opts ww st =
     ww_flush D opts (ww\<lparr>ww_writer := cw_new (o_chunk opts)\<rparr>) (ww_writer ww) st"

section \<open>DrainJob\<close>

definition resolve_range ::
    "('s, 'c, 'dt) drain_env \<Rightarrow> drain_options \<Rightarrow> drain_error + (int \<times> int)" where
  "resolve_range D opts =
     (if o_chunk_target_bytes opts = 0 then Inl (DBadOptions ''chunk_target_bytes must be > 0'')
      else case (case o_from_ms opts of
                   Some f \<Rightarrow> Inr f
                 | None \<Rightarrow> (case describe_log_group (d_cw D) (o_log_group opts) of
                              Inl e \<Rightarrow> Inl (DCw e)
                            | Inr i \<Rightarrow> Inr (lg_creation_time_ms i))) of
             Inl e \<Rightarrow> Inl e
           | Inr frm \<Rightarrow>
               Inr (frm, case o_to_ms opts of
                           Some t \<Rightarrow> t
                         | None \<Rightarrow> sat_i64 (d_now D - o_now_cutoff_ms opts)))"

definition compute_shards ::
    "('s, 'c, 'dt) drain_env \<Rightarrow> drain_options \<Rightarrow> drain_error + string list list option" where
  "compute_shards D opts =
     (if o_shard_streams opts \<le> 1 then Inr None
      else case list_log_streams (d_cw D) (o_log_group opts) None of
        Inl e \<Rightarrow> Inl (DCw e)
      | Inr names \<Rightarrow>
          let shards = partition_streams names (o_shard_streams opts) MAX_STREAMS_PER_FILTER
          in if length shards < 2 then Inr None else Inr (Some shards))"

definition record_of_event :: "cw_event \<Rightarrow> log_record" where
  "record_of_event ev = \<lparr>timestamp = ev_timestamp ev, stream = ev_log_stream_name ev,
     message = ev_message ev, ingestion_time = ev_ingestion_time ev, event_id = ev_event_id ev\<rparr>"

definition in_window :: "window \<Rightarrow> cw_event \<Rightarrow> bool" where
  "in_window w ev \<longleftrightarrow> \<not> (ev_timestamp ev < start_ms w \<or> ev_timestamp ev \<ge> end_ms w)"

text \<open>The two nested loops over pages and events; the counter is the number of dropped events.\<close>

fun drain_events ::
    "('s, 'c, 'dt) drain_env \<Rightarrow> drain_options \<Rightarrow> window \<Rightarrow> cw_event list \<Rightarrow> nat \<Rightarrow> window_writer
     \<Rightarrow> 's drain_state \<Rightarrow> nat \<times> window_writer \<times> 's drain_state \<times> (drain_error + unit)" where
  "drain_events D opts w [] dropped ww st = (dropped, ww, st, Inr ())"
| "drain_events D opts w (ev # evs) dropped ww st =
     (if ev_timestamp ev < start_ms w \<or> ev_timestamp ev \<ge> end_ms w
      then drain_events D opts w evs (dropped + 1) ww st
      else case ww_push D opts (record_of_event ev) ww st of
        (ww', st', Inl e) \<Rightarrow> (dropped, ww', st', Inl e)
      | (ww', st', Inr _) \<Rightarrow> drain_events D opts w evs dropped ww' st')"

fun drain_pages ::
    "('s, 'c, 'dt) drain_env \<Rightarrow> drain_options \<Rightarrow> window \<Rightarrow> (cw_error + cw_event list) list \<Rightarrow> nat
     \<Rightarrow> window_writer \<Rightarrow> 's drain_state \<Rightarrow> nat \<times> window_writer \<times> 's drain_state \<times> (drain_error + unit)" where
  "drain_pages D opts w [] dropped ww st = (dropped, ww, st, Inr ())"
| "drain_pages D opts w (page # pages) dropped ww st =
     (case page of
        Inl e \<Rightarrow> (dropped, ww, st, Inl (DCw e))
      | Inr events \<Rightarrow>
         (case drain_events D opts w events dropped ww st of
            (dropped', ww', st', Inl e) \<Rightarrow> (dropped', ww', st', Inl e)
          | (dropped', ww', st', Inr _) \<Rightarrow>
              drain_pages D opts w pages dropped' ww'
                (emit opts (Page w (length events) (bytes_so_far ww')) st')))"

definition window_manifest ::
    "('s, 'c, 'dt) drain_env \<Rightarrow> drain_options \<Rightarrow> window \<Rightarrow> manifest_object list \<Rightarrow> manifest" where
  "window_manifest D opts w objects =
     \<lparr>m_version = MANIFEST_VERSION, m_account = o_account opts, m_log_group = o_log_group opts,
      m_window_start_ms = start_ms w, m_window_end_ms = end_ms w, m_objects = objects,
      m_record_count = sum_list (map mo_record_count objects), m_completed_at_ms = d_now D,
      m_drain_version = d_version D, m_reconciled_at_ms = None, m_reconciled_added = None\<rparr>"

definition window_mkey :: "('s, 'c, 'dt) drain_env \<Rightarrow> drain_options \<Rightarrow> window \<Rightarrow> string" where
  "window_mkey D opts w = manifest_key (d_prefix D) (o_account opts) (o_log_group opts) (start_ms w) (end_ms w)"

text \<open>What happens after the manifest check of a window that is not skipped.\<close>

definition drain_window_body ::
    "('s, 'c, 'dt) drain_env \<Rightarrow> drain_options \<Rightarrow> window \<Rightarrow> (cw_error + cw_event list) list
     \<Rightarrow> 's drain_state \<Rightarrow> 's drain_state \<times> (drain_error + window_outcome)" where
  "drain_window_body D opts w pages st =
     (case drain_pages D opts w pages 0 (ww_new D opts w Base) st of
        (_, _, st1, Inl e) \<Rightarrow> (st1, Inl e)
      | (dropped, ww1, st1, Inr _) \<Rightarrow>
         (case ww_finish D opts ww1 st1 of
            (_, st2, Inl e) \<Rightarrow> (st2, Inl e)
          | (ww2, st2, Inr _) \<Rightarrow>
              let out = \<lparr>wo_skipped = False, wo_records = ww_records ww2, wo_dropped = dropped,
                         wo_raw_bytes = ww_raw_bytes ww2, wo_compressed_bytes = ww_compressed_bytes ww2,
                         wo_objects_written = ww_objects_written ww2\<rparr>;
                  done = (\<lambda>st3. (emit opts (WindowDone w (wo_records out)) st3, Inr out))
              in if o_dry_run opts then done st2
                 else case to_json_bytes (d_mjson D) (window_manifest D opts w (ww_objects ww2)) of
                   Inl e \<Rightarrow> (st2, Inl (DManifest e))
                 | Inr b \<Rightarrow>
                    (case mf_put (d_manifests D) (window_mkey D opts w) b (ds_store st2) of
                       (s', Inl e) \<Rightarrow> (st2\<lparr>ds_store := s'\<rparr>, Inl (DManifest e))
                     | (s', Inr _) \<Rightarrow> done (st2\<lparr>ds_store := s'\<rparr>))))"

definition process_window ::
    "('s, 'c, 'dt) drain_env \<Rightarrow> drain_options \<Rightarrow> window \<Rightarrow> string list list option \<Rightarrow> 's drain_state
     \<Rightarrow> ('s drain_state \<times> (drain_error + window_outcome)) option" where
  "process_window D opts w shards st =
     (case mf_get (d_manifests D) (window_mkey D opts w) (ds_store st) of
        Inl e \<Rightarrow> Some (st, Inl (DManifest e))
      | Inr found \<Rightarrow>
          if (case found of None \<Rightarrow> False
              | Some b \<Rightarrow> manifest_covers_window (d_mjson D) b (o_account opts) (o_log_group opts)
                            (start_ms w) (end_ms w))
          then Some (emit opts (WindowSkipped w) st, Inr (window_outcome_default\<lparr>wo_skipped := True\<rparr>))
          else map_option (\<lambda>pages. drain_window_body D opts w pages (emit opts (WindowStarted w) st))
                 (event_pages (d_sched D) (d_cw D) (o_log_group opts) w shards))"

text \<open>
  \<^verbatim>\<open>run\<close>: the windows are handed over in the order \<open>order\<close> of their completion; the first error ends
  the run.
\<close>

fun run_windows ::
    "('s, 'c, 'dt) drain_env \<Rightarrow> drain_options \<Rightarrow> string list list option \<Rightarrow> window list \<Rightarrow> drain_report
     \<Rightarrow> 's drain_state \<Rightarrow> ('s drain_state \<times> (drain_error + drain_report)) option" where
  "run_windows D opts shards [] report st = Some (st, Inr report)"
| "run_windows D opts shards (w # ws) report st =
     (case process_window D opts w shards st of
        None \<Rightarrow> None
      | Some (st', Inl e) \<Rightarrow> Some (st', Inl e)
      | Some (st', Inr out) \<Rightarrow> run_windows D opts shards ws (absorb report out) st')"

definition drain_run ::
    "('s, 'c, 'dt) drain_env \<Rightarrow> (window list \<Rightarrow> window list) \<Rightarrow> drain_options \<Rightarrow> 's drain_state
     \<Rightarrow> ('s drain_state \<times> (drain_error + drain_report)) option" where
  "drain_run D order opts st =
     (case resolve_range D opts of
        Inl e \<Rightarrow> Some (st, Inl e)
      | Inr (frm, to) \<Rightarrow>
         (case compute_shards D opts of
            Inl e \<Rightarrow> Some (st, Inl e)
          | Inr shards \<Rightarrow>
             (case windows frm to (o_window_ms opts) of
                None \<Rightarrow> None
              | Some (Inl e) \<Rightarrow> Some (st, Inl (DWindow e))
              | Some (Inr wins) \<Rightarrow>
                  run_windows D opts shards (order wins)
                    (drain_report_default\<lparr>dr_log_group := o_log_group opts, dr_dry_run := o_dry_run opts,
                       dr_windows_total := length wins\<rparr>) st)))"

section \<open>Many groups\<close>

record group_drain_result =
  gd_log_group :: string
  gd_result :: "drain_error + drain_report"

type_synonym multi_drain_report = "group_drain_result list"

definition any_failed :: "multi_drain_report \<Rightarrow> bool" where
  "any_failed gs \<longleftrightarrow> (\<exists>g \<in> set gs. \<not> is_ok (gd_result g))"

definition failures :: "multi_drain_report \<Rightarrow> (string \<times> drain_error) list" where
  "failures gs = List.map_filter
     (\<lambda>g. case gd_result g of Inl e \<Rightarrow> Some (gd_log_group g, e) | Inr _ \<Rightarrow> None) gs"

definition succeeded :: "multi_drain_report \<Rightarrow> drain_report list" where
  "succeeded gs = List.map_filter (\<lambda>g. ok_of (gd_result g)) gs"

definition add_report :: "drain_report \<Rightarrow> drain_report \<Rightarrow> drain_report" where
  "add_report agg r = agg\<lparr>dr_windows_total := dr_windows_total agg + dr_windows_total r,
     dr_windows_processed := dr_windows_processed agg + dr_windows_processed r,
     dr_windows_skipped := dr_windows_skipped agg + dr_windows_skipped r,
     dr_windows_empty := dr_windows_empty agg + dr_windows_empty r,
     dr_records := dr_records agg + dr_records r,
     dr_events_outside_window := dr_events_outside_window agg + dr_events_outside_window r,
     dr_raw_bytes := dr_raw_bytes agg + dr_raw_bytes r,
     dr_compressed_bytes := dr_compressed_bytes agg + dr_compressed_bytes r,
     dr_objects_written := dr_objects_written agg + dr_objects_written r\<rparr>"

definition aggregate :: "multi_drain_report \<Rightarrow> drain_report" where
  "aggregate gs =
     (let n_ok = length (filter (\<lambda>g. is_ok (gd_result g)) gs)
      in foldl add_report
           (drain_report_default\<lparr>dr_log_group := show_nat n_ok @ ''/'' @ show_nat (length gs) @ '' log groups'',
              dr_dry_run := (\<forall>r \<in> set (succeeded gs). dr_dry_run r) \<and> n_ok > 0\<rparr>)
           (succeeded gs))"

text \<open>\<^verbatim>\<open>drain_groups\<close>: one independent job per group, in some completion order, reported by name.\<close>

fun run_groups ::
    "('s, 'c, 'dt) drain_env \<Rightarrow> (window list \<Rightarrow> window list) \<Rightarrow> drain_options
     \<Rightarrow> (string \<times> log_group_info) list \<Rightarrow> 's drain_state \<Rightarrow> ('s drain_state \<times> group_drain_result list) option" where
  "run_groups D order base [] st = Some (st, [])"
| "run_groups D order base ((nm, info) # gs) st =
     (let opts = base\<lparr>o_log_group := nm,
                      o_from_ms := (case o_from_ms base of None \<Rightarrow> Some (lg_creation_time_ms info)
                                    | Some f \<Rightarrow> Some f)\<rparr>
      in case drain_run D order opts st of
           None \<Rightarrow> None
         | Some (st', res) \<Rightarrow>
             map_option (\<lambda>(st'', rs). (st'', \<lparr>gd_log_group = nm, gd_result = res\<rparr> # rs))
               (run_groups D order base gs st'))"

definition drain_groups ::
    "('s, 'c, 'dt) drain_env \<Rightarrow> (window list \<Rightarrow> window list)
     \<Rightarrow> ((string \<times> log_group_info) list \<Rightarrow> (string \<times> log_group_info) list) \<Rightarrow> drain_options
     \<Rightarrow> (string \<times> log_group_info) list \<Rightarrow> 's drain_state \<Rightarrow> ('s drain_state \<times> multi_drain_report) option" where
  "drain_groups D order gorder base groups st =
     map_option (\<lambda>(st', rs). (st', sort_key gd_log_group rs)) (run_groups D order base (gorder groups) st)"

end
