(* ===== verification/S4_Drain.thy ===== *)
theory S4_Drain
  imports S4_Job
begin

text \<open>
  Correctness of the drain (\<^verbatim>\<open>s4logs-drain/src/job.rs\<close>). The locale \<open>drain_stores\<close> states what a job
  relies on of its chunk sink and manifest store; it is interpreted on the in-memory stores and
  proved for the S3 store. Inside it: every event of a window ends up in the objects its manifest
  lists, a manifest appears only after them, and a successful run leaves no window without one.
\<close>

section \<open>Object names\<close>

lemma naming_no_slash: "CHR ''/'' \<notin> set (naming_name n start seq)"
  using show_int_free [of "CHR ''/''" start] by (cases n) auto

lemma naming_base_inject:
  assumes "naming_name Base a i = naming_name Base b j"
  shows "a = b \<and> i = j"
  using show_int_dash_inject [of a "pad0 6 (show_nat i)" b "pad0 6 (show_nat j)"] assms by simp

lemma pad0_hd_digit: "\<exists>c cs. pad0 k (show_nat n) = c # cs \<and> is_digit c"
proof -
  have "pad0 k (show_nat n) \<noteq> []" by (simp add: pad0_def)
  then obtain c cs where "pad0 k (show_nat n) = c # cs" by (cases "pad0 k (show_nat n)") auto
  then show ?thesis using pad0_digits [of c k n] by auto
qed

lemma naming_base_reconcile: "naming_name Base a i \<noteq> naming_name (Reconcile t) b j"
proof
  assume "naming_name Base a i = naming_name (Reconcile t) b j"
  then have "show_int a @ CHR ''-'' # pad0 6 (show_nat i)
      = show_int b @ CHR ''-'' # CHR ''r'' # pad0 2 (show_nat t) @ pad0 4 (show_nat j)" by simp
  then have "pad0 6 (show_nat i) = CHR ''r'' # pad0 2 (show_nat t) @ pad0 4 (show_nat j)"
    using show_int_dash_inject by blast
  then show False using pad0_hd_digit [of 6 i] by auto
qed

lemma length_show_nat_100: "n < 100 \<Longrightarrow> length (pad0 2 (show_nat n)) = 2"
proof -
  assume "n < 100"
  then have "n div 10 < 10" by simp
  then show ?thesis by (simp add: pad0_def show_nat.simps [of n] show_nat.simps [of "n div 10"])
qed

lemma naming_reconcile_inject:
  assumes "naming_name (Reconcile t) a i = naming_name (Reconcile u) b j" and "t < 100" "u < 100"
  shows "a = b \<and> t = u \<and> i = j"
proof -
  from assms(1) have "show_int a @ CHR ''-'' # CHR ''r'' # pad0 2 (show_nat t) @ pad0 4 (show_nat i)
      = show_int b @ CHR ''-'' # CHR ''r'' # pad0 2 (show_nat u) @ pad0 4 (show_nat j)" by simp
  then have "a = b" "pad0 2 (show_nat t) @ pad0 4 (show_nat i) = pad0 2 (show_nat u) @ pad0 4 (show_nat j)"
    using show_int_dash_inject by blast+
  then show ?thesis using append_eq_append_conv length_show_nat_100 [OF assms(2)] length_show_nat_100 [OF assms(3)]
    by (metis pad0_inj)
qed

lemma emit_store [simp]: "ds_store (emit opts ev st) = ds_store st"
  by (simp add: emit_def)

section \<open>The stores a job writes to\<close>

text \<open>
  The chunk sink and the manifest store of a job together. They may be one bucket or two; what
  matters is that a put to one does not disturb the keys the other one answers for.
\<close>

locale drain_stores =
  sink: chunk_sink X "d_put D" objs "d_prefix D" inv + man: manifest_view "d_manifests D" view
  for X :: s4_codec and D :: "('s, 'c, 'dt) drain_env" and objs :: "'s \<Rightarrow> string \<rightharpoonup> bytes"
    and inv :: "'s \<Rightarrow> bool" and view :: "'s \<Rightarrow> string \<rightharpoonup> bytes" +
  assumes sink_keeps_view: "inv s \<Longrightarrow> d_put D loc ch s = (s', r) \<Longrightarrow>
       view s' (manifest_key (d_prefix D) a g b e) = view s (manifest_key (d_prefix D) a g b e)"
    and man_keeps_inv: "inv s \<Longrightarrow> mf_put (d_manifests D) (manifest_key (d_prefix D) a g b e) v s = (s', u) \<Longrightarrow> inv s'"
    and man_keeps_objs: "inv s \<Longrightarrow> mf_put (d_manifests D) (manifest_key (d_prefix D) a g b e) v s = (s', u) \<Longrightarrow>
       objs s' (data_key l (d_prefix D)) = objs s (data_key l (d_prefix D))"

text \<open>What a manifest entry claims, and when the claim is true of a store.\<close>

definition obj_holds :: "chunk_env \<Rightarrow> (string \<rightharpoonup> bytes) \<Rightarrow> manifest_object \<Rightarrow> log_record list \<Rightarrow> bool" where
  "obj_holds E os o' g \<longleftrightarrow> g \<noteq> []
     \<and> (\<exists>b. os (mo_data_key o') = Some b \<and> zstd_decode E b = Inr (jsonl_text (json E) g, None)
          \<and> mo_body_len o' = length b \<and> mo_crc32c o' = crc32c_of E b)
     \<and> mo_record_count o' = length g \<and> mo_raw_bytes o' = Some (length (jsonl_text (json E) g))
     \<and> mo_min_ts o' = ts_min g \<and> mo_max_ts o' = ts_max g"

definition seq_location :: "drain_options \<Rightarrow> window_writer \<Rightarrow> nat \<Rightarrow> chunk_location" where
  "seq_location opts ww i = ww_location opts (ww\<lparr>ww_seq := i\<rparr>)"

definition names_ok :: "drain_options \<Rightarrow> window_writer \<Rightarrow> bool" where
  "names_ok opts ww \<longleftrightarrow> CHR ''/'' \<notin> set (o_account opts) \<and> utf8_ok (o_log_group opts)
     \<and> CHR ''/'' \<notin> set (ww_date ww) \<and> (case ww_naming ww of Base \<Rightarrow> True | Reconcile t \<Rightarrow> t < 100)"

lemma seq_location_wf: "names_ok opts ww \<Longrightarrow> wf_location (seq_location opts ww i)"
  using naming_no_slash by (simp add: names_ok_def wf_location_def seq_location_def ww_location_def)

lemma seq_location_inject:
  assumes "names_ok opts ww" and "seq_location opts ww i = seq_location opts ww j"
  shows "i = j"
proof -
  have n: "naming_name (ww_naming ww) (ww_window_start_ms ww) i
      = naming_name (ww_naming ww) (ww_window_start_ms ww) j"
    using assms(2) by (simp add: seq_location_def ww_location_def)
  show ?thesis
  proof (cases "ww_naming ww")
    case Base
    then show ?thesis using n naming_base_inject by metis
  next
    case (Reconcile t)
    then have "t < 100" using assms(1) by (simp add: names_ok_def)
    then show ?thesis
      using n naming_reconcile_inject [of t "ww_window_start_ms ww" i t "ww_window_start_ms ww" j]
      unfolding Reconcile by blast
  qed
qed


context drain_stores
begin

text \<open>
  The objects a window writer has put so far hold the groups \<open>gs\<close> of records, under the keys of the
  sequence numbers used up; \<open>ww_has\<close> adds the records still in its chunk writer.
\<close>

definition ww_objs :: "drain_options \<Rightarrow> window_writer \<Rightarrow> 's \<Rightarrow> log_record list list \<Rightarrow> bool" where
  "ww_objs opts ww s gs \<longleftrightarrow> inv s \<and> names_ok opts ww
     \<and> map mo_data_key (ww_objects ww)
         = map (\<lambda>i. data_key (seq_location opts ww i) (d_prefix D)) [0..<ww_seq ww]
     \<and> ww_objects_written ww = ww_seq ww
     \<and> list_all2 (obj_holds (d_chunk D) (objs s)) (ww_objects ww) gs
     \<and> ww_records ww = length (concat gs)"

definition ww_has :: "drain_options \<Rightarrow> window_writer \<Rightarrow> 's \<Rightarrow> log_record list \<Rightarrow> bool" where
  "ww_has opts ww s rs \<longleftrightarrow>
     (\<exists>gs pd. ww_objs opts ww s gs \<and> writer_has (d_chunk D) (ww_writer ww) pd \<and> concat gs @ pd = rs)"

lemma obj_holds_put:
  assumes i: "inv s" and n: "names_ok opts ww"
    and p: "d_put D (seq_location opts ww (ww_seq ww)) ch s = (s', r)"
    and k: "map mo_data_key os = map (\<lambda>i. data_key (seq_location opts ww i) (d_prefix D)) [0..<ww_seq ww]"
    and h: "list_all2 (obj_holds E (objs s)) os gs"
  shows "list_all2 (obj_holds E (objs s')) os gs"
proof -
  have "objs s' (mo_data_key o') = objs s (mo_data_key o')" if o': "o' \<in> set os" for o'
  proof -
    have "mo_data_key o' \<in> set (map mo_data_key os)" using o' by simp
    then obtain j where j: "j < ww_seq ww" "mo_data_key o' = data_key (seq_location opts ww j) (d_prefix D)"
      by (auto simp: k)
    have "seq_location opts ww j \<noteq> seq_location opts ww (ww_seq ww)"
      using j(1) seq_location_inject [OF n] by blast
    then show ?thesis
      using sink.put_keeps_data [OF i p] seq_location_wf [OF n] j(2) by simp
  qed
  then show ?thesis
    using h by (auto simp: list_all2_conv_all_nth obj_holds_def)
qed

lemma ww_objs_writer [simp]: "ww_objs opts (ww\<lparr>ww_writer := w\<rparr>) s gs = ww_objs opts ww s gs"
  by (simp add: ww_objs_def names_ok_def seq_location_def ww_location_def)

lemma ww_flush_objs:
  assumes z: "zstd_faithful (d_chunk D)" and nd: "\<not> o_dry_run opts"
    and o: "ww_objs opts ww (ds_store st) gs" and w: "writer_has (d_chunk D) w pd"
    and f: "ww_flush D opts ww w st = (ww', st', Inr u)"
  shows "\<exists>gs'. ww_objs opts ww' (ds_store st') gs' \<and> concat gs' = concat gs @ pd
    \<and> ww_writer ww' = ww_writer ww"
proof -
  obtain res where res: "cw_finish (d_chunk D) w = Inr res"
    using f by (cases "cw_finish (d_chunk D) w") (auto simp: ww_flush_def)
  note fin = writer_has_finish [OF z w res [unfolded cw_finish_def]]
  show ?thesis
  proof (cases res)
    case None
    then show ?thesis using fin f o res by (auto simp: ww_flush_def)
  next
    case (Some ch)
    let ?loc = "seq_location opts ww (ww_seq ww)"
    have loc: "ww_location opts (ww\<lparr>ww_records := a, ww_raw_bytes := b, ww_compressed_bytes := c\<rparr>) = ?loc" for a b c
      by (simp add: seq_location_def ww_location_def)
    from f obtain s1 r where p: "d_put D ?loc ch (ds_store st) = (s1, Inr r)"
      by (cases "d_put D ?loc ch (ds_store st)")
        (auto simp: ww_flush_def res Some Let_def nd loc split: sum.splits)
    have s1: "ds_store st' = s1" using f p by (auto simp: ww_flush_def res Some Let_def nd loc)
    let ?o = "\<lparr>mo_data_key = r_data_key r, mo_etag = r_etag r, mo_crc32c = r_crc32c r,
       mo_body_len = r_body_len r, mo_raw_bytes = Some (uncompressed_bytes ch),
       mo_storage_class = r_storage_class r, mo_record_count = chunk_record_count ch,
       mo_min_ts = min_timestamp ch, mo_max_ts = max_timestamp ch\<rparr>"
    have ww': "ww_objects ww' = ww_objects ww @ [?o]" "ww_seq ww' = ww_seq ww + 1"
      "ww_objects_written ww' = ww_objects_written ww + 1" "ww_writer ww' = ww_writer ww"
      "ww_records ww' = ww_records ww + chunk_record_count ch" "ww_date ww' = ww_date ww"
      "ww_naming ww' = ww_naming ww" "ww_window_start_ms ww' = ww_window_start_ms ww"
      using f p by (auto simp: ww_flush_def res Some Let_def nd loc)
    have i: "inv (ds_store st)" and n: "names_ok opts ww" using o by (simp_all add: ww_objs_def)
    have new: "obj_holds (d_chunk D) (objs s1) ?o pd"
      using fin Some sink.put_stored [OF i p] sink.put_receipt [OF i p]
      by (simp add: obj_holds_def chunk_has_def)
    have "list_all2 (obj_holds (d_chunk D) (objs s1)) (ww_objects ww) gs"
      using o by (intro obj_holds_put [OF i n p]) (simp_all add: ww_objs_def)
    then have "list_all2 (obj_holds (d_chunk D) (objs s1)) (ww_objects ww') (gs @ [pd])"
      using new by (simp add: ww' list_all2_appendI)
    moreover have "seq_location opts ww' = seq_location opts ww"
      by (simp add: ww' seq_location_def ww_location_def fun_eq_iff)
    moreover have "inv s1" using sink.put_inv [OF i p] .
    ultimately have "ww_objs opts ww' s1 (gs @ [pd])"
      using o fin Some sink.put_receipt [OF i p]
      by (simp add: ww_objs_def ww' names_ok_def chunk_has_def)
    then show ?thesis using s1 ww' by auto
  qed
qed

lemma ww_push_has:
  assumes z: "zstd_faithful (d_chunk D)" and nd: "\<not> o_dry_run opts"
    and h: "ww_has opts ww (ds_store st) rs"
    and f: "ww_push D opts r ww st = (ww', st', Inr u)"
  shows "ww_has opts ww' (ds_store st') (rs @ [r])"
proof -
  from h obtain gs pd where o: "ww_objs opts ww (ds_store st) gs"
    and w: "writer_has (d_chunk D) (ww_writer ww) pd" and rs: "concat gs @ pd = rs"
    by (auto simp: ww_has_def)
  obtain wr where p: "cw_push (d_chunk D) r (ww_writer ww) = (wr, Inr ())"
    using f by (cases "cw_push (d_chunk D) r (ww_writer ww)") (auto simp: ww_push_def split: sum.splits)
  note w' = writer_has_push [OF w p]
  show ?thesis
  proof (cases "uncompressed_len wr \<ge> o_chunk_target_bytes opts")
    case True
    then have "ww_flush D opts (ww\<lparr>ww_writer := cw_new (o_chunk opts)\<rparr>) wr st = (ww', st', Inr u)"
      using f p by (simp add: ww_push_def)
    from ww_flush_objs [OF z nd _ w' this, of gs] o rs show ?thesis
      by (force simp: ww_has_def)
  next
    case False
    then have "ww' = ww\<lparr>ww_writer := wr\<rparr>" "st' = st" using f p by (auto simp: ww_push_def)
    then show ?thesis using o w' rs by (force simp: ww_has_def)
  qed
qed

lemma ww_finish_objs:
  assumes "zstd_faithful (d_chunk D)" and "\<not> o_dry_run opts"
    and h: "ww_has opts ww (ds_store st) rs"
    and f: "ww_finish D opts ww st = (ww', st', Inr u)"
  shows "\<exists>gs. ww_objs opts ww' (ds_store st') gs \<and> concat gs = rs"
proof -
  from h obtain gs pd where o: "ww_objs opts ww (ds_store st) gs"
    and w: "writer_has (d_chunk D) (ww_writer ww) pd" and rs: "concat gs @ pd = rs"
    by (auto simp: ww_has_def)
  from ww_flush_objs [OF assms(1,2) _ w f [unfolded ww_finish_def], of gs] o rs show ?thesis by auto
qed

lemma drain_events_has:
  assumes z: "zstd_faithful (d_chunk D)" and nd: "\<not> o_dry_run opts"
  shows "ww_has opts ww (ds_store st) rs \<Longrightarrow>
    drain_events D opts w evs dropped ww st = (dropped', ww', st', Inr u) \<Longrightarrow>
    ww_has opts ww' (ds_store st') (rs @ map record_of_event (filter (in_window w) evs))
    \<and> dropped' = dropped + length (filter (\<lambda>ev. \<not> in_window w ev) evs)"
proof (induction evs arbitrary: ww st dropped rs)
  case (Cons ev evs)
  show ?case
  proof (cases "in_window w ev")
    case False
    then show ?thesis using Cons.IH [of ww st rs "dropped + 1"] Cons.prems by (auto simp: in_window_def)
  next
    case True
    then obtain ww1 st1 where p: "ww_push D opts (record_of_event ev) ww st = (ww1, st1, Inr ())"
      and q: "drain_events D opts w evs dropped ww1 st1 = (dropped', ww', st', Inr u)"
      using Cons.prems(2) by (auto simp: in_window_def split: prod.splits sum.splits)
    show ?thesis using Cons.IH [OF ww_push_has [OF z nd Cons.prems(1) p] q] True by simp
  qed
qed simp

lemma drain_pages_has:
  assumes z: "zstd_faithful (d_chunk D)" and nd: "\<not> o_dry_run opts"
  shows "ww_has opts ww (ds_store st) rs \<Longrightarrow>
    drain_pages D opts w pages dropped ww st = (dropped', ww', st', Inr u) \<Longrightarrow>
    \<exists>evss. pages = map Inr evss
      \<and> ww_has opts ww' (ds_store st') (rs @ map record_of_event (filter (in_window w) (concat evss)))
      \<and> dropped' = dropped + length (filter (\<lambda>ev. \<not> in_window w ev) (concat evss))"
proof (induction pages arbitrary: ww st dropped rs)
  case (Cons page pages)
  from Cons.prems(2) obtain evs d1 ww1 st1 where pg: "page = Inr evs"
    and e: "drain_events D opts w evs dropped ww st = (d1, ww1, st1, Inr ())"
    and q: "drain_pages D opts w pages d1 ww1 (emit opts (Page w (length evs) (bytes_so_far ww1)) st1)
        = (dropped', ww', st', Inr u)"
    by (auto split: sum.splits prod.splits)
  note d = drain_events_has [OF z nd Cons.prems(1) e]
  then have "ww_has opts ww1 (ds_store (emit opts (Page w (length evs) (bytes_so_far ww1)) st1))
      (rs @ map record_of_event (filter (in_window w) evs))" by simp
  from Cons.IH [OF this q] obtain evss where "pages = map Inr evss"
    "ww_has opts ww' (ds_store st') ((rs @ map record_of_event (filter (in_window w) evs))
        @ map record_of_event (filter (in_window w) (concat evss)))"
    "dropped' = d1 + length (filter (\<lambda>ev. \<not> in_window w ev) (concat evss))" by blast
  then show ?case using pg d by (intro exI [of _ "evs # evss"]) simp
qed simp

end

section \<open>What a step can do to the store\<close>

text \<open>The store is only reached through \<open>d_put\<close>; in a dry run not at all.\<close>

definition put_stable ::
    "('s, 'c, 'dt) drain_env \<Rightarrow> drain_options \<Rightarrow> chunk_location set \<Rightarrow> ('s \<Rightarrow> bool) \<Rightarrow> bool" where
  "put_stable D opts L P \<longleftrightarrow>
     (\<forall>loc \<in> L. \<forall>ch s. \<not> o_dry_run opts \<longrightarrow> P s \<longrightarrow> P (fst (d_put D loc ch s)))"

definition ww_locations :: "drain_options \<Rightarrow> window_writer \<Rightarrow> chunk_location set" where
  "ww_locations opts ww = range (seq_location opts ww)"

lemma ww_location_in [simp]:
  "ww_location opts ww \<in> ww_locations opts ww"
  "ww_location opts (ww\<lparr>ww_records := a, ww_raw_bytes := b, ww_compressed_bytes := c\<rparr>) \<in> ww_locations opts ww"
  "ww_locations opts (ww\<lparr>ww_writer := w\<rparr>) = ww_locations opts ww"
  by (auto simp: ww_locations_def seq_location_def ww_location_def image_iff intro!: exI [of _ "ww_seq ww"])

lemma put_stableD:
  "put_stable D opts L P \<Longrightarrow> d_put D loc ch s = (s', r) \<Longrightarrow> loc \<in> L \<Longrightarrow> \<not> o_dry_run opts \<Longrightarrow> P s \<Longrightarrow> P s'"
  by (metis put_stable_def fst_conv)

lemma ww_flush_locations:
  "ww_flush D opts ww w st = (ww', st', r) \<Longrightarrow> ww_locations opts ww' = ww_locations opts ww"
  by (auto simp: ww_flush_def Let_def ww_locations_def seq_location_def ww_location_def
      split: sum.splits option.splits if_splits prod.splits)

lemma ww_push_locations:
  "ww_push D opts x ww st = (ww', st', r) \<Longrightarrow> ww_locations opts ww' = ww_locations opts ww"
  by (auto simp: ww_push_def dest: ww_flush_locations split: sum.splits if_splits prod.splits)

lemma ww_flush_stable:
  assumes "put_stable D opts (ww_locations opts ww) P" and "P (ds_store st)"
    and "ww_flush D opts ww w st = (ww', st', r)"
  shows "P (ds_store st')"
  using assms(2,3)
  by (auto simp: ww_flush_def Let_def dest: put_stableD [OF assms(1)]
      split: sum.splits option.splits if_splits prod.splits)

lemma ww_push_stable:
  assumes "put_stable D opts (ww_locations opts ww) P" and "P (ds_store st)"
    and "ww_push D opts x ww st = (ww', st', r)"
  shows "P (ds_store st')"
  using assms ww_flush_stable [of D opts "ww\<lparr>ww_writer := cw_new (o_chunk opts)\<rparr>" P st]
  by (auto simp: ww_push_def split: sum.splits if_splits prod.splits)

lemma ww_finish_stable:
  assumes "put_stable D opts (ww_locations opts ww) P" and "P (ds_store st)"
    and "ww_finish D opts ww st = (ww', st', r)"
  shows "P (ds_store st')"
  using assms ww_flush_stable [of D opts "ww\<lparr>ww_writer := cw_new (o_chunk opts)\<rparr>" P st]
  by (simp add: ww_finish_def)

lemma drain_events_stable:
  "put_stable D opts (ww_locations opts ww) P \<Longrightarrow> P (ds_store st) \<Longrightarrow>
   drain_events D opts w evs d ww st = (d', ww', st', r) \<Longrightarrow>
   P (ds_store st') \<and> ww_locations opts ww' = ww_locations opts ww"
proof (induction evs arbitrary: d ww st)
  case (Cons ev evs)
  show ?case
  proof (cases "in_window w ev")
    case False
    then show ?thesis using Cons by (simp add: in_window_def)
  next
    case True
    obtain ww1 st1 r1 where p: "ww_push D opts (record_of_event ev) ww st = (ww1, st1, r1)"
      by (metis prod_cases3)
    have "P (ds_store st1)" using ww_push_stable [OF Cons.prems(1,2) p] .
    moreover note ww_push_locations [OF p]
    ultimately show ?thesis
      using Cons.IH [of ww1 st1] Cons.prems p True by (cases r1) (auto simp: in_window_def)
  qed
qed simp

lemma drain_pages_stable:
  "put_stable D opts (ww_locations opts ww) P \<Longrightarrow> P (ds_store st) \<Longrightarrow>
   drain_pages D opts w pages d ww st = (d', ww', st', r) \<Longrightarrow>
   P (ds_store st') \<and> ww_locations opts ww' = ww_locations opts ww"
proof (induction pages arbitrary: d ww st)
  case (Cons page pages)
  show ?case
  proof (cases page)
    case (Inr evs)
    obtain d1 ww1 st1 r1 where p: "drain_events D opts w evs d ww st = (d1, ww1, st1, r1)"
      by (metis prod_cases4)
    have s1: "P (ds_store st1) \<and> ww_locations opts ww1 = ww_locations opts ww"
      using drain_events_stable [OF Cons.prems(1,2) p] .
    show ?thesis
    proof (cases r1)
      case Inl
      then show ?thesis using Cons.prems p \<open>page = Inr evs\<close> s1 by simp
    next
      case Inr
      then have "drain_pages D opts w pages d1 ww1 (emit opts (Page w (length evs) (bytes_so_far ww1)) st1)
          = (d', ww', st', r)" using Cons.prems p \<open>page = Inr evs\<close> by simp
      from Cons.IH [OF _ _ this] s1 Cons.prems(1) show ?thesis by simp
    qed
  qed (use Cons.prems in auto)
qed simp

text \<open>The runs of the body of a window: it fails before the manifest, or reaches it.\<close>

lemma drain_window_body_cases:
  assumes "drain_window_body D opts w pages st = (st', res)"
  obtains (early) e where "res = Inl e"
      "\<And>P. put_stable D opts (ww_locations opts (ww_new D opts w Base)) P \<Longrightarrow> P (ds_store st) \<Longrightarrow> P (ds_store st')"
  | (sealed) dropped ww1 st1 ww2 st2 out where
      "drain_pages D opts w pages 0 (ww_new D opts w Base) st = (dropped, ww1, st1, Inr ())"
      "ww_finish D opts ww1 st1 = (ww2, st2, Inr ())"
      "\<And>P. put_stable D opts (ww_locations opts (ww_new D opts w Base)) P \<Longrightarrow> P (ds_store st) \<Longrightarrow> P (ds_store st2)"
      "out = \<lparr>wo_skipped = False, wo_records = ww_records ww2, wo_dropped = dropped,
              wo_raw_bytes = ww_raw_bytes ww2, wo_compressed_bytes = ww_compressed_bytes ww2,
              wo_objects_written = ww_objects_written ww2\<rparr>"
      "if o_dry_run opts then ds_store st' = ds_store st2 \<and> res = Inr out
       else (\<exists>e. to_json_bytes (d_mjson D) (window_manifest D opts w (ww_objects ww2)) = Inl e
               \<and> ds_store st' = ds_store st2 \<and> res = Inl (DManifest e))
         \<or> (\<exists>b s' r. to_json_bytes (d_mjson D) (window_manifest D opts w (ww_objects ww2)) = Inr b
               \<and> mf_put (d_manifests D) (window_mkey D opts w) b (ds_store st2) = (s', r)
               \<and> ds_store st' = s' \<and> res = (case r of Inl e \<Rightarrow> Inl (DManifest e) | Inr _ \<Rightarrow> Inr out))"
proof -
  obtain dropped ww1 st1 r1 where p: "drain_pages D opts w pages 0 (ww_new D opts w Base) st = (dropped, ww1, st1, r1)"
    by (metis prod_cases4)
  have s1: "P (ds_store st1) \<and> ww_locations opts ww1 = ww_locations opts (ww_new D opts w Base)"
    if "put_stable D opts (ww_locations opts (ww_new D opts w Base)) P" "P (ds_store st)" for P
    using drain_pages_stable [OF that p] .
  show thesis
  proof (cases r1)
    case (Inl e)
    then show thesis using assms p s1 by (intro early [of e]) (auto simp: drain_window_body_def)
  next
    case Inr
    obtain ww2 st2 r2 where f: "ww_finish D opts ww1 st1 = (ww2, st2, r2)" by (metis prod_cases3)
    have s2: "P (ds_store st2)"
      if "put_stable D opts (ww_locations opts (ww_new D opts w Base)) P" "P (ds_store st)" for P
      using ww_finish_stable [OF _ _ f, of P] s1 [OF that] that(1) by simp
    show thesis
    proof (cases r2)
      case (Inl e)
      then show thesis using assms p f Inr s2 by (intro early [of e]) (auto simp: drain_window_body_def)
    next
      case (Inr u2)
      then have p': "drain_pages D opts w pages 0 (ww_new D opts w Base) st = (dropped, ww1, st1, Inr ())"
        and f': "ww_finish D opts ww1 st1 = (ww2, st2, Inr ())" using p f \<open>r1 = Inr _\<close> by simp_all
      show thesis
      proof (rule sealed [OF p' f' _ refl])
        show "P (ds_store st2)"
          if "put_stable D opts (ww_locations opts (ww_new D opts w Base)) P" "P (ds_store st)" for P
          using s2 that .
      qed (use assms p' f' in \<open>auto simp: drain_window_body_def Let_def
            split: sum.splits prod.splits if_splits\<close>)
    qed
  qed
qed

lemma process_window_cases:
  assumes "process_window D opts w shards st = Some (st', res)"
  obtains (unread) e where "mf_get (d_manifests D) (window_mkey D opts w) (ds_store st) = Inl e"
      "ds_store st' = ds_store st" "res = Inl (DManifest e)"
  | (skipped) b where "mf_get (d_manifests D) (window_mkey D opts w) (ds_store st) = Inr (Some b)"
      "manifest_covers_window (d_mjson D) b (o_account opts) (o_log_group opts) (start_ms w) (end_ms w)"
      "ds_store st' = ds_store st" "res = Inr (window_outcome_default\<lparr>wo_skipped := True\<rparr>)"
  | (drained) pages where "event_pages (d_sched D) (d_cw D) (o_log_group opts) w shards = Some pages"
      "drain_window_body D opts w pages (emit opts (WindowStarted w) st) = (st', res)"
  using assms
  by (auto simp: process_window_def split: sum.splits option.splits if_splits)

lemma dry_run_store:
  assumes "o_dry_run opts" and "process_window D opts w shards st = Some (st', res)"
  shows "ds_store st' = ds_store st"
  using assms(2)
proof (cases rule: process_window_cases)
  case (drained pages)
  have P: "put_stable D opts L (\<lambda>s. s = ds_store st)" for L using assms(1) by (simp add: put_stable_def)
  from drained(2) show ?thesis
  proof (cases rule: drain_window_body_cases)
    case early
    then show ?thesis using early(2) [OF P] by simp
  next
    case sealed
    then show ?thesis using sealed(3) [OF P] assms(1) by simp
  qed
qed

context drain_stores
begin

lemma view_stable: "put_stable D opts L (\<lambda>s. inv s \<and> view s (manifest_key (d_prefix D) a g b e) = v)"
  unfolding put_stable_def
proof (intro ballI allI impI)
  fix loc ch s assume h: "inv s \<and> view s (manifest_key (d_prefix D) a g b e) = v"
  obtain s' r where p: "d_put D loc ch s = (s', r)" by fastforce
  show "inv (fst (d_put D loc ch s)) \<and> view (fst (d_put D loc ch s)) (manifest_key (d_prefix D) a g b e) = v"
    using h sink.put_inv [OF _ p] sink_keeps_view [OF _ p] p by simp
qed

lemma ww_has_new:
  assumes "inv s" and "names_ok opts (ww_new D opts w n)"
  shows "ww_has opts (ww_new D opts w n) s []"
proof -
  have "ww_objs opts (ww_new D opts w n) s []" using assms by (simp add: ww_objs_def ww_new_def)
  then show ?thesis by (force simp: ww_has_def ww_new_def)
qed

text \<open>
  Whenever the manifest key changed, or the window is reported as done, the manifest at the key
  lists objects that hold exactly the events of the pages that lie in the window.
\<close>

lemma drain_window_body_sealed:
  assumes z: "zstd_faithful (d_chunk D)" and nd: "\<not> o_dry_run opts"
    and i: "inv (ds_store st)" and n: "names_ok opts (ww_new D opts w Base)"
    and b: "drain_window_body D opts w pages st = (st', res)"
    and ch: "is_ok res \<or> view (ds_store st') (window_mkey D opts w) \<noteq> view (ds_store st) (window_mkey D opts w)"
  shows "\<exists>evss os gs bs. pages = map Inr evss
    \<and> to_json_bytes (d_mjson D) (window_manifest D opts w os) = Inr bs
    \<and> view (ds_store st') (window_mkey D opts w) = Some bs
    \<and> list_all2 (obj_holds (d_chunk D) (objs (ds_store st'))) os gs
    \<and> concat gs = map record_of_event (filter (in_window w) (concat evss))
    \<and> (\<forall>out. res = Inr out \<longrightarrow> \<not> wo_skipped out \<and> wo_records out = length (concat gs)
          \<and> wo_dropped out = length (filter (\<lambda>ev. \<not> in_window w ev) (concat evss)))"
  using b
proof (cases rule: drain_window_body_cases)
  case (early e)
  then show ?thesis
    using early(2) [OF view_stable, of "o_account opts" "o_log_group opts" "start_ms w" "end_ms w"] ch i
    by (simp add: window_mkey_def)
next
  case (sealed dropped ww1 st1 ww2 st2 out)
  have same: "inv (ds_store st2) \<and> view (ds_store st2) (window_mkey D opts w) = view (ds_store st) (window_mkey D opts w)"
    using sealed(3) [OF view_stable, of "o_account opts" "o_log_group opts" "start_ms w" "end_ms w"] i
    by (simp add: window_mkey_def)
  from drain_pages_has [OF z nd ww_has_new [OF i n] sealed(1)] obtain evss where
    e: "pages = map Inr evss" "dropped = length (filter (\<lambda>ev. \<not> in_window w ev) (concat evss))"
      "ww_has opts ww1 (ds_store st1) (map record_of_event (filter (in_window w) (concat evss)))" by auto
  from ww_finish_objs [OF z nd e(3) sealed(2)] obtain gs where
    o: "ww_objs opts ww2 (ds_store st2) gs"
    and gs: "concat gs = map record_of_event (filter (in_window w) (concat evss))" by blast
  have "res \<noteq> Inl (DManifest er) \<or> ds_store st' \<noteq> ds_store st2" for er using ch same by auto
  then obtain bs s' r where m: "to_json_bytes (d_mjson D) (window_manifest D opts w (ww_objects ww2)) = Inr bs"
    and p: "mf_put (d_manifests D) (window_mkey D opts w) bs (ds_store st2) = (s', r)"
    and s': "ds_store st' = s'" and res: "res = (case r of Inl e \<Rightarrow> Inl (DManifest e) | Inr _ \<Rightarrow> Inr out)"
    using sealed(5) nd by metis
  have v: "view s' (window_mkey D opts w) = Some bs"
    using ch same s' res man.put_atomic [OF p] man.put_view [of _ _ _ s'] p by (cases r) auto
  have "objs s' (mo_data_key o') = objs (ds_store st2) (mo_data_key o')" if o': "o' \<in> set (ww_objects ww2)" for o'
  proof -
    have "mo_data_key o' \<in> set (map mo_data_key (ww_objects ww2))" using o' by simp
    also have "\<dots> = set (map (\<lambda>i. data_key (seq_location opts ww2 i) (d_prefix D)) [0..<ww_seq ww2])"
      using o unfolding ww_objs_def by metis
    finally obtain l where "mo_data_key o' = data_key l (d_prefix D)" by auto
    then show ?thesis using man_keeps_objs [of "ds_store st2"] same p by (simp add: window_mkey_def)
  qed
  then have "list_all2 (obj_holds (d_chunk D) (objs s')) (ww_objects ww2) gs"
    using o by (auto simp: ww_objs_def list_all2_conv_all_nth obj_holds_def)
  moreover have "ww_records ww2 = length (concat gs)" using o by (simp add: ww_objs_def)
  ultimately show ?thesis
    using e(1,2) m v s' gs res sealed(4)
    by (intro exI [of _ evss] exI [of _ "ww_objects ww2"] exI [of _ gs] exI [of _ bs])
      (auto split: sum.splits)
qed

end

section \<open>The two kinds of stores\<close>

text \<open>A job over one S3 bucket, and one over the in-memory sink and manifest store.\<close>

definition s3_drain_env ::
    "s4_codec \<Rightarrow> 's s3_client \<Rightarrow> object_store \<Rightarrow> ('s, 'c, 'dt) drain_env \<Rightarrow> ('s, 'c, 'dt) drain_env" where
  "s3_drain_env X cl st D = D\<lparr>d_prefix := os_prefix st, d_put := os_put_chunk X cl st,
     d_manifests := object_manifest_store cl st\<rparr>"

definition memory_drain_env ::
    "s4_codec \<Rightarrow> string \<Rightarrow> (memory_sink \<times> memory_manifests, 'c, 'dt) drain_env
     \<Rightarrow> (memory_sink \<times> memory_manifests, 'c, 'dt) drain_env" where
  "memory_drain_env X p D = D\<lparr>d_prefix := norm_prefix p,
     d_put := (\<lambda>loc ch (m, mm). let (m', r) = ms_put_chunk X loc ch m in ((m', mm), r)),
     d_manifests := \<lparr>mf_exists = (\<lambda>k (m, mm). mf_exists memory_manifest_store k mm),
       mf_get = (\<lambda>k (m, mm). mf_get memory_manifest_store k mm),
       mf_put = (\<lambda>k b (m, mm). let (mm', r) = mf_put memory_manifest_store k b mm in ((m, mm'), r)),
       mf_list = (\<lambda>p (m, mm). mf_list memory_manifest_store p mm)\<rparr>\<rparr>"

interpretation mem_drain: drain_stores X "memory_drain_env X p D" "\<lambda>(m, mm). ms_objects m"
    "\<lambda>(m, mm). ms_prefix m = norm_prefix p" "\<lambda>(m, mm). mm" for X p D
  by unfold_locales
    (auto simp: memory_drain_env_def memory_manifest_store_def Let_def split: prod.splits
      dest: mem.put_inv mem.put_stored mem.put_frame mem.put_receipt)

lemma s3_drain_stores:
  assumes "put_law cl (os_bucket st) objs" and "get_sound cl (os_bucket st) objs"
  shows "drain_stores X (s3_drain_env X cl st D) objs (\<lambda>_. True) objs"
proof (rule drain_stores.intro)
  note sink = object_store_sink [OF assms(1), of X] and man = object_manifest_view [OF assms]
  show "chunk_sink X (d_put (s3_drain_env X cl st D)) objs (d_prefix (s3_drain_env X cl st D)) (\<lambda>_. True)"
    using sink by (simp add: s3_drain_env_def)
  show "manifest_view (d_manifests (s3_drain_env X cl st D)) objs"
    using man by (simp add: s3_drain_env_def)
  show "drain_stores_axioms (s3_drain_env X cl st D) objs (\<lambda>_. True) objs"
  proof
    fix s loc ch s' r a g b e
    assume "d_put (s3_drain_env X cl st D) loc ch s = (s', r)"
    then show "objs s' (manifest_key (d_prefix (s3_drain_env X cl st D)) a g b e)
        = objs s (manifest_key (d_prefix (s3_drain_env X cl st D)) a g b e)"
      using chunk_sink.put_keeps_manifest [OF sink] by (simp add: s3_drain_env_def)
  next
    fix s a g b e v s' u l
    assume "mf_put (d_manifests (s3_drain_env X cl st D))
        (manifest_key (d_prefix (s3_drain_env X cl st D)) a g b e) v s = (s', u)"
    then show "objs s' (data_key l (d_prefix (s3_drain_env X cl st D)))
        = objs s (data_key l (d_prefix (s3_drain_env X cl st D)))"
      
      using manifest_view.put_frame [OF man, of "manifest_key (os_prefix st) a g b e" v s s' u
          "data_key l (os_prefix st)"] seg_differ(3) [of "os_prefix st" a g b e l]
      by (simp add: s3_drain_env_def)
  qed simp
qed

section \<open>Windows and runs\<close>

definition serde_sound :: "'a serde \<Rightarrow> bool" where
  "serde_sound J \<longleftrightarrow> (\<forall>a b. to_json J a = Inr b \<longrightarrow> from_json J b = Inr a)"

lemma window_manifest_covers:
  assumes "serde_sound (d_mjson D)" and "to_json_bytes (d_mjson D) (window_manifest D opts w os) = Inr b"
  shows "manifest_covers_window (d_mjson D) b (o_account opts) (o_log_group opts) (start_ms w) (end_ms w)"
proof -
  have "from_json (d_mjson D) b = Inr (window_manifest D opts w os)"
    using assms by (simp add: serde_sound_def to_json_bytes_def)
  then show ?thesis
    by (simp add: manifest_covers_window_def from_json_bytes_def window_manifest_def)
qed

context drain_stores
begin

text \<open>The window is proved archived: a manifest that the skip check and the retention gate accept.\<close>

definition covered :: "drain_options \<Rightarrow> 's \<Rightarrow> window \<Rightarrow> bool" where
  "covered opts s w \<longleftrightarrow> (\<exists>b. view s (window_mkey D opts w) = Some b
     \<and> manifest_covers_window (d_mjson D) b (o_account opts) (o_log_group opts) (start_ms w) (end_ms w))"

lemma process_window_archives:
  assumes z: "zstd_faithful (d_chunk D)" and nd: "\<not> o_dry_run opts"
    and i: "inv (ds_store st)" and n: "names_ok opts (ww_new D opts w Base)"
    and p: "process_window D opts w shards st = Some (st', res)"
    and ch: "is_ok res \<or> view (ds_store st') (window_mkey D opts w) \<noteq> view (ds_store st) (window_mkey D opts w)"
  shows "res = Inr (window_outcome_default\<lparr>wo_skipped := True\<rparr>) \<and> ds_store st' = ds_store st \<and> covered opts (ds_store st) w
    \<or> (\<exists>pages evss os gs bs. event_pages (d_sched D) (d_cw D) (o_log_group opts) w shards = Some pages
      \<and> pages = map Inr evss
      \<and> to_json_bytes (d_mjson D) (window_manifest D opts w os) = Inr bs
      \<and> view (ds_store st') (window_mkey D opts w) = Some bs
      \<and> list_all2 (obj_holds (d_chunk D) (objs (ds_store st'))) os gs
      \<and> concat gs = map record_of_event (filter (in_window w) (concat evss))
      \<and> (\<forall>out. res = Inr out \<longrightarrow> \<not> wo_skipped out \<and> wo_records out = length (concat gs)
            \<and> wo_dropped out = length (filter (\<lambda>ev. \<not> in_window w ev) (concat evss))))"
  using p
proof (cases rule: process_window_cases)
  case (unread e)
  then show ?thesis using ch by simp
next
  case (skipped b)
  have "view (ds_store st) (window_mkey D opts w) = Some b" using man.get_view [OF skipped(1)] by simp
  then show ?thesis using skipped by (simp add: covered_def)
next
  case (drained pages)
  have i': "inv (ds_store (emit opts (WindowStarted w) st))" using i by simp
  have ch': "is_ok res \<or> view (ds_store st') (window_mkey D opts w)
      \<noteq> view (ds_store (emit opts (WindowStarted w) st)) (window_mkey D opts w)" using ch by simp
  from drain_window_body_sealed [OF z nd i' n drained(2) ch'] drained(1) show ?thesis by blast
qed

lemma process_window_covered:
  assumes "zstd_faithful (d_chunk D)" and "\<not> o_dry_run opts" and "serde_sound (d_mjson D)"
    and "inv (ds_store st)" and "names_ok opts (ww_new D opts w Base)"
    and "process_window D opts w shards st = Some (st', Inr out)"
  shows "covered opts (ds_store st') w"
  using process_window_archives [OF assms(1,2,4,5,6)] window_manifest_covers [OF assms(3)]
  by (auto simp: covered_def)

text \<open>Processing one window leaves the manifests of all others as they were.\<close>

lemma process_window_frame:
  assumes i: "inv (ds_store st)" and a: "CHR ''/'' \<notin> set (o_account opts)"
    and p: "process_window D opts w shards st = Some (st', res)"
  shows "inv (ds_store st')
    \<and> (w' \<noteq> w \<longrightarrow> view (ds_store st') (window_mkey D opts w') = view (ds_store st) (window_mkey D opts w'))"
  using p
proof (cases rule: process_window_cases)
  case (drained pages)
  have st: "inv s \<and> view s (window_mkey D opts w') = view (ds_store st) (window_mkey D opts w')"
    if "\<And>P. put_stable D opts (ww_locations opts (ww_new D opts w Base)) P \<Longrightarrow>
          P (ds_store (emit opts (WindowStarted w) st)) \<Longrightarrow> P s" for s
    using that [OF view_stable, of "o_account opts" "o_log_group opts" "start_ms w'" "end_ms w'"] i
    by (simp add: window_mkey_def)
  have mk: "w' \<noteq> w \<Longrightarrow> window_mkey D opts w' \<noteq> window_mkey D opts w"
    using manifest_key_inject [OF a a] unfolding window_mkey_def by (metis window.equality old.unit.exhaust)
  from drained(2) show ?thesis
  proof (cases rule: drain_window_body_cases)
    case early
    then show ?thesis using st by blast
  next
    case (sealed dropped ww1 st1 ww2 st2 out)
    have s2: "inv (ds_store st2)
        \<and> view (ds_store st2) (window_mkey D opts w') = view (ds_store st) (window_mkey D opts w')"
      by (rule st) (rule sealed(3))
    show ?thesis
    proof (cases "ds_store st' = ds_store st2")
      case False
      then obtain b s' r where p: "mf_put (d_manifests D) (window_mkey D opts w) b (ds_store st2) = (s', r)"
        and s': "ds_store st' = s'" using sealed(5) by (auto split: if_splits)
      have "inv s'" using man_keeps_inv [of "ds_store st2"] s2 p by (simp add: window_mkey_def)
      then show ?thesis using s2 man.put_frame [OF p mk] s' by simp
    qed (use s2 in simp)
  qed
qed (use i in auto)

lemma run_windows_covers:
  assumes z: "zstd_faithful (d_chunk D)" and nd: "\<not> o_dry_run opts" and j: "serde_sound (d_mjson D)"
    and n: "\<And>w. names_ok opts (ww_new D opts w Base)"
  shows "inv (ds_store st) \<Longrightarrow> run_windows D opts shards ws r0 st = Some (st', Inr r) \<Longrightarrow>
    inv (ds_store st') \<and> (\<forall>w \<in> set ws. covered opts (ds_store st') w)
    \<and> (\<forall>w. covered opts (ds_store st) w \<longrightarrow> covered opts (ds_store st') w)
    \<and> dr_windows_processed r + dr_windows_skipped r
        = dr_windows_processed r0 + dr_windows_skipped r0 + length ws"
proof (induction ws arbitrary: r0 st)
  case (Cons w ws)
  from Cons.prems(2) obtain st1 out where p: "process_window D opts w shards st = Some (st1, Inr out)"
    and q: "run_windows D opts shards ws (absorb r0 out) st1 = Some (st', Inr r)"
    by (auto split: option.splits prod.splits sum.splits)
  have a: "CHR ''/'' \<notin> set (o_account opts)" using n by (simp add: names_ok_def)
  note c = process_window_covered [OF z nd j Cons.prems(1) n p]
  have keep: "covered opts (ds_store st1) w'" if "covered opts (ds_store st) w'" for w'
  proof (cases "w' = w")
    case False
    then show ?thesis using process_window_frame [OF Cons.prems(1) a p, of w'] that by (simp add: covered_def)
  qed (use c in simp)
  have i1: "inv (ds_store st1)" using process_window_frame [OF Cons.prems(1) a p] by simp
  show ?case using Cons.IH [OF i1 q] c keep by (auto simp: absorb_def)
qed simp

lemma drain_run_covers:
  assumes "zstd_faithful (d_chunk D)" and "\<not> o_dry_run opts" and "serde_sound (d_mjson D)"
    and "\<And>w. names_ok opts (ww_new D opts w Base)" and "\<And>ws. mset (order ws) = mset ws"
    and i: "inv (ds_store st)" and r: "drain_run D order opts st = Some (st', Inr report)"
  shows "\<exists>frm to wins. resolve_range D opts = Inr (frm, to)
    \<and> windows frm to (o_window_ms opts) = Some (Inr wins)
    \<and> (\<forall>w \<in> set wins. covered opts (ds_store st') w)
    \<and> (\<forall>w. covered opts (ds_store st) w \<longrightarrow> covered opts (ds_store st') w)
    \<and> dr_windows_processed report + dr_windows_skipped report = length wins"
proof -
  from r obtain frm to shards wins where f: "resolve_range D opts = Inr (frm, to)"
    "windows frm to (o_window_ms opts) = Some (Inr wins)"
    and q: "run_windows D opts shards (order wins)
      (drain_report_default\<lparr>dr_log_group := o_log_group opts, dr_dry_run := o_dry_run opts,
         dr_windows_total := length wins\<rparr>) st = Some (st', Inr report)"
    by (auto simp: drain_run_def split: sum.splits prod.splits option.splits)
  have "set (order wins) = set wins" "length (order wins) = length wins"
    using assms(5) [of wins] by (metis set_mset_mset, metis size_mset)
  then show ?thesis
    using f run_windows_covers [OF assms(1-4) i q] by (auto simp: drain_report_default_def)
qed

end

section \<open>A concrete job\<close>

definition sample_chrono :: "unit chrono" where
  "sample_chrono = \<lparr>from_timestamp_millis = (\<lambda>_. None), UNIX_EPOCH = (), format_ymd = (\<lambda>_. ''1970-01-01'')\<rparr>"

definition sample_manifest :: manifest where
  "sample_manifest = \<lparr>m_version = 1, m_account = ''1'', m_log_group = ''g'', m_window_start_ms = 0,
     m_window_end_ms = 20, m_objects = [], m_record_count = 0, m_completed_at_ms = 100,
     m_drain_version = ''1.0'', m_reconciled_at_ms = None, m_reconciled_added = None\<rparr>"

definition sample_manifest_json :: "manifest serde" where
  "sample_manifest_json = \<lparr>to_json = (\<lambda>m. if m = sample_manifest then Inr [9] else Inl ''no''),
     from_json = (\<lambda>_. Inr sample_manifest)\<rparr>"

text \<open>\<open>sample_job src J\<close>: a job on an in-memory bucket that reads \<open>src\<close> and writes manifests with \<open>J\<close>.\<close>

definition sample_base ::
    "unit cw_source \<Rightarrow> manifest serde \<Rightarrow> (string \<rightharpoonup> bytes, unit, unit) drain_env" where
  "sample_base src J =
     \<lparr>d_cw = src, d_prefix = [], d_put = (\<lambda>_ _ s. (s, Inl (Storage []))),
      d_manifests = object_manifest_store map_client (os_new ''b'' ''p''),
      d_chunk = sample_env, d_mjson = J, d_chrono = sample_chrono, d_now = 100,
      d_version = ''1.0'', d_sched = []\<rparr>"

abbreviation (input) sample_job ::
    "unit cw_source \<Rightarrow> manifest serde \<Rightarrow> (string \<rightharpoonup> bytes, unit, unit) drain_env" where
  "sample_job src J \<equiv> s3_drain_env sample_codec map_client (os_new ''b'' ''p'') (sample_base src J)"

abbreviation (input) any_json :: "manifest serde" where
  "any_json \<equiv> \<lparr>to_json = (\<lambda>_. Inr [9]), from_json = (\<lambda>_. Inl [])\<rparr>"

abbreviation (input) empty_state :: "(string \<rightharpoonup> bytes) drain_state" where
  "empty_state \<equiv> \<lparr>ds_store = Map.empty, ds_events = []\<rparr>"

definition empty_source :: "unit cw_source" where
  "empty_source = sample_source\<lparr>filter_log_events := (\<lambda>_ _ _ _ _. Inr \<lparr>pg_events = [], pg_next_token = None\<rparr>)\<rparr>"

definition sample_opts :: drain_options where
  "sample_opts = (drain_options_new ''1'' ''g'')\<lparr>o_from_ms := Some 0, o_to_ms := Some 30, o_window_ms := 20\<rparr>"

abbreviation (input) sample_window :: window where
  "sample_window \<equiv> \<lparr>start_ms = 0, end_ms = 20\<rparr>"

lemma map_client_get_sound: "get_sound map_client bkt id"
  by (auto simp: get_sound_def map_client_def split: option.splits)

lemma sample_names_ok: "names_ok sample_opts (ww_new (sample_job src J) sample_opts w Base)"
  by (simp add: names_ok_def sample_opts_def drain_options_new_def ww_new_def sample_base_def
      s3_drain_env_def date_from_ts_ms_def sample_chrono_def byte_in_def)

lemma sample_base_simps [simp]:
  "d_chunk (sample_base src J) = sample_env" "d_mjson (sample_base src J) = J"
  by (simp_all add: sample_base_def)

lemma sample_not_dry: "\<not> o_dry_run sample_opts"
  by (simp add: sample_opts_def drain_options_new_def)

lemma sample_manifest_sound: "serde_sound sample_manifest_json"
  by (simp add: serde_sound_def sample_manifest_json_def)

lemmas job_defs = process_window_def event_pages_def page_stream_def page_loop.simps
  drain_window_body_def ww_finish_def ww_flush_def ww_push_def ww_new_def Let_def
  cw_push_def append_jsonl_def cw_new_def cw_finish_def cw_encode_def compress_frame_def
  uncompressed_len_def emit_def record_of_event_def to_json_bytes_def window_manifest_def

lemmas sample_defs = sample_base_def s3_drain_env_def sample_opts_def drain_options_new_def
  sample_env_def sample_json_def sample_record_def chunk_config_default_def map_client_def
  object_manifest_store_def osm_get_def get_bytes_def put_bytes_def put_object_inner_def os_new_def

lemma sample_event_window:
  "\<exists>st' out. process_window (sample_job sample_source any_json)
     sample_opts sample_window None empty_state = Some (st', Inr out)"
  by (simp add: job_defs sample_defs sample_source_def os_put_chunk_def put_data_bytes_def
      encode_sidecars_def sample_codec_def)

lemma sample_empty_window:
  "\<exists>st' out. process_window (sample_job empty_source sample_manifest_json)
     sample_opts sample_window None empty_state = Some (st', Inr out)"
  by (simp add: job_defs sample_defs sample_source_def empty_source_def sample_manifest_json_def
      sample_manifest_def MANIFEST_VERSION_def)

lemma sample_windows: "windows 0 30 20 = Some (Inr [sample_window])"
  by (simp add: windows_def validate_def align_down_def next_boundary_def Let_def sdiv_nonneg
    DAY_MS_def sat_i64_def wrap_i64_def i64_MIN_def i64_MAX_def windows_loop.simps)

lemma sample_run:
  "\<exists>st' r. drain_run (sample_job empty_source sample_manifest_json) id sample_opts
     empty_state = Some (st', Inr r)"
proof -
  let ?D = "sample_job empty_source sample_manifest_json"
  have "resolve_range ?D sample_opts = Inr (0, 30)" "compute_shards ?D sample_opts = Inr None"
    "o_window_ms sample_opts = 20"
    by (simp_all add: resolve_range_def compute_shards_def sample_opts_def drain_options_new_def)
  then show ?thesis using sample_windows sample_empty_window by (auto simp: drain_run_def)
qed

text \<open>A window proved archived: the manifest at its key is accepted by the skip check and the gate.\<close>

definition window_proved :: "manifest serde \<Rightarrow> (string \<rightharpoonup> bytes) \<Rightarrow> string \<Rightarrow> drain_options \<Rightarrow> window \<Rightarrow> bool" where
  "window_proved J os p opts w \<longleftrightarrow>
     (\<exists>m. os (manifest_key p (o_account opts) (o_log_group opts) (start_ms w) (end_ms w)) = Some m
        \<and> manifest_covers_window J m (o_account opts) (o_log_group opts) (start_ms w) (end_ms w))"

lemma s3_drain_env_simps [simp]:
  "d_chunk (s3_drain_env X cl b D) = d_chunk D" "d_mjson (s3_drain_env X cl b D) = d_mjson D"
  "d_sched (s3_drain_env X cl b D) = d_sched D" "d_cw (s3_drain_env X cl b D) = d_cw D"
  "d_prefix (s3_drain_env X cl b D) = os_prefix b" "d_now (s3_drain_env X cl b D) = d_now D"
  "window_manifest (s3_drain_env X cl b D) opts w os = window_manifest D opts w os"
  "window_mkey (s3_drain_env X cl b D) opts w
     = manifest_key (os_prefix b) (o_account opts) (o_log_group opts) (start_ms w) (end_ms w)"
  by (simp_all add: s3_drain_env_def window_manifest_def window_mkey_def)

lemma s3_resolve_range [simp]: "resolve_range (s3_drain_env X cl b D) opts = resolve_range D opts"
  unfolding resolve_range_def s3_drain_env_simps ..

lemma s3_covered:
  assumes "put_law cl (os_bucket b) objs" and "get_sound cl (os_bucket b) objs"
  shows "drain_stores.covered (s3_drain_env X cl b D) objs opts s w
    \<longleftrightarrow> window_proved (d_mjson D) (objs s) (os_prefix b) opts w"
  by (simp add: drain_stores.covered_def [OF s3_drain_stores [OF assms]] window_proved_def)

section \<open>Properties\<close>



text \<open>
  C9: a successful run covers its range. When a drain run over a bucket with the documented
  behaviour returns a report, then, whatever the order the windows complete in, every window of the
  resolved range has a manifest that the skip check and the retention gate accept, windows proved
  archived before still are, and every window was either processed or skipped.
\<close>

theorem drain_run_covers_range:
  assumes "put_law cl (os_bucket b) objs" and "get_sound cl (os_bucket b) objs"
    and "zstd_faithful (d_chunk D)" and "serde_sound (d_mjson D)" and "\<not> o_dry_run opts"
    and "\<And>w. names_ok opts (ww_new (s3_drain_env X cl b D) opts w Base)"
    and "\<And>ws. mset (order ws) = mset ws"
    and "drain_run (s3_drain_env X cl b D) order opts st = Some (st', Inr report)"
  shows "\<exists>frm to wins. resolve_range D opts = Inr (frm, to)
    \<and> windows frm to (o_window_ms opts) = Some (Inr wins)
    \<and> (\<forall>w \<in> set wins. window_proved (d_mjson D) (objs (ds_store st')) (os_prefix b) opts w)
    \<and> (\<forall>w. window_proved (d_mjson D) (objs (ds_store st)) (os_prefix b) opts w \<longrightarrow>
          window_proved (d_mjson D) (objs (ds_store st')) (os_prefix b) opts w)
    \<and> dr_windows_processed report + dr_windows_skipped report = length wins"
  using drain_stores.drain_run_covers [OF s3_drain_stores [OF assms(1,2)] _ assms(5) _ assms(6,7) _ assms(8)]
    assms(3,4)
  by (simp add: s3_covered [OF assms(1,2)])

theorem drain_run_covers_range_witness:
  "\<exists>st' report. drain_run (sample_job empty_source sample_manifest_json) id sample_opts empty_state
       = Some (st', Inr report)
     \<and> dr_windows_processed report + dr_windows_skipped report = 1
     \<and> window_proved sample_manifest_json (ds_store st') ''p/'' sample_opts sample_window"
proof -
  from sample_run obtain st' report where
    r: "drain_run (sample_job empty_source sample_manifest_json) id sample_opts empty_state
      = Some (st', Inr report)" by blast
  have "resolve_range (sample_base empty_source sample_manifest_json) sample_opts = Inr (0, 30)"
    by (simp add: resolve_range_def sample_opts_def drain_options_new_def)
  moreover have "windows 0 30 (o_window_ms sample_opts) = Some (Inr [sample_window])"
    using sample_windows by (simp add: sample_opts_def drain_options_new_def)
  moreover have "zstd_faithful (d_chunk (sample_base empty_source sample_manifest_json))"
    "serde_sound (d_mjson (sample_base empty_source sample_manifest_json))"
    using sample_zstd_faithful sample_manifest_sound by simp_all
  moreover have "os_prefix (os_new ''b'' ''p'') = ''p/''"
    by (simp add: os_new_def norm_prefix_def trim_matches_def)
  ultimately show ?thesis
    using drain_run_covers_range [OF map_client_laws(1) map_client_get_sound _ _ sample_not_dry sample_names_ok _ r] r
    by auto
qed

text \<open>
  C10: draining is idempotent. Once a window has been processed successfully, processing it again,
  against whatever CloudWatch then returns and with whatever shards, is skipped as soon as the
  manifest can be read, and writes nothing.
\<close>

theorem drain_window_idempotent:
  assumes "put_law cl (os_bucket b) objs" and "get_sound cl (os_bucket b) objs"
    and "zstd_faithful (d_chunk D)" and "serde_sound (d_mjson D)" and "\<not> o_dry_run opts"
    and "names_ok opts (ww_new (s3_drain_env X cl b D) opts w Base)"
    and "process_window (s3_drain_env X cl b D) opts w shards st = Some (st1, Inr out)"
    and "mf_get (object_manifest_store cl b)
           (manifest_key (os_prefix b) (o_account opts) (o_log_group opts) (start_ms w) (end_ms w))
           (ds_store st1) = Inr found"
  shows "process_window (s3_drain_env X cl b (D\<lparr>d_cw := cw'\<rparr>)) opts w shards' st1
    = Some (emit opts (WindowSkipped w) st1, Inr (window_outcome_default\<lparr>wo_skipped := True\<rparr>))"
proof -
  note s = s3_drain_stores [OF assms(1,2), of X D]
  have "window_proved (d_mjson D) (objs (ds_store st1)) (os_prefix b) opts w"
    using drain_stores.process_window_covered [OF s _ assms(5) _ _ assms(6,7)] assms(3,4)
    by (simp add: s3_covered [OF assms(1,2)])
  moreover have "found = objs (ds_store st1)
      (manifest_key (os_prefix b) (o_account opts) (o_log_group opts) (start_ms w) (end_ms w))"
    using manifest_view.get_view [OF object_manifest_view [OF assms(1,2)] assms(8)] .
  ultimately show ?thesis
    using assms(8) by (auto simp: process_window_def window_proved_def s3_drain_env_def window_mkey_def)
qed

theorem drain_window_idempotent_witness:
  "\<exists>st1 out. process_window (sample_job empty_source sample_manifest_json) sample_opts sample_window None empty_state
       = Some (st1, Inr out)
     \<and> process_window (s3_drain_env sample_codec map_client (os_new ''b'' ''p'')
           ((sample_base empty_source sample_manifest_json)\<lparr>d_cw := sample_source\<rparr>)) sample_opts sample_window None st1
       = Some (st1, Inr (window_outcome_default\<lparr>wo_skipped := True\<rparr>))"
proof -
  from sample_empty_window obtain st1 out where
    p: "process_window (sample_job empty_source sample_manifest_json) sample_opts sample_window None empty_state
      = Some (st1, Inr out)" by blast
  have "zstd_faithful (d_chunk (sample_base empty_source sample_manifest_json))"
    "serde_sound (d_mjson (sample_base empty_source sample_manifest_json))"
    using sample_zstd_faithful sample_manifest_sound by simp_all
  moreover obtain found where "mf_get (object_manifest_store map_client (os_new ''b'' ''p''))
      (manifest_key (os_prefix (os_new ''b'' ''p'')) (o_account sample_opts) (o_log_group sample_opts)
        (start_ms sample_window) (end_ms sample_window)) (ds_store st1) = Inr found"
    by (cases "ds_store st1 (manifest_key (os_prefix (os_new ''b'' ''p'')) (o_account sample_opts)
        (o_log_group sample_opts) (start_ms sample_window) (end_ms sample_window))")
      (auto simp: object_manifest_store_def osm_get_def get_bytes_def map_client_def)
  ultimately have "process_window (s3_drain_env sample_codec map_client (os_new ''b'' ''p'')
      ((sample_base empty_source sample_manifest_json)\<lparr>d_cw := sample_source\<rparr>)) sample_opts sample_window None st1
    = Some (emit sample_opts (WindowSkipped sample_window) st1, Inr (window_outcome_default\<lparr>wo_skipped := True\<rparr>))"
    using drain_window_idempotent [OF map_client_laws(1) map_client_get_sound _ _ sample_not_dry sample_names_ok p]
    by blast
  then show ?thesis using p by (auto simp: emit_def sample_opts_def drain_options_new_def)
qed

text \<open>
  C18: a dry run writes nothing: neither a window of a dry run nor the whole run changes the store,
  whatever the outcome.
\<close>

theorem dry_run_writes_nothing:
  assumes "o_dry_run opts" and "drain_run D order opts st = Some (st', res)"
  shows "ds_store st' = ds_store st"
proof -
  have "run_windows D opts shards ws r st0 = Some (st', res) \<Longrightarrow> ds_store st' = ds_store st0" for shards ws r st0
  proof (induction ws arbitrary: r st0)
    case (Cons w ws)
    then obtain st1 r1 where p: "process_window D opts w shards st0 = Some (st1, r1)"
      by (auto split: option.splits)
    then have "ds_store st1 = ds_store st0" using dry_run_store [OF assms(1)] by blast
    then show ?case using Cons p by (cases r1) auto
  qed simp
  then show ?thesis
    using assms(2) by (auto simp: drain_run_def split: sum.splits prod.splits option.splits)
qed

theorem dry_run_writes_nothing_witness:
  "\<exists>st' res. drain_run (sample_job empty_source sample_manifest_json) id (sample_opts\<lparr>o_dry_run := True\<rparr>) empty_state
      = Some (st', res) \<and> ds_store st' = Map.empty"
proof -
  have "\<exists>st' res. drain_run (sample_job empty_source sample_manifest_json) id (sample_opts\<lparr>o_dry_run := True\<rparr>) empty_state
      = Some (st', res)"
    using sample_windows
    by (simp add: drain_run_def compute_shards_def job_defs sample_defs sample_source_def empty_source_def
        resolve_range_def)
  then obtain st' res where r: "drain_run (sample_job empty_source sample_manifest_json) id
      (sample_opts\<lparr>o_dry_run := True\<rparr>) empty_state = Some (st', res)" by blast
  from dry_run_writes_nothing [OF _ r] r show ?thesis by auto
qed

text \<open>
  Object names never collide. Two base objects of any windows have the same name only when
  window start and sequence number agree, a reconcile object never has the name of a base object,
  and with the two-digit attempts the code allows two reconcile objects have the same name only
  when window start, attempt and sequence number agree.
\<close>

theorem object_names_distinct:
  assumes "t < 100" and "u < 100"
  shows "(naming_name Base a i = naming_name Base b j \<longleftrightarrow> a = b \<and> i = j)
    \<and> naming_name Base a i \<noteq> naming_name (Reconcile t) b j
    \<and> (naming_name (Reconcile t) a i = naming_name (Reconcile u) b j \<longleftrightarrow> a = b \<and> t = u \<and> i = j)"
  using naming_base_inject naming_base_reconcile naming_reconcile_inject assms by metis

theorem object_names_distinct_witness:
  "naming_name (Reconcile 1) 5 23 \<noteq> naming_name (Reconcile 12) 5 3"
  using object_names_distinct [of 1 12 5 23 5 3] by simp

end
