(* ===== verification/S4_Reconcile.thy ===== *)
theory S4_Reconcile
  imports S4_Drain
begin

text \<open>
  Reconciliation (\<^verbatim>\<open>s4logs-drain/src/reconcile.rs\<close>): a window that already has a manifest is read back,
  re-paged, and the events the archive lacks are appended under new object names. The lemmas show
  what is appended, that nothing archived is overwritten and that a clean window is left alone.
\<close>

unbundle bit_operations_syntax

section \<open>Reading archived objects\<close>

text \<open>The \<^verbatim>\<open>ChunkReader\<close> trait: the body, or nothing when the object does not exist; an error has a key and a text.\<close>

type_synonym 's chunk_reader = "string \<Rightarrow> 's \<Rightarrow> (string \<times> string) + bytes option"

definition os_chunk_reader :: "'s s3_client \<Rightarrow> object_store \<Rightarrow> 's chunk_reader" where
  "os_chunk_reader cl st key s =
     (case get_bytes cl st key s of
        Inr b \<Rightarrow> Inr (Some b)
      | Inl (NotFound _) \<Rightarrow> Inr None
      | Inl e \<Rightarrow> Inl (key, store_error_text e))"

definition ms_chunk_reader :: "memory_sink chunk_reader" where
  "ms_chunk_reader key m = Inr (ms_get m key)"

section \<open>Event identity\<close>

definition FNV_OFFSET :: "64 word" where "FNV_OFFSET = 0xcbf29ce484222325"
definition FNV_PRIME :: "64 word" where "FNV_PRIME = 0x00000100000001b3"
definition LANE2_OFFSET :: "64 word" where "LANE2_OFFSET = FNV_OFFSET XOR 0x9e3779b97f4a7c15"
definition LANE2_PRIME :: "64 word" where "LANE2_PRIME = 0xc2b2ae3d27d4eb4f"

type_synonym hash128 = "64 word \<times> 64 word"

definition hash_new :: hash128 where "hash_new = (FNV_OFFSET, LANE2_OFFSET)"

fun hash_write :: "hash128 \<Rightarrow> bytes \<Rightarrow> hash128" where
  "hash_write (a, b) [] = (a, b)"
| "hash_write (a, b) (x # xs) =
     hash_write ((a XOR ucast x) * FNV_PRIME, (b XOR ucast x) * LANE2_PRIME) xs"

fun hash_finish :: "hash128 \<Rightarrow> 128 word" where
  "hash_finish (a, b) = (push_bit 64 (ucast a)) OR ucast b"

definition id_identity :: "string \<Rightarrow> 128 word" where
  "id_identity eid = hash_finish (hash_write (hash_write hash_new [1]) (as_bytes eid))"

definition fallback_identity :: "int \<Rightarrow> string \<Rightarrow> string \<Rightarrow> 128 word" where
  "fallback_identity ts strm msg =
     hash_finish (hash_write (hash_write (hash_write (hash_write (hash_write hash_new [0])
       (le_i64 ts)) (le_u32 (length strm mod 2 ^ 32))) (as_bytes strm)) (as_bytes msg))"

definition record_identity :: "string option \<Rightarrow> int \<Rightarrow> string \<Rightarrow> string \<Rightarrow> 128 word" where
  "record_identity eid ts strm msg =
     (case eid of Some i \<Rightarrow> id_identity i | None \<Rightarrow> fallback_identity ts strm msg)"

section \<open>Errors and reports\<close>

datatype reconcile_error =
    RDrain drain_error
  | RRead string string
  | RMissingObject string
  | RCorrupt string string
  | RTooManyAttempts int nat

datatype window_action = Drained | Reconciled

record window_reconcile_outcome =
  wr_window :: window
  wr_action :: window_action
  wr_cw_events :: nat
  wr_already_archived :: nat
  wr_appended :: nat
  wr_objects_written :: nat

record reconcile_report =
  rr_log_group :: string
  rr_dry_run :: bool
  rr_windows_total :: nat
  rr_windows_drained :: nat
  rr_windows_reconciled :: nat
  rr_windows_repaired :: nat
  rr_cw_events :: nat
  rr_already_archived :: nat
  rr_appended :: nat
  rr_objects_written :: nat
  rr_windows :: "window_reconcile_outcome list"

text \<open>The \<^verbatim>\<open>Display\<close> texts of the errors that end up in a \<^verbatim>\<open>Corrupt\<close> message.\<close>

fun record_error_text :: "record_error \<Rightarrow> string" where
  "record_error_text (Encode _) = ''jsonl encode failed''"
| "record_error_text (Decode _) = ''jsonl decode failed''"

fun read_error_text :: "read_error \<Rightarrow> string" where
  "read_error_text (IndexMismatch f t) = ''S4IX has '' @ show_nat f @ '' entries but S4LT has '' @ show_nat t
     @ '' '' @ [CHR 0xE2, CHR 0x80, CHR 0x94] @ '' sidecars out of sync''"
| "read_error_text (Bomb c) = ''decompressed output exceeded cap of '' @ show_nat c @ '' bytes (decompression bomb?)''"
| "read_error_text (SizeMismatch e g) = ''decompressed '' @ show_nat g @ '' bytes, sidecar claims '' @ show_nat e"
| "read_error_text (ReadIo _) = ''zstd decode failed''"

section \<open>Operations\<close>

definition decode_object :: "chunk_env \<Rightarrow> manifest_object \<Rightarrow> bytes \<Rightarrow> reconcile_error + bytes" where
  "decode_object E obj body =
     (case mo_raw_bytes obj of
        Some raw \<Rightarrow> map_err (\<lambda>e. RCorrupt (mo_data_key obj) (read_error_text e)) (decompress_frames E body raw)
      | None \<Rightarrow>
          let cap = MAX_DECOMPRESSED_BYTES in
          case zstd_decode E body of
            Inl e \<Rightarrow> Inl (RCorrupt (mo_data_key obj) e)
          | Inr (decoded, err) \<Rightarrow>
              let out = take (cap + 1) decoded in
              if err \<noteq> None \<and> length decoded < cap + 1 then Inl (RCorrupt (mo_data_key obj) (the err))
              else if length out > cap
              then Inl (RCorrupt (mo_data_key obj) (''legacy object exceeds '' @ show_nat cap @ ''-byte decode cap''))
              else Inr out)"

definition attempt_of_key :: "string \<Rightarrow> nat option" where
  "attempt_of_key key =
     (case strip_suffix DATA_SUFFIX (last_piece (CHR ''/'') key) of None \<Rightarrow> None
      | Some nm \<Rightarrow>
     (case rsplit_once (CHR ''-'') nm of None \<Rightarrow> None
      | Some (_, sfx) \<Rightarrow>
     (case strip_prefix ''r'' sfx of None \<Rightarrow> None
      | Some digits \<Rightarrow>
          if length digits \<noteq> 6 then None else parse_unsigned (2 ^ 32 - 1) (take 2 digits))))"

definition next_attempt :: "manifest \<Rightarrow> nat" where
  "next_attempt m =
     foldl (\<lambda>mx obj. case attempt_of_key (mo_data_key obj) of None \<Rightarrow> mx | Some a \<Rightarrow> max mx a) 0 (m_objects m) + 1"

definition rec_identity :: "log_record \<Rightarrow> 128 word" where
  "rec_identity r = record_identity (event_id r) (timestamp r) (stream r) (message r)"

fun seen_of_lines ::
    "string \<Rightarrow> (record_error + log_record) list \<Rightarrow> 128 word set \<Rightarrow> reconcile_error + 128 word set" where
  "seen_of_lines key [] seen = Inr seen"
| "seen_of_lines key (r # rs) seen =
     (case r of
        Inl e \<Rightarrow> Inl (RCorrupt key (record_error_text e))
      | Inr x \<Rightarrow> seen_of_lines key rs (insert (rec_identity x) seen))"

fun archived_identities ::
    "chunk_env \<Rightarrow> 's chunk_reader \<Rightarrow> 's \<Rightarrow> manifest_object list \<Rightarrow> 128 word set \<Rightarrow> reconcile_error + 128 word set" where
  "archived_identities E rd s [] seen = Inr seen"
| "archived_identities E rd s (obj # objs) seen =
     (case rd (mo_data_key obj) s of
        Inl (k, m) \<Rightarrow> Inl (RRead k m)
      | Inr None \<Rightarrow> Inl (RMissingObject (mo_data_key obj))
      | Inr (Some body) \<Rightarrow>
         (case decode_object E obj body of
            Inl e \<Rightarrow> Inl e
          | Inr raw \<Rightarrow>
             (case seen_of_lines (mo_data_key obj) (record_lines (json E) raw) seen of
                Inl e \<Rightarrow> Inl e
              | Inr seen' \<Rightarrow> archived_identities E rd s objs seen')))"

definition ev_identity :: "cw_event \<Rightarrow> 128 word" where
  "ev_identity ev = record_identity (ev_event_id ev) (ev_timestamp ev) (ev_log_stream_name ev) (ev_message ev)"

definition is_archived :: "128 word set \<Rightarrow> cw_event \<Rightarrow> bool" where
  "is_archived seen ev \<longleftrightarrow> ev_identity ev \<in> seen
     \<or> ev_event_id ev \<noteq> None
       \<and> fallback_identity (ev_timestamp ev) (ev_log_stream_name ev) (ev_message ev) \<in> seen"

record reconcile_counts =
  rc_seen :: "128 word set"
  rc_cw_events :: nat
  rc_already :: nat
  rc_appended :: nat

fun reconcile_events ::
    "('s, 'c, 'dt) drain_env \<Rightarrow> drain_options \<Rightarrow> window \<Rightarrow> cw_event list \<Rightarrow> reconcile_counts \<Rightarrow> window_writer
     \<Rightarrow> 's drain_state \<Rightarrow> reconcile_counts \<times> window_writer \<times> 's drain_state \<times> (drain_error + unit)" where
  "reconcile_events D opts w [] c ww st = (c, ww, st, Inr ())"
| "reconcile_events D opts w (ev # evs) c ww st =
     (if ev_timestamp ev < start_ms w \<or> ev_timestamp ev \<ge> end_ms w
      then reconcile_events D opts w evs c ww st
      else
        let c1 = c\<lparr>rc_cw_events := rc_cw_events c + 1\<rparr> in
        if is_archived (rc_seen c) ev
        then reconcile_events D opts w evs (c1\<lparr>rc_already := rc_already c + 1\<rparr>) ww st
        else
          let c2 = c1\<lparr>rc_seen := insert (ev_identity ev) (rc_seen c), rc_appended := rc_appended c + 1\<rparr> in
          case ww_push D opts (record_of_event ev) ww st of
            (ww', st', Inl e) \<Rightarrow> (c2, ww', st', Inl e)
          | (ww', st', Inr _) \<Rightarrow> reconcile_events D opts w evs c2 ww' st')"

fun reconcile_pages ::
    "('s, 'c, 'dt) drain_env \<Rightarrow> drain_options \<Rightarrow> window \<Rightarrow> (cw_error + cw_event list) list \<Rightarrow> reconcile_counts
     \<Rightarrow> window_writer \<Rightarrow> 's drain_state \<Rightarrow> reconcile_counts \<times> window_writer \<times> 's drain_state \<times> (drain_error + unit)" where
  "reconcile_pages D opts w [] c ww st = (c, ww, st, Inr ())"
| "reconcile_pages D opts w (page # pages) c ww st =
     (case page of
        Inl e \<Rightarrow> (c, ww, st, Inl (DCw e))
      | Inr events \<Rightarrow>
         (case reconcile_events D opts w events c ww st of
            (c', ww', st', Inl e) \<Rightarrow> (c', ww', st', Inl e)
          | (c', ww', st', Inr _) \<Rightarrow>
              reconcile_pages D opts w pages c' ww'
                (emit opts (Page w (length events) (bytes_so_far ww')) st')))"

definition reconciled_manifest ::
    "('s, 'c, 'dt) drain_env \<Rightarrow> manifest \<Rightarrow> nat \<Rightarrow> manifest_object list \<Rightarrow> manifest" where
  "reconciled_manifest D m appended new =
     m\<lparr>m_record_count := m_record_count m + appended,
       m_reconciled_added := Some ((case m_reconciled_added m of None \<Rightarrow> 0 | Some n \<Rightarrow> n) + appended),
       m_reconciled_at_ms := Some (d_now D),
       m_objects := m_objects m @ new\<rparr>"

text \<open>What follows once the identities of the archive are known, given the pages of the window.\<close>

definition reconcile_append ::
    "('s, 'c, 'dt) drain_env \<Rightarrow> drain_options \<Rightarrow> window \<Rightarrow> manifest \<Rightarrow> string \<Rightarrow> nat \<Rightarrow> 128 word set
     \<Rightarrow> (cw_error + cw_event list) list \<Rightarrow> 's drain_state
     \<Rightarrow> 's drain_state \<times> (reconcile_error + window_reconcile_outcome)" where
  "reconcile_append D opts w m mkey attempt seen pages st =
     (case reconcile_pages D opts w pages \<lparr>rc_seen = seen, rc_cw_events = 0, rc_already = 0, rc_appended = 0\<rparr>
             (ww_new D opts w (Reconcile attempt)) st of
        (_, _, st1, Inl e) \<Rightarrow> (st1, Inl (RDrain e))
      | (c, ww1, st1, Inr _) \<Rightarrow>
         (case ww_finish D opts ww1 st1 of
            (_, st2, Inl e) \<Rightarrow> (st2, Inl (RDrain e))
          | (ww2, st2, Inr _) \<Rightarrow>
              let done = (\<lambda>st3.
                    (emit opts (ReconcileWindowDone w (rc_cw_events c) (rc_already c) (rc_appended c)) st3,
                     Inr \<lparr>wr_window = w, wr_action = Reconciled, wr_cw_events = rc_cw_events c,
                          wr_already_archived = rc_already c, wr_appended = rc_appended c,
                          wr_objects_written = ww_objects_written ww2\<rparr>))
              in if rc_appended c > 0 \<and> \<not> o_dry_run opts then
                   (case to_json_bytes (d_mjson D) (reconciled_manifest D m (rc_appended c) (ww_objects ww2)) of
                      Inl e \<Rightarrow> (st2, Inl (RDrain (DManifest e)))
                    | Inr b \<Rightarrow>
                       (case mf_put (d_manifests D) mkey b (ds_store st2) of
                          (s', Inl e) \<Rightarrow> (st2\<lparr>ds_store := s'\<rparr>, Inl (RDrain (DManifest e)))
                        | (s', Inr _) \<Rightarrow> done (st2\<lparr>ds_store := s'\<rparr>)))
                 else done st2))"

definition reconcile_window ::
    "('s, 'c, 'dt) drain_env \<Rightarrow> 's chunk_reader \<Rightarrow> drain_options \<Rightarrow> window \<Rightarrow> manifest \<Rightarrow> string
     \<Rightarrow> string list list option \<Rightarrow> 's drain_state
     \<Rightarrow> ('s drain_state \<times> (reconcile_error + window_reconcile_outcome)) option" where
  "reconcile_window D rd opts w m mkey shards st0 =
     (let st = emit opts (WindowStarted w) st0 in
      case archived_identities (d_chunk D) rd (ds_store st) (m_objects m) {} of
        Inl e \<Rightarrow> Some (st, Inl e)
      | Inr seen \<Rightarrow>
          let attempt = next_attempt m in
          if attempt > 99 then Some (st, Inl (RTooManyAttempts (start_ms w) 99))
          else map_option (\<lambda>pages. reconcile_append D opts w m mkey attempt seen pages st)
                 (event_pages (d_sched D) (d_cw D) (o_log_group opts) w shards))"

definition reconcile_process_window ::
    "('s, 'c, 'dt) drain_env \<Rightarrow> 's chunk_reader \<Rightarrow> drain_options \<Rightarrow> window \<Rightarrow> string list list option
     \<Rightarrow> 's drain_state \<Rightarrow> ('s drain_state \<times> (reconcile_error + window_reconcile_outcome)) option" where
  "reconcile_process_window D rd opts w shards st =
     (case mf_get (d_manifests D) (window_mkey D opts w) (ds_store st) of
        Inl e \<Rightarrow> Some (st, Inl (RDrain (DManifest e)))
      | Inr None \<Rightarrow>
          map_option (\<lambda>(st', r). case r of
              Inl e \<Rightarrow> (st', Inl (RDrain e))
            | Inr out \<Rightarrow> (st', Inr \<lparr>wr_window = w, wr_action = Drained, wr_cw_events = wo_records out,
                 wr_already_archived = 0, wr_appended = wo_records out,
                 wr_objects_written = wo_objects_written out\<rparr>))
            (process_window D opts w shards st)
      | Inr (Some b) \<Rightarrow>
         (case from_json_bytes (d_mjson D) b of
            Inl e \<Rightarrow> Some (st, Inl (RDrain (DManifest e)))
          | Inr m \<Rightarrow> reconcile_window D rd opts w m (window_mkey D opts w) shards st))"

fun reconcile_windows ::
    "('s, 'c, 'dt) drain_env \<Rightarrow> 's chunk_reader \<Rightarrow> drain_options \<Rightarrow> string list list option \<Rightarrow> window list
     \<Rightarrow> window_reconcile_outcome list \<Rightarrow> 's drain_state
     \<Rightarrow> ('s drain_state \<times> (reconcile_error + window_reconcile_outcome list)) option" where
  "reconcile_windows D rd opts shards [] outs st = Some (st, Inr outs)"
| "reconcile_windows D rd opts shards (w # ws) outs st =
     (case reconcile_process_window D rd opts w shards st of
        None \<Rightarrow> None
      | Some (st', Inl e) \<Rightarrow> Some (st', Inl e)
      | Some (st', Inr out) \<Rightarrow> reconcile_windows D rd opts shards ws (outs @ [out]) st')"

definition count_outcome :: "reconcile_report \<Rightarrow> window_reconcile_outcome \<Rightarrow> reconcile_report" where
  "count_outcome r out =
     (let r1 = (case wr_action out of
           Drained \<Rightarrow> r\<lparr>rr_windows_drained := rr_windows_drained r + 1\<rparr>
         | Reconciled \<Rightarrow> r\<lparr>rr_windows_reconciled := rr_windows_reconciled r + 1,
             rr_windows_repaired := rr_windows_repaired r + (if wr_appended out > 0 then 1 else 0)\<rparr>)
      in r1\<lparr>rr_cw_events := rr_cw_events r1 + wr_cw_events out,
            rr_already_archived := rr_already_archived r1 + wr_already_archived out,
            rr_appended := rr_appended r1 + wr_appended out,
            rr_objects_written := rr_objects_written r1 + wr_objects_written out\<rparr>)"

definition reconcile_run ::
    "('s, 'c, 'dt) drain_env \<Rightarrow> 's chunk_reader \<Rightarrow> (window list \<Rightarrow> window list) \<Rightarrow> drain_options \<Rightarrow> 's drain_state
     \<Rightarrow> ('s drain_state \<times> (reconcile_error + reconcile_report)) option" where
  "reconcile_run D rd order opts st =
     (case resolve_range D opts of
        Inl e \<Rightarrow> Some (st, Inl (RDrain e))
      | Inr (frm, to) \<Rightarrow>
         (case compute_shards D opts of
            Inl e \<Rightarrow> Some (st, Inl (RDrain e))
          | Inr shards \<Rightarrow>
             (case windows frm to (o_window_ms opts) of
                None \<Rightarrow> None
              | Some (Inl e) \<Rightarrow> Some (st, Inl (RDrain (DWindow e)))
              | Some (Inr wins) \<Rightarrow>
                 (case reconcile_windows D rd opts shards (order wins) [] st of
                    None \<Rightarrow> None
                  | Some (st', Inl e) \<Rightarrow> Some (st', Inl e)
                  | Some (st', Inr outs) \<Rightarrow>
                      let outs' = sort_key (\<lambda>o'. start_ms (wr_window o')) outs in
                      Some (st', Inr ((foldl count_outcome
                        \<lparr>rr_log_group = o_log_group opts, rr_dry_run = o_dry_run opts,
                         rr_windows_total = length wins, rr_windows_drained = 0, rr_windows_reconciled = 0,
                         rr_windows_repaired = 0, rr_cw_events = 0, rr_already_archived = 0, rr_appended = 0,
                         rr_objects_written = 0, rr_windows = []\<rparr> outs')\<lparr>rr_windows := outs'\<rparr>))))))"

section \<open>What is appended\<close>

text \<open>The events a pass appends, given the identities seen before it.\<close>

fun late_events :: "128 word set \<Rightarrow> cw_event list \<Rightarrow> cw_event list" where
  "late_events seen [] = []"
| "late_events seen (ev # evs) =
     (if is_archived seen ev then late_events seen evs
      else ev # late_events (insert (ev_identity ev) seen) evs)"

definition ids_of :: "cw_event list \<Rightarrow> 128 word set" where
  "ids_of evs = ev_identity ` set evs"

lemma late_events_append:
  "late_events seen (xs @ ys) = late_events seen xs @ late_events (seen \<union> ids_of (late_events seen xs)) ys"
  by (induction xs arbitrary: seen) (auto simp: ids_of_def)

lemma late_events_fresh:
  "distinct (map ev_identity (late_events seen evs)) \<and> ids_of (late_events seen evs) \<inter> seen = {}"
proof (induction evs arbitrary: seen)
  case (Cons ev evs)
  show ?case
  proof (cases "is_archived seen ev")
    case False
    then have "ev_identity ev \<notin> seen" by (simp add: is_archived_def)
    then show ?thesis
      using Cons [of "insert (ev_identity ev) seen"] False by (auto simp: ids_of_def)
  qed (use Cons in auto)
qed (simp add: ids_of_def)

lemma is_archived_mono: "is_archived A ev \<Longrightarrow> A \<subseteq> B \<Longrightarrow> is_archived B ev"
  by (auto simp: is_archived_def)

lemma late_events_complete:
  "ev \<in> set evs \<Longrightarrow> is_archived (seen \<union> ids_of (late_events seen evs)) ev"
proof (induction evs arbitrary: seen)
  case (Cons e evs)
  show ?case
  proof (cases "is_archived seen e")
    case True
    then show ?thesis using Cons is_archived_mono by (cases "ev = e") fastforce+
  next
    case False
    let ?s = "insert (ev_identity e) seen"
    have sub: "?s \<union> ids_of (late_events ?s evs) \<subseteq> seen \<union> ids_of (late_events seen (e # evs))"
      using False by (auto simp: ids_of_def)
    show ?thesis
    proof (cases "ev = e")
      case True
      then show ?thesis using False by (simp add: is_archived_def ids_of_def)
    next
      case False
      then show ?thesis using Cons.IH [of ?s] Cons.prems is_archived_mono sub by auto
    qed
  qed
qed simp

section \<open>Attempts\<close>

lemma attempt_fold_ge:
  "mx \<le> foldl (\<lambda>mx obj. case attempt_of_key (mo_data_key obj) of None \<Rightarrow> mx | Some a \<Rightarrow> max mx a) mx os"
  "obj \<in> set os \<Longrightarrow> attempt_of_key (mo_data_key obj) = Some a \<Longrightarrow>
     a \<le> foldl (\<lambda>mx obj. case attempt_of_key (mo_data_key obj) of None \<Rightarrow> mx | Some a \<Rightarrow> max mx a) mx os"
proof (induction os arbitrary: mx)
  case (Cons o' os)
  { case 1 show ?case
    proof (cases "attempt_of_key (mo_data_key o')")
      case None
      then show ?thesis using Cons.IH(1) [of mx] by simp
    next
      case (Some a)
      then show ?thesis using Cons.IH(1) [of "max mx a"] by simp
    qed }
  { case 2 show ?case
    proof (cases "obj = o'")
      case True
      then show ?thesis using 2 Cons.IH(1) [of "max mx a"] by simp
    next
      case False
      then show ?thesis using 2 Cons.IH(2) by simp
    qed }
qed simp_all

lemma next_attempt_gt:
  "obj \<in> set (m_objects m) \<Longrightarrow> attempt_of_key (mo_data_key obj) = Some a \<Longrightarrow> a < next_attempt m"
  using attempt_fold_ge(2) [of obj "m_objects m" a 0] by (simp add: next_attempt_def)

lemma length_show_nat_le: "n < 10 ^ k \<Longrightarrow> 0 < k \<Longrightarrow> length (show_nat n) \<le> k"
proof (induction k arbitrary: n)
  case (Suc k)
  show ?case
  proof (cases "n < 10")
    case True
    then show ?thesis by (simp add: show_nat.simps [of n])
  next
    case False
    then have "0 < k" using Suc.prems by (cases k) auto
    moreover have "n div 10 < 10 ^ k" using Suc.prems(1) by (simp add: less_mult_imp_div_less)
    ultimately have "length (show_nat (n div 10)) \<le> k" using Suc.IH by blast
    then show ?thesis using False by (simp add: show_nat.simps [of n])
  qed
qed simp

lemma length_pad0: "n < 10 ^ k \<Longrightarrow> 0 < k \<Longrightarrow> length (pad0 k (show_nat n)) = k"
  using length_show_nat_le by (simp add: pad0_def)

lemma parse_unsigned_pad0: "n \<le> m \<Longrightarrow> parse_unsigned m (pad0 k (show_nat n)) = Some n"
proof -
  assume le: "n \<le> m"
  obtain c cs where c: "pad0 k (show_nat n) = c # cs" "is_digit c" using pad0_hd_digit by blast
  then have "c \<noteq> CHR ''+''" by auto
  then show ?thesis
    using c le digits_val_pad0 [of k n] by (simp add: parse_unsigned_def parse_digits_def)
qed

lemma attempt_of_reconcile_key:
  assumes "t < 100" and "i < 10000"
    and "obj_name l = naming_name (Reconcile t) start i"
  shows "attempt_of_key (data_key l p) = Some t"
proof -
  let ?nm = "naming_name (Reconcile t) start i"
  have "CHR ''/'' \<notin> set (?nm @ DATA_SUFFIX)" using naming_no_slash by (simp add: DATA_SUFFIX_def del: naming_name.simps)
  moreover have "data_key l p = (norm_prefix p @ DATA_SEG @ ''/account='' @ account l @ ''/loggroup=''
      @ sanitize_log_group (log_group l) @ ''/dt='' @ date l) @ CHR ''/'' # ?nm @ DATA_SUFFIX"
    using assms(3) by (simp add: data_key_def loc_tail_def)
  ultimately have lp: "last_piece (CHR ''/'') (data_key l p) = ?nm @ DATA_SUFFIX"
    using last_piece_append by metis
  let ?d = "pad0 2 (show_nat t) @ pad0 4 (show_nat i)"
  have "CHR ''-'' \<notin> set (CHR ''r'' # ?d)" by simp
  then have r: "rsplit_once (CHR ''-'') ?nm = Some (show_int start, CHR ''r'' # ?d)"
    using rsplit_once_append [of "CHR ''-''" "CHR ''r'' # ?d" "show_int start"] by simp
  have d: "length ?d = 6" "take 2 ?d = pad0 2 (show_nat t)"
    using length_show_nat_100 [OF assms(1)] length_pad0 [of i 4] assms(2) by simp_all
  have "parse_unsigned (2 ^ 32 - 1) (pad0 2 (show_nat t)) = Some t"
    using assms(1) by (intro parse_unsigned_pad0) simp
  then show ?thesis
    using d strip_prefix_append [of "''r''" ?d]
    unfolding attempt_of_key_def lp strip_suffix_append option.case r prod.case by simp
qed

section \<open>A pass over a window\<close>

definition counts_after :: "reconcile_counts \<Rightarrow> cw_event list \<Rightarrow> reconcile_counts" where
  "counts_after c evs =
     (let l = late_events (rc_seen c) evs
      in \<lparr>rc_seen = rc_seen c \<union> ids_of l, rc_cw_events = rc_cw_events c + length evs,
          rc_already = rc_already c + (length evs - length l), rc_appended = rc_appended c + length l\<rparr>)"

lemma late_events_length: "length (late_events seen evs) \<le> length evs"
  by (induction evs arbitrary: seen) (auto intro: le_SucI)

lemma counts_after_Nil [simp]: "counts_after c [] = c"
  by (simp add: counts_after_def ids_of_def)

lemma counts_after_append: "counts_after c (xs @ ys) = counts_after (counts_after c xs) ys"
  using late_events_length [of "rc_seen c" xs]
    late_events_length [of "rc_seen c \<union> ids_of (late_events (rc_seen c) xs)" ys]
  by (auto simp: counts_after_def Let_def late_events_append ids_of_def)

lemma counts_after_Cons:
  "counts_after c (ev # evs) =
     (if is_archived (rc_seen c) ev
      then counts_after (c\<lparr>rc_cw_events := rc_cw_events c + 1, rc_already := rc_already c + 1\<rparr>) evs
      else counts_after (c\<lparr>rc_cw_events := rc_cw_events c + 1,
             rc_seen := insert (ev_identity ev) (rc_seen c), rc_appended := rc_appended c + 1\<rparr>) evs)"
  using late_events_length [of "rc_seen c" evs]
  by (auto simp: counts_after_def Let_def ids_of_def Suc_diff_le)

lemma reconcile_events_counts:
  "reconcile_events D opts w evs c ww st = (c', ww', st', Inr u) \<Longrightarrow> c' = counts_after c (filter (in_window w) evs)"
  by (induction evs arbitrary: c ww st)
    (auto simp: in_window_def counts_after_Cons Let_def split: if_splits prod.splits sum.splits)

lemma reconcile_pages_counts:
  "reconcile_pages D opts w pages c ww st = (c', ww', st', Inr u) \<Longrightarrow>
   \<exists>evss. pages = map Inr evss \<and> c' = counts_after c (filter (in_window w) (concat evss))"
proof (induction pages arbitrary: c ww st)
  case (Cons page pages)
  from Cons.prems obtain evs c1 ww1 st1 where pg: "page = Inr evs"
    and e: "reconcile_events D opts w evs c ww st = (c1, ww1, st1, Inr ())"
    and q: "reconcile_pages D opts w pages c1 ww1 (emit opts (Page w (length evs) (bytes_so_far ww1)) st1)
        = (c', ww', st', Inr u)"
    by (auto split: sum.splits prod.splits)
  from Cons.IH [OF q] obtain evss where
    "pages = map Inr evss" "c' = counts_after c1 (filter (in_window w) (concat evss))" by blast
  then show ?case
    using pg reconcile_events_counts [OF e]
    by (intro exI [of _ "evs # evss"]) (simp add: counts_after_append)
qed simp

text \<open>A pass that appends nothing does not touch the writer or the store.\<close>

lemma reconcile_events_clean:
  "reconcile_events D opts w evs c ww st = (c', ww', st', Inr u) \<Longrightarrow>
   late_events (rc_seen c) (filter (in_window w) evs) = [] \<Longrightarrow> ww' = ww \<and> ds_store st' = ds_store st"
  by (induction evs arbitrary: c)
    (auto simp: in_window_def Let_def split: if_splits)

lemma reconcile_pages_clean:
  "reconcile_pages D opts w pages c ww st = (c', ww', st', Inr u) \<Longrightarrow> rc_appended c' = rc_appended c \<Longrightarrow>
   ww' = ww \<and> ds_store st' = ds_store st"
proof (induction pages arbitrary: c ww st)
  case (Cons page pages)
  from Cons.prems obtain evs c1 ww1 st1 where pg: "page = Inr evs"
    and e: "reconcile_events D opts w evs c ww st = (c1, ww1, st1, Inr ())"
    and q: "reconcile_pages D opts w pages c1 ww1 (emit opts (Page w (length evs) (bytes_so_far ww1)) st1)
        = (c', ww', st', Inr u)"
    by (auto split: sum.splits prod.splits)
  have c1: "c1 = counts_after c (filter (in_window w) evs)" using reconcile_events_counts [OF e] .
  obtain evss where "c' = counts_after c1 (filter (in_window w) (concat evss))"
    using reconcile_pages_counts [OF q] by blast
  then have eq: "rc_appended c1 = rc_appended c" "rc_appended c' = rc_appended c1"
    using Cons.prems(2) c1 by (auto simp: counts_after_def Let_def)
  then have "late_events (rc_seen c) (filter (in_window w) evs) = []"
    using c1 by (simp add: counts_after_def Let_def)
  from reconcile_events_clean [OF e this] Cons.IH [OF q] eq(2) show ?case by simp
qed simp

lemma ww_flush_new: "cw_finish E (cw_new c) = Inr None"
  by (simp add: cw_finish_def cw_encode_def cw_new_def Let_def)

context drain_stores
begin

lemma reconcile_events_has:
  assumes z: "zstd_faithful (d_chunk D)" and nd: "\<not> o_dry_run opts"
  shows "ww_has opts ww (ds_store st) rs \<Longrightarrow>
    reconcile_events D opts w evs c ww st = (c', ww', st', Inr u) \<Longrightarrow>
    ww_has opts ww' (ds_store st') (rs @ map record_of_event (late_events (rc_seen c) (filter (in_window w) evs)))"
proof (induction evs arbitrary: ww st c rs)
  case (Cons ev evs)
  show ?case
  proof (cases "in_window w ev \<and> \<not> is_archived (rc_seen c) ev")
    case False
    define c1 where "c1 = (if in_window w ev then c\<lparr>rc_cw_events := rc_cw_events c + 1,
        rc_already := rc_already c + 1\<rparr> else c)"
    have q: "reconcile_events D opts w evs c1 ww st = (c', ww', st', Inr u)" and s: "rc_seen c1 = rc_seen c"
      using Cons.prems(2) False by (auto simp: c1_def in_window_def Let_def)
    show ?thesis using Cons.IH [OF Cons.prems(1) q] s False by (auto split: if_splits)
  next
    case True
    let ?c = "c\<lparr>rc_cw_events := rc_cw_events c + 1, rc_seen := insert (ev_identity ev) (rc_seen c),
        rc_appended := rc_appended c + 1\<rparr>"
    from True obtain ww1 st1 where p: "ww_push D opts (record_of_event ev) ww st = (ww1, st1, Inr ())"
      and q: "reconcile_events D opts w evs ?c ww1 st1 = (c', ww', st', Inr u)"
      using Cons.prems(2) by (auto simp: in_window_def Let_def split: prod.splits sum.splits)
    show ?thesis using Cons.IH [OF ww_push_has [OF z nd Cons.prems(1) p] q] True by simp
  qed
qed simp

lemma reconcile_pages_has:
  assumes z: "zstd_faithful (d_chunk D)" and nd: "\<not> o_dry_run opts"
  shows "ww_has opts ww (ds_store st) rs \<Longrightarrow>
    reconcile_pages D opts w (map Inr evss) c ww st = (c', ww', st', Inr u) \<Longrightarrow>
    ww_has opts ww' (ds_store st')
      (rs @ map record_of_event (late_events (rc_seen c) (filter (in_window w) (concat evss))))"
proof (induction evss arbitrary: ww st c rs)
  case (Cons evs evss)
  from Cons.prems(2) obtain c1 ww1 st1 where
    e: "reconcile_events D opts w evs c ww st = (c1, ww1, st1, Inr ())"
    and q: "reconcile_pages D opts w (map Inr evss) c1 ww1 (emit opts (Page w (length evs) (bytes_so_far ww1)) st1)
        = (c', ww', st', Inr u)"
    by (auto split: sum.splits prod.splits)
  have h: "ww_has opts ww1 (ds_store (emit opts (Page w (length evs) (bytes_so_far ww1)) st1))
      (rs @ map record_of_event (late_events (rc_seen c) (filter (in_window w) evs)))"
    using reconcile_events_has [OF z nd Cons.prems(1) e] by simp
  have "rc_seen c1 = rc_seen c \<union> ids_of (late_events (rc_seen c) (filter (in_window w) evs))"
    using reconcile_events_counts [OF e] by (simp add: counts_after_def Let_def)
  then show ?case using Cons.IH [OF h q] by (simp add: late_events_append)
qed simp

end

section \<open>A reconciled window\<close>

text \<open>The keys a drain or an earlier reconcile of the window has used.\<close>

definition window_object_key :: "string \<Rightarrow> int \<Rightarrow> string \<Rightarrow> bool" where
  "window_object_key p start key \<longleftrightarrow>
     (\<exists>l n i. key = data_key l p \<and> wf_location l \<and> obj_name l = naming_name n start i
        \<and> (n = Base \<or> (\<exists>t. n = Reconcile t \<and> t < 100 \<and> i < 10000)))"

lemma reconcile_events_stable:
  "put_stable D opts (ww_locations opts ww) P \<Longrightarrow> P (ds_store st) \<Longrightarrow>
   reconcile_events D opts w evs c ww st = (c', ww', st', r) \<Longrightarrow>
   P (ds_store st') \<and> ww_locations opts ww' = ww_locations opts ww"
proof (induction evs arbitrary: c ww st)
  case (Cons ev evs)
  show ?case
  proof (cases "in_window w ev \<and> \<not> is_archived (rc_seen c) ev")
    case False
    then obtain c1 where "reconcile_events D opts w evs c1 ww st = (c', ww', st', r)"
      using Cons.prems(3) by (auto simp: in_window_def Let_def split: if_splits)
    then show ?thesis using Cons.IH Cons.prems(1,2) by blast
  next
    case True
    obtain ww1 st1 r1 where p: "ww_push D opts (record_of_event ev) ww st = (ww1, st1, r1)"
      by (metis prod_cases3)
    have s1: "P (ds_store st1)" using ww_push_stable [OF Cons.prems(1,2) p] .
    note l1 = ww_push_locations [OF p]
    show ?thesis
    proof (cases r1)
      case Inl
      then show ?thesis using Cons.prems(3) p True s1 l1 by (simp add: in_window_def Let_def)
    next
      case Inr
      then obtain c1 where "reconcile_events D opts w evs c1 ww1 st1 = (c', ww', st', r)"
        using Cons.prems(3) p True by (auto simp: in_window_def Let_def)
      then show ?thesis using Cons.IH [of ww1 st1] Cons.prems(1) s1 l1 by simp
    qed
  qed
qed simp

lemma reconcile_pages_stable:
  "put_stable D opts (ww_locations opts ww) P \<Longrightarrow> P (ds_store st) \<Longrightarrow>
   reconcile_pages D opts w pages c ww st = (c', ww', st', r) \<Longrightarrow>
   P (ds_store st') \<and> ww_locations opts ww' = ww_locations opts ww"
proof (induction pages arbitrary: c ww st)
  case (Cons page pages)
  show ?case
  proof (cases page)
    case (Inr evs)
    obtain c1 ww1 st1 r1 where p: "reconcile_events D opts w evs c ww st = (c1, ww1, st1, r1)"
      by (metis prod_cases4)
    have s1: "P (ds_store st1) \<and> ww_locations opts ww1 = ww_locations opts ww"
      using reconcile_events_stable [OF Cons.prems(1,2) p] .
    show ?thesis
    proof (cases r1)
      case Inl
      then show ?thesis using Cons.prems p \<open>page = Inr evs\<close> s1 by simp
    next
      case Inr
      then have "reconcile_pages D opts w pages c1 ww1 (emit opts (Page w (length evs) (bytes_so_far ww1)) st1)
          = (c', ww', st', r)" using Cons.prems p \<open>page = Inr evs\<close> by simp
      from Cons.IH [OF _ _ this] s1 Cons.prems(1) show ?thesis by simp
    qed
  qed (use Cons.prems in auto)
qed simp

context drain_stores
begin

lemma objs_stable:
  assumes "wf_location l" and "\<And>i. wf_location (seq_location opts ww i) \<and> seq_location opts ww i \<noteq> l"
  shows "put_stable D opts (ww_locations opts ww) (\<lambda>s. inv s \<and> objs s (data_key l (d_prefix D)) = v)"
  unfolding put_stable_def
proof (intro ballI allI impI)
  fix loc ch s assume L: "loc \<in> ww_locations opts ww" and h: "inv s \<and> objs s (data_key l (d_prefix D)) = v"
  obtain s' r where p: "d_put D loc ch s = (s', r)" by fastforce
  obtain i where "loc = seq_location opts ww i" using L by (auto simp: ww_locations_def)
  then have "wf_location loc" "l \<noteq> loc" using assms(2) by auto
  then show "inv (fst (d_put D loc ch s)) \<and> objs (fst (d_put D loc ch s)) (data_key l (d_prefix D)) = v"
    using h sink.put_inv [OF _ p] sink.put_keeps_data [OF _ p assms(1)] p by simp
qed

lemma old_objects_stable:
  assumes n: "names_ok opts (ww_new D opts w (Reconcile (next_attempt m)))"
    and o: "obj \<in> set (m_objects m)" "window_object_key (d_prefix D) (start_ms w) (mo_data_key obj)"
  shows "put_stable D opts (ww_locations opts (ww_new D opts w (Reconcile (next_attempt m))))
    (\<lambda>s. inv s \<and> objs s (mo_data_key obj) = v)"
proof -
  let ?ww = "ww_new D opts w (Reconcile (next_attempt m))"
  from o(2) obtain l nm i where l: "mo_data_key obj = data_key l (d_prefix D)" "wf_location l"
    "obj_name l = naming_name nm (start_ms w) i" "nm = Base \<or> (\<exists>t. nm = Reconcile t \<and> t < 100 \<and> i < 10000)"
    by (auto simp: window_object_key_def)
  have "seq_location opts ?ww j \<noteq> l" for j
  proof
    assume "seq_location opts ?ww j = l"
    then have "obj_name l = naming_name (Reconcile (next_attempt m)) (start_ms w) j"
      by (auto simp: seq_location_def ww_location_def ww_new_def)
    with l(3) have eq: "naming_name nm (start_ms w) i = naming_name (Reconcile (next_attempt m)) (start_ms w) j"
      by metis
    then obtain t where t: "nm = Reconcile t" "t < 100" "i < 10000"
      using l(4) naming_base_reconcile by blast
    have "next_attempt m < 100" using n by (simp add: names_ok_def ww_new_def)
    then have "t = next_attempt m" using eq t naming_reconcile_inject by blast
    moreover have "t < next_attempt m"
      using next_attempt_gt [OF o(1)] attempt_of_reconcile_key [of t i l "start_ms w" "d_prefix D"] l t by simp
    ultimately show False by simp
  qed
  then show ?thesis using objs_stable [OF l(2)] seq_location_wf [OF n] l(1) by simp
qed

lemma reconcile_append_result:
  assumes z: "zstd_faithful (d_chunk D)" and nd: "\<not> o_dry_run opts" and i: "inv (ds_store st)"
    and n: "names_ok opts (ww_new D opts w (Reconcile (next_attempt m)))"
    and r: "reconcile_append D opts w m (window_mkey D opts w) (next_attempt m) seen pages st = (st', Inr out)"
  shows "\<exists>evss l. pages = map Inr evss \<and> l = late_events seen (filter (in_window w) (concat evss))
    \<and> wr_appended out = length l \<and> wr_cw_events out = length (filter (in_window w) (concat evss))
    \<and> wr_already_archived out = wr_cw_events out - wr_appended out
    \<and> (l = [] \<longrightarrow> ds_store st' = ds_store st)
    \<and> (l \<noteq> [] \<longrightarrow> (\<exists>new gs b. to_json_bytes (d_mjson D) (reconciled_manifest D m (length l) new) = Inr b
         \<and> view (ds_store st') (window_mkey D opts w) = Some b
         \<and> list_all2 (obj_holds (d_chunk D) (objs (ds_store st'))) new gs \<and> concat gs = map record_of_event l))
    \<and> (\<forall>obj \<in> set (m_objects m). window_object_key (d_prefix D) (start_ms w) (mo_data_key obj) \<longrightarrow>
         objs (ds_store st') (mo_data_key obj) = objs (ds_store st) (mo_data_key obj))"
proof -
  let ?ww = "ww_new D opts w (Reconcile (next_attempt m))"
  let ?c = "\<lparr>rc_seen = seen, rc_cw_events = 0, rc_already = 0, rc_appended = 0\<rparr>"
  from r obtain c ww1 st1 ww2 st2 where
    p: "reconcile_pages D opts w pages ?c ?ww st = (c, ww1, st1, Inr ())"
    and f: "ww_finish D opts ww1 st1 = (ww2, st2, Inr ())"
    by (auto simp: reconcile_append_def split: prod.splits sum.splits)
  from reconcile_pages_counts [OF p] obtain evss where
    e: "pages = map Inr evss" "c = counts_after ?c (filter (in_window w) (concat evss))" by blast
  define l where "l = late_events seen (filter (in_window w) (concat evss))"
  have c: "rc_appended c = length l" "rc_cw_events c = length (filter (in_window w) (concat evss))"
    "rc_already c = rc_cw_events c - rc_appended c"
    using e(2) by (simp_all add: counts_after_def Let_def l_def)
  have out: "wr_appended out = rc_appended c" "wr_cw_events out = rc_cw_events c"
    "wr_already_archived out = rc_already c"
    using r p f by (auto simp: reconcile_append_def Let_def split: prod.splits sum.splits if_splits)
  have h1: "ww_has opts ww1 (ds_store st1) (map record_of_event l)"
    using reconcile_pages_has [OF z nd ww_has_new [OF i n] p [unfolded e(1)]] by (simp add: l_def)
  from ww_finish_objs [OF z nd h1 f] obtain gs where
    o: "ww_objs opts ww2 (ds_store st2) gs" and gs: "concat gs = map record_of_event l" by blast
  have kept: "P (ds_store st2)" if "put_stable D opts (ww_locations opts ?ww) P" "P (ds_store st)" for P
    using reconcile_pages_stable [OF that p] ww_finish_stable [OF _ _ f, of P] that(1) by simp
  have i2: "inv (ds_store st2)" using o by (simp add: ww_objs_def)
  show ?thesis
  proof (cases "l = []")
    case True
    have "ww1 = ?ww \<and> ds_store st1 = ds_store st"
      using reconcile_pages_clean [OF p] c(1) True by simp
    then have "ds_store st2 = ds_store st"
      using f by (auto simp: ww_finish_def ww_flush_def ww_new_def ww_flush_new)
    then have "ds_store st' = ds_store st"
      using r p f c(1) True by (auto simp: reconcile_append_def Let_def)
    then show ?thesis using e(1) True out c l_def by (intro exI [of _ evss] exI [of _ l]) simp
  next
    case False
    then have "rc_appended c > 0 \<and> \<not> o_dry_run opts" using c(1) nd by simp
    then obtain b s' where m: "to_json_bytes (d_mjson D) (reconciled_manifest D m (rc_appended c) (ww_objects ww2)) = Inr b"
      and q: "mf_put (d_manifests D) (window_mkey D opts w) b (ds_store st2) = (s', Inr ())" "ds_store st' = s'"
      using r p f by (auto simp: reconcile_append_def Let_def split: prod.splits sum.splits)
    have keep: "objs s' (data_key l (d_prefix D)) = objs (ds_store st2) (data_key l (d_prefix D))" for l
      using man_keeps_objs [OF i2] q(1) by (simp add: window_mkey_def)
    have "objs s' (mo_data_key o') = objs (ds_store st2) (mo_data_key o')" if o': "o' \<in> set (ww_objects ww2)" for o'
    proof -
      have "mo_data_key o' \<in> set (map mo_data_key (ww_objects ww2))" using o' by simp
      also have "\<dots> = set (map (\<lambda>i. data_key (seq_location opts ww2 i) (d_prefix D)) [0..<ww_seq ww2])"
        using o unfolding ww_objs_def by metis
      finally show ?thesis using keep by auto
    qed
    then have holds: "list_all2 (obj_holds (d_chunk D) (objs s')) (ww_objects ww2) gs"
      using o by (auto simp: ww_objs_def list_all2_conv_all_nth obj_holds_def)
    have v: "view s' (window_mkey D opts w) = Some b" using man.put_view [OF q(1)] .
    have old: "objs s' (mo_data_key obj) = objs (ds_store st) (mo_data_key obj)"
      if ob: "obj \<in> set (m_objects m)" "window_object_key (d_prefix D) (start_ms w) (mo_data_key obj)" for obj
    proof -
      have "objs (ds_store st2) (mo_data_key obj) = objs (ds_store st) (mo_data_key obj)"
        using kept [OF old_objects_stable [OF n ob]] i by simp
      moreover obtain k where "mo_data_key obj = data_key k (d_prefix D)"
        using ob(2) by (auto simp: window_object_key_def)
      ultimately show ?thesis using keep [of k] by simp
    qed
    show ?thesis
      using e(1) l_def out c m v holds gs old q(2) False
      by (intro exI [of _ evss] exI [of _ l]) (simp, metis)
  qed
qed

end

lemma seen_of_lines_map: "seen_of_lines key (map Inr rs) seen = Inr (seen \<union> rec_identity ` set rs)"
  by (induction rs arbitrary: seen) auto

lemma decode_object_holds:
  assumes "obj_holds E os obj g" and "os (mo_data_key obj) = Some b"
    and "length (jsonl_text (json E) g) \<le> MAX_DECOMPRESSED_BYTES"
  shows "decode_object E obj b = Inr (jsonl_text (json E) g)"
  using assms decompress_frames_exact [of E b "jsonl_text (json E) g"]
  by (auto simp: obj_holds_def decode_object_def)

lemma archived_identities_holds:
  assumes "list_all2 (obj_holds E (objs s)) os gs"
    and "\<forall>k b. objs s k = Some b \<longrightarrow> rd k s = Inr (Some b)"
    and "jsonl_faithful (json E) (concat gs)"
    and "\<forall>g \<in> set gs. length (jsonl_text (json E) g) \<le> MAX_DECOMPRESSED_BYTES"
  shows "archived_identities E rd s os seen = Inr (seen \<union> rec_identity ` set (concat gs))"
  using assms(1,3,4)
proof (induction os gs arbitrary: seen rule: list_all2_induct)
  case (Cons obj os g gs)
  from Cons.hyps(1) obtain b where b: "objs s (mo_data_key obj) = Some b" by (auto simp: obj_holds_def)
  have "decode_object E obj b = Inr (jsonl_text (json E) g)"
    using decode_object_holds [OF Cons.hyps(1) b] Cons.prems by simp
  moreover have "record_lines (json E) (jsonl_text (json E) g) = map Inr g"
    using Cons.prems by (intro record_lines_text) simp
  ultimately show ?case
    using Cons.IH [of "seen \<union> rec_identity ` set g"] Cons.prems assms(2) b
    by (simp add: seen_of_lines_map Un_assoc image_Un)
qed simp

lemma sample_reconcile:
  "\<exists>st' out. reconcile_window (sample_job sample_source any_json) (os_chunk_reader map_client (os_new ''b'' ''p''))
     sample_opts sample_window sample_manifest
     (window_mkey (sample_job sample_source any_json) sample_opts sample_window) None empty_state
     = Some (st', Inr out)"
  by (simp add: reconcile_window_def reconcile_append_def job_defs sample_defs sample_source_def
      sample_manifest_def next_attempt_def is_archived_def os_put_chunk_def put_data_bytes_def
      encode_sidecars_def sample_codec_def)

section \<open>Properties\<close>



text \<open>
  The identity set is that of the archive. When the objects a manifest lists hold record
  groups (as a drain or reconcile leaves them) and can be read, the pass collects exactly the
  identities of those records; no object or record is missed.
\<close>

theorem archived_identities_exact:
  assumes "list_all2 (obj_holds E (objs s)) os gs"
    and "\<forall>k b. objs s k = Some b \<longrightarrow> rd k s = Inr (Some b)"
    and "jsonl_faithful (json E) (concat gs)"
    and "\<forall>g \<in> set gs. length (jsonl_text (json E) g) \<le> MAX_DECOMPRESSED_BYTES"
  shows "archived_identities E rd s os {} = Inr (rec_identity ` set (concat gs))"
  using archived_identities_holds [of E objs s os gs rd "{}"] assms by simp

theorem archived_identities_exact_witness:
  "archived_identities sample_env (\<lambda>k m. Inr (m k)) [''k'' \<mapsto> [65, NL]]
     [\<lparr>mo_data_key = ''k'', mo_etag = None, mo_crc32c = 0, mo_body_len = 2, mo_raw_bytes = Some 2,
       mo_storage_class = None, mo_record_count = 1, mo_min_ts = 5, mo_max_ts = 5\<rparr>] {}
   = Inr {rec_identity (sample_record 5)}"
proof -
  have "list_all2 (obj_holds sample_env [''k'' \<mapsto> [65, NL]])
     [\<lparr>mo_data_key = ''k'', mo_etag = None, mo_crc32c = 0, mo_body_len = 2, mo_raw_bytes = Some 2,
       mo_storage_class = None, mo_record_count = 1, mo_min_ts = 5, mo_max_ts = 5\<rparr>] [[sample_record 5]]"
    by (simp add: obj_holds_def sample_env_def sample_json_def sample_record_def jsonl_line_def
        ts_min_def ts_max_def i64_MAX_def i64_MIN_def)
  moreover have "jsonl_faithful (json sample_env) (concat [[sample_record 5]])"
    using sample_jsonl_faithful by simp
  moreover have "\<forall>g \<in> set [[sample_record 5]]. length (jsonl_text (json sample_env) g) \<le> MAX_DECOMPRESSED_BYTES"
    using sample_text_length by (simp add: MAX_DECOMPRESSED_BYTES_def)
  ultimately have "archived_identities sample_env (\<lambda>k m. Inr (m k)) [''k'' \<mapsto> [65, NL]]
     [\<lparr>mo_data_key = ''k'', mo_etag = None, mo_crc32c = 0, mo_body_len = 2, mo_raw_bytes = Some 2,
       mo_storage_class = None, mo_record_count = 1, mo_min_ts = 5, mo_max_ts = 5\<rparr>] {}
     = Inr (rec_identity ` set (concat [[sample_record 5]]))"
    by (intro archived_identities_exact [where objs = "\<lambda>m. m"]) simp_all
  then show ?thesis by (simp del: archived_identities.simps)
qed

end
