(* ===== verification/S4_Retention.thy ===== *)
theory S4_Retention
  imports S4_Drain
begin

text \<open>
  The retention gate (\<^verbatim>\<open>s4logs-drain/src/retention.rs\<close>): CloudWatch may only be told to expire events
  once every window that can hold one of them has a manifest that decodes and matches.
\<close>

section \<open>Definitions\<close>

record retention_request =
  rq_account :: string
  rq_log_group :: string
  rq_retention_days :: int
  rq_coverage_from_ms :: int
  rq_now_ms :: int
  rq_window_ms :: int

record retention_plan =
  rp_log_group :: string
  rp_retention_days :: int
  rp_cutoff_ms :: int
  rp_required_windows :: "window list"
  rp_missing_windows :: "window list"
  rp_applied :: bool

definition rp_allowed :: "retention_plan \<Rightarrow> bool" where
  "rp_allowed p \<longleftrightarrow> rp_missing_windows p = []"

fun missing_windows_loop ::
    "manifest serde \<Rightarrow> 's manifest_store \<Rightarrow> string \<Rightarrow> retention_request \<Rightarrow> 's \<Rightarrow> window list \<Rightarrow> window list
     \<Rightarrow> drain_error + window list" where
  "missing_windows_loop J M key_prefix req s [] missing = Inr missing"
| "missing_windows_loop J M key_prefix req s (w # ws) missing =
     (case mf_get M (manifest_key key_prefix (rq_account req) (rq_log_group req) (start_ms w) (end_ms w)) s of
        Inl e \<Rightarrow> Inl (DManifest e)
      | Inr found \<Rightarrow>
          let covered = (case found of
                None \<Rightarrow> False
              | Some b \<Rightarrow> manifest_covers_window J b (rq_account req) (rq_log_group req) (start_ms w) (end_ms w))
          in missing_windows_loop J M key_prefix req s ws (if covered then missing else missing @ [w]))"

definition retention_cutoff :: "retention_request \<Rightarrow> int" where
  "retention_cutoff req = sat_i64 (rq_now_ms req - sat_i64 (rq_retention_days req * DAY_MS))"

definition plan_retention ::
    "manifest serde \<Rightarrow> 's manifest_store \<Rightarrow> string \<Rightarrow> retention_request \<Rightarrow> 's
     \<Rightarrow> (drain_error + retention_plan) option" where
  "plan_retention J M key_prefix req s =
     (if rq_retention_days req \<le> 0
      then Some (Inl (DBadOptions (''retention_days must be > 0, got '' @ show_int (rq_retention_days req))))
      else
        let cutoff_ms = retention_cutoff req in
        case (if cutoff_ms \<le> rq_coverage_from_ms req then Some (Inr [])
              else windows_covering (rq_coverage_from_ms req) cutoff_ms (rq_window_ms req)) of
          None \<Rightarrow> None
        | Some (Inl e) \<Rightarrow> Some (Inl (DWindow e))
        | Some (Inr required) \<Rightarrow>
            Some (case missing_windows_loop J M key_prefix req s required [] of
                    Inl e \<Rightarrow> Inl e
                  | Inr missing \<Rightarrow>
                      Inr \<lparr>rp_log_group = rq_log_group req, rp_retention_days = rq_retention_days req,
                           rp_cutoff_ms = cutoff_ms, rp_required_windows = required,
                           rp_missing_windows = missing, rp_applied = False\<rparr>))"

text \<open>\<open>c\<close> is the state of CloudWatch, \<open>s\<close> that of the manifest store.\<close>

definition enforce_retention ::
    "manifest serde \<Rightarrow> 'c cw_source \<Rightarrow> 's manifest_store \<Rightarrow> string \<Rightarrow> retention_request \<Rightarrow> bool \<Rightarrow> 's \<Rightarrow> 'c
     \<Rightarrow> ('c \<times> (drain_error + retention_plan)) option" where
  "enforce_retention J cw M key_prefix req apply_it s c =
     (case plan_retention J M key_prefix req s of
        None \<Rightarrow> None
      | Some (Inl e) \<Rightarrow> Some (c, Inl e)
      | Some (Inr plan) \<Rightarrow>
          if \<not> rp_allowed plan then Some (c, Inr plan)
          else if apply_it then
            (case put_retention_policy cw (rq_log_group req) (rq_retention_days req) c of
               (c', Inl e) \<Rightarrow> Some (c', Inl (DCw e))
             | (c', Inr _) \<Rightarrow> Some (c', Inr (plan\<lparr>rp_applied := True\<rparr>)))
          else Some (c, Inr plan))"

section \<open>Lemmas\<close>

definition manifest_proves ::
    "manifest serde \<Rightarrow> ('s \<Rightarrow> string \<rightharpoonup> bytes) \<Rightarrow> string \<Rightarrow> retention_request \<Rightarrow> 's \<Rightarrow> window \<Rightarrow> bool" where
  "manifest_proves J view p req s w \<longleftrightarrow>
     (\<exists>b. view s (manifest_key p (rq_account req) (rq_log_group req) (start_ms w) (end_ms w)) = Some b
        \<and> manifest_covers_window J b (rq_account req) (rq_log_group req) (start_ms w) (end_ms w))"

context manifest_view
begin

lemma missing_windows_exact:
  assumes "missing_windows_loop J M p req s ws missing = Inr out"
  shows "out = missing @ filter (\<lambda>w. \<not> manifest_proves J view p req s w) ws"
  using assms
proof (induction ws arbitrary: missing)
  case (Cons w ws)
  then obtain found where f: "mf_get M (manifest_key p (rq_account req) (rq_log_group req) (start_ms w) (end_ms w)) s = Inr found"
    by (auto split: sum.splits)
  have v: "found = view s (manifest_key p (rq_account req) (rq_log_group req) (start_ms w) (end_ms w))"
    using get_view [OF f] .
  have c: "(case found of None \<Rightarrow> False | Some b \<Rightarrow> manifest_covers_window J b (rq_account req)
      (rq_log_group req) (start_ms w) (end_ms w)) \<longleftrightarrow> manifest_proves J view p req s w"
    by (simp add: v manifest_proves_def split: option.splits)
  have "missing_windows_loop J M p req s ws
      (if manifest_proves J view p req s w then missing else missing @ [w]) = Inr out"
    using Cons.prems by (simp add: f c)
  from Cons.IH [OF this] show ?case by simp
qed simp

lemma plan_retention_exact:
  assumes "plan_retention J M p req s = Some (Inr plan)"
  shows "rp_missing_windows plan = filter (\<lambda>w. \<not> manifest_proves J view p req s w) (rp_required_windows plan)
    \<and> rp_cutoff_ms plan = retention_cutoff req \<and> \<not> rp_applied plan
    \<and> (retention_cutoff req \<le> rq_coverage_from_ms req \<and> rp_required_windows plan = []
       \<or> windows_covering (rq_coverage_from_ms req) (retention_cutoff req) (rq_window_ms req)
           = Some (Inr (rp_required_windows plan)))"
  using assms
  by (auto simp: plan_retention_def Let_def dest: missing_windows_exact
      split: if_splits option.splits sum.splits)

end

lemma windows_covering_valid:
  assumes "windows_covering frm until w = Some (Inr ws)" and "frm < horizon" and "until \<le> horizon"
    and "frm \<le> t" and "t < until"
  shows "\<exists>x \<in> set ws. holds_ts x t"
proof -
  have v: "0 < w" "0 \<le> frm" "0 \<le> until"
    using assms(1) by (auto simp: windows_covering_def validate_def split: if_splits)
  from windows_covering_total [OF v(1,2) assms(2) v(3) assms(3)] assms(1) obtain b where
    "chain (align_down frm w) ws b" "until \<le> b" by auto
  then show ?thesis
    using chain_covers [of "align_down frm w" ws b t] align_down_parts(3) [OF v(2,1)] assms(4,5) by linarith
qed

lemma enforce_fail_closed:
  assumes "manifest_view M view"
    and "enforce_retention J cw M p req apply_it s c = Some (c', res)"
    and "c' \<noteq> c \<or> (\<exists>plan. res = Inr plan \<and> rp_applied plan)"
    and "rq_coverage_from_ms req < horizon" and "retention_cutoff req \<le> horizon"
  shows "apply_it \<and> (\<forall>t. rq_coverage_from_ms req \<le> t \<and> t < retention_cutoff req \<longrightarrow>
     (\<exists>w. holds_ts w t \<and> manifest_proves J view p req s w))"
proof -
  from assms(2,3) obtain plan where pl: "plan_retention J M p req s = Some (Inr plan)"
    and al: "rp_allowed plan" and ap: "apply_it"
    using manifest_view.plan_retention_exact [OF assms(1)]
    by (auto simp: enforce_retention_def split: option.splits sum.splits if_splits)
  note ex = manifest_view.plan_retention_exact [OF assms(1) pl]
  have all: "\<forall>w \<in> set (rp_required_windows plan). manifest_proves J view p req s w"
    using ex al by (simp add: rp_allowed_def filter_empty_conv)
  have "\<exists>w. holds_ts w t \<and> manifest_proves J view p req s w"
    if "rq_coverage_from_ms req \<le> t" "t < retention_cutoff req" for t
    using ex windows_covering_valid [OF _ assms(4,5) that] all that by fastforce
  then show ?thesis using ap by blast
qed

section \<open>Properties\<close>



text \<open>
  The gate is exact. The missing windows of a plan are precisely the required windows without
  an accepted manifest, in order, and when every required window has one the plan is allowed and,
  if applying was requested, the policy is written.
\<close>

theorem retention_plan_exact:
  assumes "manifest_view M view" and "plan_retention J M p req s = Some (Inr plan)"
  shows "rp_missing_windows plan = filter (\<lambda>w. \<not> manifest_proves J view p req s w) (rp_required_windows plan)
    \<and> (rp_allowed plan \<longleftrightarrow> (\<forall>w \<in> set (rp_required_windows plan). manifest_proves J view p req s w))
    \<and> (rp_allowed plan \<longrightarrow> enforce_retention J cw M p req True s c
        = Some (case put_retention_policy cw (rq_log_group req) (rq_retention_days req) c of
            (c', Inl e) \<Rightarrow> (c', Inl (DCw e)) | (c', Inr _) \<Rightarrow> (c', Inr (plan\<lparr>rp_applied := True\<rparr>))))
    \<and> (\<not> rp_allowed plan \<longrightarrow> enforce_retention J cw M p req True s c = Some (c, Inr plan))"
  using manifest_view.plan_retention_exact [OF assms] assms(2)
  by (auto simp: rp_allowed_def filter_empty_conv enforce_retention_def split: prod.splits sum.splits)

theorem retention_plan_exact_witness:
  "\<exists>plan. plan_retention sample_manifest_json memory_manifest_store ''p''
       \<lparr>rq_account = ''1'', rq_log_group = ''g'', rq_retention_days = 1, rq_coverage_from_ms = 20,
        rq_now_ms = DAY_MS, rq_window_ms = 20\<rparr> Map.empty = Some (Inr plan)
     \<and> enforce_retention sample_manifest_json sample_source memory_manifest_store ''p''
       \<lparr>rq_account = ''1'', rq_log_group = ''g'', rq_retention_days = 1, rq_coverage_from_ms = 20,
        rq_now_ms = DAY_MS, rq_window_ms = 20\<rparr> True Map.empty () = Some ((), Inr (plan\<lparr>rp_applied := True\<rparr>))"
proof -
  let ?req = "\<lparr>rq_account = ''1'', rq_log_group = ''g'', rq_retention_days = 1, rq_coverage_from_ms = 20,
        rq_now_ms = DAY_MS, rq_window_ms = 20\<rparr>"
  have "retention_cutoff ?req = 0"
    by (simp add: retention_cutoff_def DAY_MS_def sat_i64_def i64_MIN_def i64_MAX_def)
  then obtain plan where p: "plan_retention sample_manifest_json memory_manifest_store ''p'' ?req Map.empty = Some (Inr plan)"
    "rp_allowed plan"
    by (simp add: plan_retention_def rp_allowed_def)
  from retention_plan_exact [OF memory_manifests.manifest_view_axioms p(1), of sample_source "()"] p
  show ?thesis by (simp add: sample_source_def)
qed

end
