(* ===== verification/S4_Merge.thy ===== *)
theory S4_Merge
  imports S4_Sink "HOL-Library.Product_Lexorder" "HOL-Library.Multiset"
begin

text \<open>
  The streaming merge of the command line's read path (\<^verbatim>\<open>s4logs-cli/src/scan.rs\<close>): the frames of a
  chunk grouped into decode units (\<^verbatim>\<open>cluster_spans\<close>), and \<^verbatim>\<open>KWayMerge\<close>, which pulls batches from many
  sources and hands out one record at a time through a heap. The \<^verbatim>\<open>RecordBatchSource\<close> trait is a locale;
  inside it the merge is shown to be the stable sort of everything its sources yield.
\<close>

section \<open>Frame clusters\<close>

fun cluster_loop ::
    "(frame_span \<times> int \<times> int) list \<Rightarrow> (int \<times> frame_span list) list \<Rightarrow> (int \<times> frame_span list) list" where
  "cluster_loop [] out = out"
| "cluster_loop ((span, mn, mx) # spans) out =
     (if out \<noteq> [] \<and> mn \<le> fst (last out)
      then cluster_loop spans (butlast out @ [(max (fst (last out)) mx, snd (last out) @ [span])])
      else cluster_loop spans (out @ [(mx, [span])]))"

definition cluster_spans :: "(frame_span \<times> int \<times> int) list \<Rightarrow> frame_span list list" where
  "cluster_spans spans = map snd (cluster_loop (sort_key (\<lambda>(s, mn, _). (mn, frame_idx s)) spans) [])"

section \<open>The merge\<close>

text \<open>
  A heap entry is the head record of one source. \<^verbatim>\<open>BinaryHeap<Reverse<Head>>\<close> is kept as the list of
  its entries in the order \<^verbatim>\<open>pop\<close> would return them.
\<close>

record head =
  h_rec :: log_record
  h_src :: nat

definition rec_order :: "log_record \<Rightarrow> int \<times> string" where
  "rec_order r = (timestamp r, stream r)"

definition head_key :: "head \<Rightarrow> int \<times> string \<times> nat" where
  "head_key h = (timestamp (h_rec h), stream (h_rec h), h_src h)"

record 'src kway_merge =
  km_sources :: "'src list"
  km_batches :: "log_record list list"
  km_heap :: "head list"
  km_primed :: bool

definition km_new :: "'src list \<Rightarrow> 'src kway_merge" where
  "km_new sources = \<lparr>km_sources = sources, km_batches = map (\<lambda>_. []) sources, km_heap = [], km_primed = False\<rparr>"

text \<open>\<^verbatim>\<open>refill\<close>: \<^const>\<open>None\<close> is a source that yields empty batches for ever.\<close>

partial_function (option) refill ::
    "('src \<Rightarrow> 'src \<times> ('e + log_record list option)) \<Rightarrow> nat \<Rightarrow> 'src kway_merge
     \<Rightarrow> ('src kway_merge \<times> ('e + unit)) option" where
  "refill next_batch src km =
     (if km_batches km ! src \<noteq> []
      then Some (km\<lparr>km_batches := (km_batches km)[src := tl (km_batches km ! src)],
                    km_heap := insort_key head_key \<lparr>h_rec = hd (km_batches km ! src), h_src = src\<rparr> (km_heap km)\<rparr>,
                 Inr ())
      else case next_batch (km_sources km ! src) of
        (s', Inl e) \<Rightarrow> Some (km\<lparr>km_sources := (km_sources km)[src := s']\<rparr>, Inl e)
      | (s', Inr found) \<Rightarrow>
         (case found of
            None \<Rightarrow> Some (km\<lparr>km_sources := (km_sources km)[src := s']\<rparr>, Inr ())
          | Some batch \<Rightarrow>
              refill next_batch src
                (km\<lparr>km_sources := (km_sources km)[src := s'], km_batches := (km_batches km)[src := batch]\<rparr>)))"

fun prime_loop ::
    "('src \<Rightarrow> 'src \<times> ('e + log_record list option)) \<Rightarrow> nat list \<Rightarrow> 'src kway_merge
     \<Rightarrow> ('src kway_merge \<times> ('e + unit)) option" where
  "prime_loop next_batch [] km = Some (km, Inr ())"
| "prime_loop next_batch (i # is) km =
     (case refill next_batch i km of
        None \<Rightarrow> None
      | Some (km', Inl e) \<Rightarrow> Some (km', Inl e)
      | Some (km', Inr _) \<Rightarrow> prime_loop next_batch is km')"

definition pop_next ::
    "('src \<Rightarrow> 'src \<times> ('e + log_record list option)) \<Rightarrow> 'src kway_merge
     \<Rightarrow> ('src kway_merge \<times> ('e + (log_record \<times> nat) option)) option" where
  "pop_next next_batch km =
     (case km_heap km of
        [] \<Rightarrow> Some (km, Inr None)
      | h # hs \<Rightarrow>
         (case refill next_batch (h_src h) (km\<lparr>km_heap := hs\<rparr>) of
            None \<Rightarrow> None
          | Some (km', Inl e) \<Rightarrow> Some (km', Inl e)
          | Some (km', Inr _) \<Rightarrow> Some (km', Inr (Some (h_rec h, h_src h)))))"

definition next_indexed ::
    "('src \<Rightarrow> 'src \<times> ('e + log_record list option)) \<Rightarrow> 'src kway_merge
     \<Rightarrow> ('src kway_merge \<times> ('e + (log_record \<times> nat) option)) option" where
  "next_indexed next_batch km =
     (if km_primed km then pop_next next_batch km
      else case prime_loop next_batch [0..<length (km_sources km)] (km\<lparr>km_primed := True\<rparr>) of
        None \<Rightarrow> None
      | Some (km', Inl e) \<Rightarrow> Some (km', Inl e)
      | Some (km', Inr _) \<Rightarrow> pop_next next_batch km')"

text \<open>The merge pulled to its end, as every caller does.\<close>

partial_function (option) drain_merge ::
    "('src \<Rightarrow> 'src \<times> ('e + log_record list option)) \<Rightarrow> 'src kway_merge
     \<Rightarrow> (log_record \<times> nat) list \<Rightarrow> ('src kway_merge \<times> ('e + (log_record \<times> nat) list)) option" where
  "drain_merge next_batch km out =
     (case next_indexed next_batch km of
        None \<Rightarrow> None
      | Some (km', Inl e) \<Rightarrow> Some (km', Inl e)
      | Some (km', Inr found) \<Rightarrow>
         (case found of
            None \<Rightarrow> Some (km', Inr out)
          | Some x \<Rightarrow> drain_merge next_batch km' (out @ [x])))"

section \<open>Picking the next record of a stable sort\<close>

text \<open>The records of many streams, in stream order, each with the index of its stream.\<close>

definition tagged :: "'a list list \<Rightarrow> ('a \<times> nat) list" where
  "tagged S = concat (map (\<lambda>i. map (\<lambda>r. (r, i)) (S ! i)) [0..<length S])"

lemma tagged_split:
  assumes "i < length S"
  shows "tagged (S[i := xs]) = concat (map (\<lambda>i. map (\<lambda>r. (r, i)) (S ! i)) [0..<i]) @ map (\<lambda>r. (r, i)) xs
    @ concat (map (\<lambda>i. map (\<lambda>r. (r, i)) (S ! i)) [Suc i..<length S])"
proof -
  have u: "[0..<length S] = [0..<i] @ i # [Suc i..<length S]"
    using assms by (metis le_add_same_cancel1 le_eq_less_or_eq upt_add_eq_append upt_conv_Cons zero_le le_add_diff_inverse)
  have m: "map (\<lambda>j. map (\<lambda>r. (r, j)) (S[i := xs] ! j)) [0..<i] = map (\<lambda>j. map (\<lambda>r. (r, j)) (S ! j)) [0..<i]"
    "map (\<lambda>j. map (\<lambda>r. (r, j)) (S[i := xs] ! j)) [Suc i..<length S] = map (\<lambda>j. map (\<lambda>r. (r, j)) (S ! j)) [Suc i..<length S]"
    by auto
  show ?thesis
    unfolding tagged_def length_list_update u map_append list.map concat_append concat.simps m
    using assms by simp
qed

lemma tagged_Nil: "\<forall>i < length S. S ! i = [] \<Longrightarrow> tagged S = []"
  by (simp add: tagged_def)

lemma mset_tagged: "mset (map fst (tagged S)) = mset (concat S)"
proof -
  have "map fst (tagged S) = concat (map ((!) S) [0..<length S])"
    by (simp add: tagged_def map_concat comp_def)
  then show ?thesis by (simp add: map_nth)
qed

text \<open>What a merge of the streams should hand out: their stable sort.\<close>

definition merged :: "log_record list list \<Rightarrow> (log_record \<times> nat) list" where
  "merged S = sort_key (rec_order \<circ> fst) (tagged S)"

definition first_of :: "('a \<Rightarrow> 'k :: linorder) \<Rightarrow> 'a list list \<Rightarrow> 'a \<Rightarrow> nat \<Rightarrow> bool" where
  "first_of k S r i \<longleftrightarrow> (\<forall>j < length S. \<forall>x \<in> set (S ! j). k r < k x \<or> k r = k x \<and> i \<le> j)"

lemma sort_key_pick:
  assumes i: "i < length S" "S ! i = r # rest" and f: "first_of k S r i"
  shows "sort_key (k \<circ> fst) (tagged S) = (r, i) # sort_key (k \<circ> fst) (tagged (S[i := rest]))"
proof (rule properties_for_sort_key)
  let ?A = "concat (map (\<lambda>i. map (\<lambda>r. (r, i)) (S ! i)) [0..<i])"
  let ?B = "concat (map (\<lambda>i. map (\<lambda>r. (r, i)) (S ! i)) [Suc i..<length S])"
  have S: "tagged S = ?A @ (r, i) # map (\<lambda>r. (r, i)) rest @ ?B"
    using tagged_split [OF i(1), of "r # rest"] list_update_id [of S i] i(2) by simp
  have S': "tagged (S[i := rest]) = ?A @ map (\<lambda>r. (r, i)) rest @ ?B"
    using tagged_split [OF i(1), of rest] by simp
  show "mset ((r, i) # sort_key (k \<circ> fst) (tagged (S[i := rest]))) = mset (tagged S)"
    unfolding S S' by simp
  have A: "filter (\<lambda>x. k r = (k \<circ> fst) x) ?A = []"
  proof -
    have "k r \<noteq> k (fst x)" if "x \<in> set ?A" for x
    proof -
      from that obtain j where "j < i" "fst x \<in> set (S ! j)" by auto
      with f i(1) show ?thesis unfolding first_of_def by (metis leD less_trans order.strict_implies_not_eq)
    qed
    then show ?thesis by (simp add: filter_empty_conv)
  qed
  have st: "filter (\<lambda>y. v = (k \<circ> fst) y) (sort_key (k \<circ> fst) T) = filter (\<lambda>y. v = (k \<circ> fst) y) T" for v T
    using sort_key_stable [of "k \<circ> fst" v T] unfolding eq_commute [of v] .
  show "filter (\<lambda>y. (k \<circ> fst) x = (k \<circ> fst) y) ((r, i) # sort_key (k \<circ> fst) (tagged (S[i := rest])))
    = filter (\<lambda>y. (k \<circ> fst) x = (k \<circ> fst) y) (tagged S)" for x :: "'a \<times> nat"
    unfolding S S' filter.simps filter_append st
    using A by (cases "(k \<circ> fst) x = k r") simp_all
  have "k r \<le> k (fst y)" if "y \<in> set (tagged (S[i := rest]))" for y
  proof -
    have "y \<in> set (tagged S)" using that unfolding S S' by auto
    then obtain j where "j < length S" "fst y \<in> set (S ! j)" by (auto simp: tagged_def)
    with f show ?thesis unfolding first_of_def by (metis order.order_iff_strict)
  qed
  then show "sorted (map (k \<circ> fst) ((r, i) # sort_key (k \<circ> fst) (tagged (S[i := rest]))))"
    by (simp add: sorted_sort_key del: map_map)
qed

section \<open>The contract of a source\<close>

text \<open>
  \<open>yields s bs\<close>: source \<open>s\<close> hands out the batches \<open>bs\<close> and then ends. The trait's contract is that the
  batches together are in the order of the merge.
\<close>

locale record_batch_source =
  fixes next_batch :: "'src \<Rightarrow> 'src \<times> ('e + log_record list option)"
    and yields :: "'src \<Rightarrow> log_record list list \<Rightarrow> bool"
  assumes yields_Nil: "yields s [] \<Longrightarrow> \<exists>s'. next_batch s = (s', Inr None)"
    and yields_Cons: "yields s (b # bs) \<Longrightarrow> \<exists>s'. next_batch s = (s', Inr (Some b)) \<and> yields s' bs"
    and yields_sorted: "yields s bs \<Longrightarrow> sorted (map rec_order (concat bs))"
begin

definition left :: "'src kway_merge \<Rightarrow> nat \<Rightarrow> log_record list \<Rightarrow> bool" where
  "left km i xs \<longleftrightarrow> (\<exists>bs. yields (km_sources km ! i) bs \<and> xs = km_batches km ! i @ concat bs)"

lemma refill_left:
  assumes "yields (km_sources km ! i) bs" and "i < length (km_sources km)" "length (km_batches km) = length (km_sources km)"
    and "xs = km_batches km ! i @ concat bs"
  shows "\<exists>km'. refill next_batch i km = Some (km', Inr ()) \<and> length (km_sources km') = length (km_sources km)
    \<and> length (km_batches km') = length (km_sources km) \<and> km_primed km' = km_primed km
    \<and> (\<forall>j. j \<noteq> i \<longrightarrow> km_sources km' ! j = km_sources km ! j \<and> km_batches km' ! j = km_batches km ! j)
    \<and> (xs = [] \<longrightarrow> km_heap km' = km_heap km)
    \<and> (xs \<noteq> [] \<longrightarrow> km_heap km' = insort_key head_key \<lparr>h_rec = hd xs, h_src = i\<rparr> (km_heap km) \<and> left km' i (tl xs))"
  using assms
proof (induction bs arbitrary: km)
  case Nil
  from yields_Nil [OF Nil.prems(1)] obtain s' where "next_batch (km_sources km ! i) = (s', Inr None)" by blast
  with Nil.prems show ?case
    by (cases "km_batches km ! i"; subst refill.simps) (auto simp: left_def intro!: exI [of _ "[]"])
next
  case (Cons b bs)
  show ?case
  proof (cases "km_batches km ! i")
    case Nil
    from yields_Cons [OF Cons.prems(1)] obtain s' where
      s: "next_batch (km_sources km ! i) = (s', Inr (Some b))" "yields s' bs" by blast
    let ?km = "km\<lparr>km_sources := (km_sources km)[i := s'], km_batches := (km_batches km)[i := b]\<rparr>"
    have "refill next_batch i km = refill next_batch i ?km" using Nil s(1) by (subst refill.simps) simp
    moreover note Cons.IH [of ?km]
    ultimately show ?thesis using Cons.prems(2,3,4) s(2) Nil by simp
  next
    case c: (Cons r rest)
    with Cons.prems show ?thesis
      by (subst refill.simps) (auto simp: left_def intro!: exI [of _ "b # bs"])
  qed
qed

text \<open>
  The state of a merge that still has to hand out the streams \<open>S\<close>: the sources in \<open>U\<close> are not in the
  heap yet; every other one is there with its next record, unless it is exhausted.
\<close>

definition heap_at :: "'src kway_merge \<Rightarrow> nat \<Rightarrow> log_record list \<Rightarrow> bool" where
  "heap_at km i xs \<longleftrightarrow>
     filter (\<lambda>h. h_src h = i) (km_heap km) = (if xs = [] then [] else [\<lparr>h_rec = hd xs, h_src = i\<rparr>])
     \<and> (xs \<noteq> [] \<longrightarrow> left km i (tl xs))"

definition merge_inv :: "'src kway_merge \<Rightarrow> log_record list list \<Rightarrow> nat set \<Rightarrow> bool" where
  "merge_inv km S U \<longleftrightarrow> length (km_sources km) = length S \<and> length (km_batches km) = length S
     \<and> sorted (map head_key (km_heap km)) \<and> (\<forall>h \<in> set (km_heap km). h_src h < length S)
     \<and> (\<forall>i < length S. sorted (map rec_order (S ! i))
          \<and> (if i \<in> U then filter (\<lambda>h. h_src h = i) (km_heap km) = [] \<and> left km i (S ! i)
             else heap_at km i (S ! i)))"

lemma left_cong:
  "km_sources km' ! j = km_sources km ! j \<Longrightarrow> km_batches km' ! j = km_batches km ! j \<Longrightarrow> left km' j = left km j"
  by (intro ext) (simp add: left_def)

lemma filter_insort_src:
  "filter (\<lambda>h. h_src h = j) (insort_key head_key x xs) =
     (if h_src x = j then insort_key head_key x (filter (\<lambda>h. h_src h = j) xs) else filter (\<lambda>h. h_src h = j) xs)"
  if "sorted (map head_key xs)"
  using that by (simp add: filter_insort filter_insort_triv)

lemma refill_inv:
  assumes "merge_inv km S U" and "i \<in> U" "i < length S"
  shows "\<exists>km'. refill next_batch i km = Some (km', Inr ()) \<and> merge_inv km' S (U - {i}) \<and> km_primed km' = km_primed km"
proof -
  have l: "length (km_sources km) = length S" "length (km_batches km) = length S" "sorted (map head_key (km_heap km))"
    "\<forall>h \<in> set (km_heap km). h_src h < length S" "filter (\<lambda>h. h_src h = i) (km_heap km) = []" "left km i (S ! i)"
    using assms by (auto simp: merge_inv_def)
  then obtain bs where "yields (km_sources km ! i) bs" "S ! i = km_batches km ! i @ concat bs" by (auto simp: left_def)
  from refill_left [OF this(1) _ _ this(2)] l assms(3) obtain km' where
    r: "refill next_batch i km = Some (km', Inr ())" "length (km_sources km') = length S" "length (km_batches km') = length S"
      "km_primed km' = km_primed km"
    and same: "\<And>j. j \<noteq> i \<Longrightarrow> km_sources km' ! j = km_sources km ! j \<and> km_batches km' ! j = km_batches km ! j"
    and h: "S ! i = [] \<longrightarrow> km_heap km' = km_heap km"
      "S ! i \<noteq> [] \<longrightarrow> km_heap km' = insort_key head_key \<lparr>h_rec = hd (S ! i), h_src = i\<rparr> (km_heap km) \<and> left km' i (tl (S ! i))"
    by auto
  have keep1: "left km' j = left km j" if "j \<noteq> i" for j by (rule left_cong) (use same [OF that] in simp_all)
  have keep2: "filter (\<lambda>h. h_src h = j) (km_heap km') = filter (\<lambda>h. h_src h = j) (km_heap km)" if "j \<noteq> i" for j
    using h that by (cases "S ! i = []") (simp_all add: filter_insort_src [OF l(3)])
  have hi: "heap_at km' i (S ! i)" using h l(3,5) by (cases "S ! i = []"; simp add: heap_at_def filter_insort_src)
  have hj: "heap_at km' j xs = heap_at km j xs" if "j \<noteq> i" for j xs
    using keep1 [OF that] keep2 [OF that] by (simp add: heap_at_def)
  have so: "sorted (map head_key (km_heap km'))" "\<forall>h \<in> set (km_heap km'). h_src h < length S"
    using h l(3,4) assms(3) by (cases "S ! i = []"; simp add: sorted_insort_key set_insort_key)+
  have "sorted (map rec_order (S ! j)) \<and> (if j \<in> U - {i} then filter (\<lambda>h. h_src h = j) (km_heap km') = [] \<and> left km' j (S ! j)
      else heap_at km' j (S ! j))" if "j < length S" for j
    using assms(1) that hi hj keep1 keep2 unfolding merge_inv_def by (cases "j = i") simp_all
  then have "merge_inv km' S (U - {i})" using r(2,3) so unfolding merge_inv_def by blast
  then show ?thesis using r by blast
qed

lemma prime_inv:
  assumes "merge_inv km S (set is)" and "distinct is" "\<forall>i \<in> set is. i < length S"
  shows "\<exists>km'. prime_loop next_batch is km = Some (km', Inr ()) \<and> merge_inv km' S {} \<and> km_primed km' = km_primed km"
  using assms
proof (induction "is" arbitrary: km)
  case (Cons i "is")
  from refill_inv [OF Cons.prems(1), of i] Cons.prems(3) obtain km' where
    "refill next_batch i km = Some (km', Inr ())" "merge_inv km' S (set (i # is) - {i})" "km_primed km' = km_primed km" by auto
  moreover have "set (i # is) - {i} = set is" using Cons.prems(2) by auto
  ultimately show ?case using Cons.IH [of km'] Cons.prems(2,3) by auto
qed auto

lemma heap_min_first:
  assumes "merge_inv km S {}" and "km_heap km = h # hs"
  shows "h_src h < length S" "S ! h_src h = h_rec h # tl (S ! h_src h)" "first_of rec_order S (h_rec h) (h_src h)"
proof -
  let ?i = "h_src h"
  show i: "?i < length S" using assms by (simp add: merge_inv_def)
  have at: "heap_at km j (S ! j)" "sorted (map rec_order (S ! j))" if "j < length S" for j
    using assms(1) that by (simp_all add: merge_inv_def)
  from at(1) [OF i] assms(2) show hd: "S ! ?i = h_rec h # tl (S ! ?i)"
    by (cases "S ! ?i"; cases h) (auto simp: heap_at_def)
  have min: "head_key h \<le> head_key g" if "g \<in> set (km_heap km)" for g
    using assms that by (auto simp: merge_inv_def)
  have "rec_order (h_rec h) < rec_order x \<or> rec_order (h_rec h) = rec_order x \<and> ?i \<le> j"
    if j: "j < length S" and x: "x \<in> set (S ! j)" for j x
  proof -
    from x obtain y ys where y: "S ! j = y # ys" by (cases "S ! j") auto
    with at(1) [OF j] have "filter (\<lambda>h. h_src h = j) (km_heap km) = [\<lparr>h_rec = y, h_src = j\<rparr>]" by (simp add: heap_at_def)
    then have "\<lparr>h_rec = y, h_src = j\<rparr> \<in> set (filter (\<lambda>h. h_src h = j) (km_heap km))" by simp
    then have "\<lparr>h_rec = y, h_src = j\<rparr> \<in> set (km_heap km)" by simp
    from min [OF this] have "rec_order (h_rec h) < rec_order y \<or> rec_order (h_rec h) = rec_order y \<and> ?i \<le> j"
      by (auto simp: head_key_def rec_order_def less_prod_def less_eq_prod_def)
    moreover have "rec_order y \<le> rec_order x" using at(2) [OF j] x y by auto
    ultimately show ?thesis by auto
  qed
  then show "first_of rec_order S (h_rec h) ?i" by (simp add: first_of_def)
qed

lemma pop_inv:
  assumes m: "merge_inv km S {}" and h: "km_heap km = h # hs"
  shows "merge_inv (km\<lparr>km_heap := hs\<rparr>) (S[h_src h := tl (S ! h_src h)]) {h_src h}"
proof -
  note f = heap_min_first [OF m h]
  let ?i = "h_src h" and ?km = "km\<lparr>km_heap := hs\<rparr>"
  have at: "heap_at km j (S ! j)" "sorted (map rec_order (S ! j))" if "j < length S" for j
    using m that by (simp_all add: merge_inv_def)
  have lc: "left ?km j = left km j" for j by (rule left_cong) simp_all
  have "filter (\<lambda>g. h_src g = ?i) hs = []" "left km ?i (tl (S ! ?i))"
    using at(1) [OF f(1)] f(2) h by (auto simp: heap_at_def split: if_splits)
  moreover have "sorted (map rec_order (tl (S ! ?i)))"
    using at(2) [OF f(1)] by (metis map_tl sorted_tl)
  moreover have "heap_at ?km j (S ! j)" if "j < length S" "j \<noteq> ?i" for j
    using at(1) [OF that(1)] that(2) h by (simp add: heap_at_def lc)
  ultimately show ?thesis
    using m h f(1) at(2) lc by (auto simp: merge_inv_def nth_list_update)
qed

lemma pop_next_step:
  assumes m: "merge_inv km S {}"
  shows "(km_heap km = [] \<and> pop_next next_batch km = Some (km, Inr None) \<and> merged S = [])
    \<or> (\<exists>km' r i S'. pop_next next_batch km = Some (km', Inr (Some (r, i))) \<and> merge_inv km' S' {}
         \<and> km_primed km' = km_primed km
         \<and> merged S = (r, i) # merged S')"
proof (cases "km_heap km")
  case Nil
  have "S ! i = []" if "i < length S" for i
    using m that Nil by (cases "S ! i") (auto simp: merge_inv_def heap_at_def)
  then show ?thesis using Nil by (simp add: pop_next_def merged_def tagged_Nil)
next
  case (Cons h hs)
  note f = heap_min_first [OF m Cons]
  let ?S = "S[h_src h := tl (S ! h_src h)]"
  from refill_inv [OF pop_inv [OF m Cons], of "h_src h"] f(1) obtain km' where
    "refill next_batch (h_src h) (km\<lparr>km_heap := hs\<rparr>) = Some (km', Inr ())" "merge_inv km' ?S {}" "km_primed km' = km_primed km"
    by auto
  moreover from sort_key_pick [OF f, folded merged_def] have "merged S
    = (h_rec h, h_src h) # merged ?S" .
  ultimately show ?thesis using Cons by (auto simp: pop_next_def)
qed

definition live :: "'src kway_merge \<Rightarrow> log_record list list \<Rightarrow> bool" where
  "live km S \<longleftrightarrow> merge_inv km S (if km_primed km then {} else set [0..<length S])"

lemma live_new:
  assumes "list_all2 yields sources bss"
  shows "live (km_new sources) (map concat bss)"
proof -
  have "yields (sources ! i) (bss ! i)" if "i < length bss" for i
    using assms that by (simp add: list_all2_conv_all_nth)
  then show ?thesis
    using yields_sorted list_all2_lengthD [OF assms]
    by (auto simp: live_def merge_inv_def km_new_def left_def nth_map)
qed

lemma next_indexed_step:
  assumes "live km S"
  shows "(\<exists>km'. next_indexed next_batch km = Some (km', Inr None) \<and> merged S = [])
    \<or> (\<exists>km' r i S'. next_indexed next_batch km = Some (km', Inr (Some (r, i))) \<and> live km' S'
         \<and> merged S = (r, i) # merged S')"
proof -
  have "\<exists>km0. merge_inv km0 S {} \<and> km_primed km0 \<and> next_indexed next_batch km = pop_next next_batch km0"
  proof (cases "km_primed km")
    case False
    then have "merge_inv (km\<lparr>km_primed := True\<rparr>) S (set [0..<length S])" and n: "length (km_sources km) = length S"
      using assms by (auto simp: live_def merge_inv_def heap_at_def left_def)
    from prime_inv [OF this(1)] obtain km0 where
      "prime_loop next_batch [0..<length S] (km\<lparr>km_primed := True\<rparr>) = Some (km0, Inr ())" "merge_inv km0 S {}" "km_primed km0"
      by auto
    with False n show ?thesis by (auto simp: next_indexed_def)
  qed (use assms in \<open>auto simp: live_def next_indexed_def\<close>)
  then obtain km0 where k: "merge_inv km0 S {}" "km_primed km0" "next_indexed next_batch km = pop_next next_batch km0" by blast
  from pop_next_step [OF k(1)] k(2,3) show ?thesis by (fastforce simp: live_def)
qed

lemma drain_merge_sorts:
  assumes "live km S"
  shows "\<exists>km'. drain_merge next_batch km out = Some (km', Inr (out @ merged S))"
  using assms
proof (induction "merged S" arbitrary: km S out)
  case Nil
  from next_indexed_step [OF Nil.prems] Nil.hyps show ?case by (subst drain_merge.simps) auto
next
  case (Cons x xs)
  from next_indexed_step [OF Cons.prems] Cons.hyps(2) obtain km' S' where
    n: "next_indexed next_batch km = Some (km', Inr (Some x))" "live km' S'" "xs = merged S'" by auto
  from Cons.hyps(1) [OF n(3,2), of "out @ [x]"] n(1) Cons.hyps(2) n(3) show ?case
    by (subst drain_merge.simps) auto
qed

end

section \<open>Clusters are disjoint in time\<close>

text \<open>
  The invariant of the loop: the recorded maximum bounds the members of its cluster, and every
  cluster starts strictly after the maximum of the one before.
\<close>

type_synonym timed_cluster = "int \<times> (frame_span \<times> int \<times> int) list"

fun timed_loop :: "(frame_span \<times> int \<times> int) list \<Rightarrow> timed_cluster list \<Rightarrow> timed_cluster list" where
  "timed_loop [] out = out"
| "timed_loop (x # xs) out =
     (if out \<noteq> [] \<and> fst (snd x) \<le> fst (last out)
      then timed_loop xs (butlast out @ [(max (fst (last out)) (snd (snd x)), snd (last out) @ [x])])
      else timed_loop xs (out @ [(snd (snd x), [x])]))"

lemma cluster_loop_timed:
  "cluster_loop xs (map (\<lambda>(m, c). (m, map fst c)) out) = map (\<lambda>(m, c). (m, map fst c)) (timed_loop xs out)"
proof (induction xs out rule: timed_loop.induct)
  case (2 x xs out)
  obtain s mn mx where x: "x = (s, mn, mx)" by (cases x)
  show ?case
  proof (cases "out \<noteq> [] \<and> mn \<le> fst (last out)")
    case True
    then obtain ys m c where "out = ys @ [(m, c)]" by (metis append_butlast_last_id surj_pair)
    with 2 True x show ?thesis by simp
  next
    case False
    then have "\<not> (map (\<lambda>(m, c). (m, map fst c)) out \<noteq> [] \<and> mn \<le> fst (last (map (\<lambda>(m, c). (m, map fst c)) out)))"
      by (auto simp: last_map split: prod.splits)
    with 2(2) False x show ?thesis by auto
  qed
qed simp

lemma concat_timed_loop: "concat (map snd (timed_loop xs out)) = concat (map snd out) @ xs"
proof (induction xs out rule: timed_loop.induct)
  case (2 x xs out)
  then show ?case by (cases out rule: rev_cases) auto
qed simp

definition apart :: "timed_cluster list \<Rightarrow> (frame_span \<times> int \<times> int) list \<Rightarrow> bool" where
  "apart out xs \<longleftrightarrow> (\<forall>k \<in> set out. \<forall>x \<in> set (snd k). snd (snd x) \<le> fst k)
     \<and> sorted_wrt (\<lambda>k l. \<forall>x \<in> set (snd l). fst k < fst (snd x)) out
     \<and> (\<forall>k \<in> set (butlast out). \<forall>y \<in> set xs. fst k < fst (snd y))"

lemma timed_loop_apart:
  assumes "apart out xs" and "sorted (map (\<lambda>x. fst (snd x)) xs)"
  shows "apart (timed_loop xs out) []"
  using assms
proof (induction xs arbitrary: out)
  case (Cons x xs)
  show ?case
  proof (cases "out \<noteq> [] \<and> fst (snd x) \<le> fst (last out)")
    case True
    then obtain ys m c where out: "out = ys @ [(m, c)]" by (metis append_butlast_last_id surj_pair)
    have "apart (ys @ [(max m (snd (snd x)), c @ [x])]) xs"
      using Cons.prems(1) unfolding apart_def out by (auto simp: sorted_wrt_append max_def intro: order_trans)
    with Cons.IH Cons.prems(2) True out show ?thesis by simp
  next
    case False
    have "fst k < fst (snd y)" if k: "k \<in> set out" and y: "y \<in> set (x # xs)" for k y
    proof (cases "k \<in> set (butlast out)")
      case True
      then show ?thesis using Cons.prems(1) y by (auto simp: apart_def)
    next
      case f: False
      with k have "k = last out" by (cases out rule: rev_cases) auto
      with False k have "fst k < fst (snd x)" by (cases out) auto
      then show ?thesis using y Cons.prems(2) by auto
    qed
    then have "apart (out @ [(snd (snd x), [x])]) xs"
      using Cons.prems(1) unfolding apart_def by (auto simp: sorted_wrt_append)
    with Cons.IH Cons.prems(2) False show ?thesis by auto
  qed
qed (simp add: apart_def)

text \<open>
  The clusters with their times: a partition of the frames into groups such that every frame of a
  later group starts strictly after every frame of an earlier one has ended.
\<close>

definition timed_clusters :: "(frame_span \<times> int \<times> int) list \<Rightarrow> (frame_span \<times> int \<times> int) list list" where
  "timed_clusters spans = map snd (timed_loop (sort_key (\<lambda>(s, mn, _). (mn, frame_idx s)) spans) [])"

lemma cluster_spans_timed: "cluster_spans spans = map (map fst) (timed_clusters spans)"
  using cluster_loop_timed [of "sort_key (\<lambda>(s, mn, _). (mn, frame_idx s)) spans" "[]"]
  by (auto simp: cluster_spans_def timed_clusters_def)

lemma timed_clusters_mset: "mset (concat (timed_clusters spans)) = mset spans"
  by (simp add: timed_clusters_def concat_timed_loop)

lemma timed_clusters_apart:
  "sorted_wrt (\<lambda>c d. \<forall>x \<in> set c. \<forall>y \<in> set d. snd (snd x) < fst (snd y)) (timed_clusters spans)"
proof -
  let ?xs = "sort_key (\<lambda>(s, mn, _). (mn, frame_idx s)) spans"
  have "sorted (map (\<lambda>(s, mn, _). (mn, frame_idx s)) ?xs)" by (rule sorted_sort_key)
  then have "sorted (map (\<lambda>x. fst (snd x)) ?xs)"
    by (auto simp: sorted_map case_prod_beta less_eq_prod_def elim!: sorted_wrt_mono_rel [rotated])
  then have "apart (timed_loop ?xs []) []" by (intro timed_loop_apart) (simp_all add: apart_def)
  then have a: "\<forall>k \<in> set (timed_loop ?xs []). \<forall>x \<in> set (snd k). snd (snd x) \<le> fst k"
    "sorted_wrt (\<lambda>k l. \<forall>x \<in> set (snd l). fst k < fst (snd x)) (timed_loop ?xs [])" by (simp_all add: apart_def)
  show ?thesis unfolding timed_clusters_def sorted_wrt_map
    by (rule sorted_wrt_mono_rel [OF _ a(2)]) (use a(1) in fastforce)
qed

end
