(* ===== verification/S4_Scan.thy ===== *)
theory S4_Scan
  imports S4_Merge S4_Window
begin

text \<open>
  The read path of \<^verbatim>\<open>grep\<close> and \<^verbatim>\<open>restore\<close> (\<^verbatim>\<open>s4logs-cli/src/scan.rs\<close>): listing by date partition, frame
  pruning and clustering, Range requests with the decompression cap, the line-by-line fallback for
  chunks without sidecars, and the merged stream of one or more log groups.
\<close>

section \<open>Data\<close>

definition FALLBACK_DECODE_CAP_BYTES :: nat where "FALLBACK_DECODE_CAP_BYTES = 2 * 2 ^ 30"
definition MAX_PER_DT_LISTS :: nat where "MAX_PER_DT_LISTS = 32"

text \<open>The errors the scan propagates; \<open>ScEmit\<close> is one of the caller's \<^verbatim>\<open>emit\<close>.\<close>

datatype scan_error =
    ScStore store_error
  | ScRead read_error
  | ScRange nat nat
  | ScDecoder string
  | ScCap
  | ScEmit string

record scan_stats =
  chunks_listed :: nat
  chunks_scanned :: nat
  frames_fetched :: nat
  fallback_full_objects :: nat
  parse_errors :: nat
  records_emitted :: nat

definition scan_stats_default :: scan_stats where
  "scan_stats_default = \<lparr>chunks_listed = 0, chunks_scanned = 0, frames_fetched = 0, fallback_full_objects = 0,
     parse_errors = 0, records_emitted = 0\<rparr>"

definition stats_absorb :: "scan_stats \<Rightarrow> scan_stats \<Rightarrow> scan_stats" where
  "stats_absorb s t = \<lparr>chunks_listed = chunks_listed s + chunks_listed t,
     chunks_scanned = chunks_scanned s + chunks_scanned t, frames_fetched = frames_fetched s + frames_fetched t,
     fallback_full_objects = fallback_full_objects s + fallback_full_objects t,
     parse_errors = parse_errors s + parse_errors t, records_emitted = records_emitted s + records_emitted t\<rparr>"

text \<open>What a scan reads from: codecs, S3 client, object store and calendar. A compiled regex is its \<^verbatim>\<open>is_match\<close>.\<close>

record ('s, 'dt) scan_env =
  sv_codec :: s4_codec
  sv_client :: "'s s3_client"
  sv_store :: object_store
  sv_chunk :: chunk_env
  sv_chrono :: "'dt chrono"

type_synonym pattern = "(string \<Rightarrow> bool) option"
type_synonym 'a emitter = "log_record \<Rightarrow> 'a \<Rightarrow> 'a \<times> (scan_error + unit)"

section \<open>Filtering\<close>

definition dates_in_range :: "'dt chrono \<Rightarrow> int \<Rightarrow> int \<Rightarrow> string list" where
  "dates_in_range T from_t to_t =
     (if from_t \<ge> to_t then []
      else map (\<lambda>day. date_from_ts_ms T (sat_i64 (day * DAY_MS))) [from_t div DAY_MS .. (to_t - 1) div DAY_MS])"

definition record_matches :: "log_record \<Rightarrow> time_range \<Rightarrow> pattern \<Rightarrow> bool" where
  "record_matches r rg pat \<longleftrightarrow> timestamp r \<ge> from_ms rg \<and> timestamp r < to_ms_exclusive rg
     \<and> (case pat of None \<Rightarrow> True | Some is_match \<Rightarrow> is_match (message r))"

text \<open>The two arms both line loops share: a parsed record is filtered and emitted, an unparseable line counted.\<close>

definition emit_item ::
    "time_range \<Rightarrow> pattern \<Rightarrow> 'a emitter \<Rightarrow> record_error + log_record \<Rightarrow> scan_stats \<Rightarrow> 'a
     \<Rightarrow> scan_stats \<times> 'a \<times> (scan_error + unit)" where
  "emit_item rg pat emit item stats acc =
     (case item of
        Inr r \<Rightarrow>
          if record_matches r rg pat
          then (case emit r acc of (acc', res) \<Rightarrow> (stats\<lparr>records_emitted := records_emitted stats + 1\<rparr>, acc', res))
          else (stats, acc, Inr ())
      | Inl _ \<Rightarrow> (stats\<lparr>parse_errors := parse_errors stats + 1\<rparr>, acc, Inr ()))"

fun emit_loop ::
    "time_range \<Rightarrow> pattern \<Rightarrow> 'a emitter \<Rightarrow> (record_error + log_record) list \<Rightarrow> scan_stats \<Rightarrow> 'a
     \<Rightarrow> scan_stats \<times> 'a \<times> (scan_error + unit)" where
  "emit_loop rg pat emit [] stats acc = (stats, acc, Inr ())"
| "emit_loop rg pat emit (x # xs) stats acc =
     (case emit_item rg pat emit x stats acc of
        (stats', acc', Inl e) \<Rightarrow> (stats', acc', Inl e)
      | (stats', acc', Inr _) \<Rightarrow> emit_loop rg pat emit xs stats' acc')"

definition emit_records ::
    "log_record serde \<Rightarrow> bytes \<Rightarrow> time_range \<Rightarrow> pattern \<Rightarrow> 'a emitter \<Rightarrow> scan_stats \<Rightarrow> 'a
     \<Rightarrow> scan_stats \<times> 'a \<times> (scan_error + unit)" where
  "emit_records J jsonl rg pat emit stats acc = emit_loop rg pat emit (record_lines J jsonl) stats acc"

section \<open>The fallback without sidecars\<close>

text \<open>
  \<^verbatim>\<open>read_until\<close> on the buffered decoder: \<open>rest\<close> is what the decoder still produces and \<open>err\<close> the error it
  ends with, if any; a line that needs bytes behind the error is the error.
\<close>

definition read_until :: "bytes \<Rightarrow> string option \<Rightarrow> string + (bytes \<times> bytes)" where
  "read_until rest err =
     (if NL \<in> set rest
      then Inr (takeWhile (\<lambda>b. b \<noteq> NL) rest @ [NL], drop (length (takeWhile (\<lambda>b. b \<noteq> NL) rest) + 1) rest)
      else case err of Some e \<Rightarrow> Inl e | None \<Rightarrow> Inr (rest, []))"

definition CR :: byte where "CR = 13"

definition line_content :: "bytes \<Rightarrow> bytes" where
  "line_content line =
     (let c = (case strip_suffix [NL] line of None \<Rightarrow> line | Some c \<Rightarrow> c)
      in case strip_suffix [CR] c of None \<Rightarrow> c | Some c' \<Rightarrow> c')"

lemma read_until_shorter: "read_until rest err = Inr (line, rest') \<Longrightarrow> line \<noteq> [] \<Longrightarrow> length rest' < length rest"
  by (cases rest) (auto simp: read_until_def split: if_splits option.splits)

function stream_loop ::
    "log_record serde \<Rightarrow> string option \<Rightarrow> time_range \<Rightarrow> pattern \<Rightarrow> 'a emitter \<Rightarrow> bytes \<Rightarrow> nat \<Rightarrow> scan_stats \<Rightarrow> 'a
     \<Rightarrow> scan_stats \<times> 'a \<times> (scan_error + unit)" where
  "stream_loop J err rg pat emit rest decoded_total stats acc =
     (case read_until rest err of
        Inl e \<Rightarrow> (stats, acc, Inl (ScDecoder e))
      | Inr (line, rest') \<Rightarrow>
         if line = [] then (stats, acc, Inr ())
         else let total = sat_u64 (decoded_total + length line) in
         if total > FALLBACK_DECODE_CAP_BYTES then (stats, acc, Inl ScCap)
         else let content = line_content line in
         if content = [] then stream_loop J err rg pat emit rest' total stats acc
         else (case emit_item rg pat emit (from_jsonl J content) stats acc of
                 (stats', acc', Inl e) \<Rightarrow> (stats', acc', Inl e)
               | (stats', acc', Inr _) \<Rightarrow> stream_loop J err rg pat emit rest' total stats' acc'))"
  by pat_completeness auto
termination
  by (relation "measure (\<lambda>(_, _, _, _, _, rest, _, _, _). length rest)") (auto dest: read_until_shorter)

declare stream_loop.simps [simp del]

definition stream_full_object ::
    "chunk_env \<Rightarrow> bytes \<Rightarrow> time_range \<Rightarrow> pattern \<Rightarrow> 'a emitter \<Rightarrow> scan_stats \<Rightarrow> 'a
     \<Rightarrow> scan_stats \<times> 'a \<times> (scan_error + unit)" where
  "stream_full_object E body rg pat emit stats acc =
     (case zstd_decode E body of
        Inl e \<Rightarrow> (stats, acc, Inl (ScDecoder e))
      | Inr (decoded, err) \<Rightarrow> stream_loop (json E) err rg pat emit decoded 0 stats acc)"

section \<open>Chunk sources\<close>

datatype fetch_unit = Frames "frame_span list" | WholeObject

record chunk_source =
  cs_data_key :: string
  cs_range :: time_range
  cs_pattern :: pattern
  cs_units :: "fetch_unit list"
  cs_stats :: scan_stats

definition collect_rec :: "log_record list emitter" where
  "collect_rec r recs = (recs @ [r], Inr ())"

text \<open>Unsigned subtraction at its width.\<close>

definition sub_u64 :: "nat \<Rightarrow> nat \<Rightarrow> nat" where
  "sub_u64 a b = (if b \<le> a then a - b else a + 2 ^ 64 - b)"

fun fetch_spans ::
    "('s, 'dt) scan_env \<Rightarrow> 's \<Rightarrow> chunk_source \<Rightarrow> frame_span list \<Rightarrow> scan_stats \<Rightarrow> log_record list
     \<Rightarrow> scan_stats \<times> log_record list \<times> (scan_error + unit)" where
  "fetch_spans V s cs [] stats recs = (stats, recs, Inr ())"
| "fetch_spans V s cs (sp # spans) stats recs =
     (let want = sub_u64 (byte_end_exclusive sp) (byte_start sp) in
      case get_range (sv_client V) (sv_store V) (cs_data_key cs) (byte_start sp) (byte_end_exclusive sp) s of
        Inl e \<Rightarrow> (stats, recs, Inl (ScStore e))
      | Inr b \<Rightarrow>
         if length b \<noteq> want then (stats, recs, Inl (ScRange (length b) want))
         else (case decompress_frames (sv_chunk V) b (span_original_size sp) of
                 Inl e \<Rightarrow> (stats, recs, Inl (ScRead e))
               | Inr jsonl \<Rightarrow>
                  (case emit_records (json (sv_chunk V)) jsonl (cs_range cs) (cs_pattern cs) collect_rec
                          (stats\<lparr>frames_fetched := frames_fetched stats + 1\<rparr>) recs of
                     (stats', recs', Inl e) \<Rightarrow> (stats', recs', Inl e)
                   | (stats', recs', Inr _) \<Rightarrow> fetch_spans V s cs spans stats' recs')))"

fun fetch_unit_recs ::
    "('s, 'dt) scan_env \<Rightarrow> 's \<Rightarrow> chunk_source \<Rightarrow> fetch_unit \<Rightarrow> scan_stats \<times> log_record list \<times> (scan_error + unit)" where
  "fetch_unit_recs V s cs (Frames spans) = fetch_spans V s cs spans (cs_stats cs) []"
| "fetch_unit_recs V s cs WholeObject =
     (case get_bytes (sv_client V) (sv_store V) (cs_data_key cs) s of
        Inl e \<Rightarrow> (cs_stats cs, [], Inl (ScStore e))
      | Inr body \<Rightarrow>
          stream_full_object (sv_chunk V) body (cs_range cs) (cs_pattern cs) collect_rec
            ((cs_stats cs)\<lparr>fallback_full_objects := fallback_full_objects (cs_stats cs) + 1\<rparr>) [])"

definition next_batch ::
    "('s, 'dt) scan_env \<Rightarrow> 's \<Rightarrow> chunk_source \<Rightarrow> chunk_source \<times> (scan_error + log_record list option)" where
  "next_batch V s cs =
     (case cs_units cs of
        [] \<Rightarrow> (cs, Inr None)
      | u # us \<Rightarrow>
         (case fetch_unit_recs V s cs u of
            (stats, recs, Inl e) \<Rightarrow> (cs\<lparr>cs_units := us, cs_stats := stats\<rparr>, Inl e)
          | (stats, recs, Inr _) \<Rightarrow>
              (cs\<lparr>cs_units := us, cs_stats := stats\<rparr>, Inr (Some (sort_key rec_order recs)))))"

section \<open>Listing and assembly\<close>

fun list_dates ::
    "('s, 'dt) scan_env \<Rightarrow> 's \<Rightarrow> string \<Rightarrow> string list \<Rightarrow> chunk_location list \<Rightarrow> nat
     \<Rightarrow> (scan_error + (chunk_location list \<times> nat)) option" where
  "list_dates V s group_prefix [] locs n = Some (Inr (locs, n))"
| "list_dates V s group_prefix (d # ds) locs n =
     (case list_keys (sv_client V) (sv_store V) (group_prefix @ ''dt='' @ d @ ''/'') s of
        None \<Rightarrow> None
      | Some (Inl e) \<Rightarrow> Some (Inl (ScStore e))
      | Some (Inr keys) \<Rightarrow>
          list_dates V s group_prefix ds
            (locs @ List.map_filter (parse_data_key (os_prefix (sv_store V))) keys) (n + length keys))"

definition list_range_chunks ::
    "('s, 'dt) scan_env \<Rightarrow> 's \<Rightarrow> string \<Rightarrow> string \<Rightarrow> time_range
     \<Rightarrow> (scan_error + (chunk_location list \<times> nat)) option" where
  "list_range_chunks V s acct lg rg =
     (let dates = dates_in_range (sv_chrono V) (from_ms rg) (to_ms_exclusive rg);
          sorted_locs = sort_key (\<lambda>l. (date l, obj_name l)) in
      if length dates \<le> MAX_PER_DT_LISTS
      then map_option (\<lambda>r. case r of Inl e \<Rightarrow> Inl e | Inr (locs, n) \<Rightarrow> Inr (sorted_locs locs, n))
             (list_dates V s (data_group_prefix (os_prefix (sv_store V)) acct lg) dates [] 0)
      else map_option (\<lambda>r. case r of
               Inl e \<Rightarrow> Inl (ScStore e)
             | Inr chunks \<Rightarrow> Inr (sorted_locs (filter (\<lambda>l. date l \<in> set dates) chunks), length chunks))
             (list_chunks (sv_client V) (sv_store V) acct lg s))"

definition chunk_units ::
    "('s, 'dt) scan_env \<Rightarrow> 's \<Rightarrow> time_range \<Rightarrow> chunk_location \<Rightarrow> scan_error + fetch_unit list" where
  "chunk_units V s rg loc =
     (case load_indexes (sv_codec V) (sv_client V) (sv_store V) loc s of
        Inl (Aws op k e) \<Rightarrow> Inl (ScStore (Aws op k e))
      | Inl _ \<Rightarrow> Inr [WholeObject]
      | Inr (frame_index, ts_index) \<Rightarrow>
         (case frames_overlapping (compressed_end (sv_codec V)) frame_index ts_index rg of
            Inl (IndexMismatch a b) \<Rightarrow> Inr [WholeObject]
          | Inl e \<Rightarrow> Inl (ScRead e)
          | Inr spans \<Rightarrow>
              Inr (map Frames (cluster_spans (map (\<lambda>sp. (sp, min_ts (ts_entries ts_index ! frame_idx sp),
                     max_ts (ts_entries ts_index ! frame_idx sp))) spans)))))"

fun build_loop ::
    "('s, 'dt) scan_env \<Rightarrow> 's \<Rightarrow> time_range \<Rightarrow> pattern \<Rightarrow> chunk_location list \<Rightarrow> chunk_source list \<Rightarrow> nat
     \<Rightarrow> scan_error + (chunk_source list \<times> nat)" where
  "build_loop V s rg pat [] sources scanned = Inr (sources, scanned)"
| "build_loop V s rg pat (loc # locs) sources scanned =
     (case chunk_units V s rg loc of
        Inl e \<Rightarrow> Inl e
      | Inr units \<Rightarrow>
          build_loop V s rg pat locs
            (if units = [] then sources
             else sources @ [\<lparr>cs_data_key = data_key loc (os_prefix (sv_store V)), cs_range = rg, cs_pattern = pat,
                              cs_units = units, cs_stats = scan_stats_default\<rparr>])
            (scanned + 1))"

definition build_group_sources ::
    "('s, 'dt) scan_env \<Rightarrow> 's \<Rightarrow> string \<Rightarrow> string \<Rightarrow> time_range \<Rightarrow> pattern \<Rightarrow> chunk_source list
     \<Rightarrow> (scan_error + (chunk_source list \<times> nat \<times> nat)) option" where
  "build_group_sources V s acct lg rg pat sources =
     map_option (\<lambda>r. case r of
         Inl e \<Rightarrow> Inl e
       | Inr (locs, listed) \<Rightarrow>
          (case build_loop V s rg pat locs sources 0 of
             Inl e \<Rightarrow> Inl e
           | Inr (sources', scanned) \<Rightarrow> Inr (sources', listed, scanned)))
       (list_range_chunks V s acct lg rg)"

record scan_stream =
  ss_merge :: "chunk_source kway_merge"
  ss_source_groups :: "nat list"
  ss_group_names :: "string list"
  ss_listed :: nat
  ss_scanned :: nat

fun open_loop ::
    "('s, 'dt) scan_env \<Rightarrow> 's \<Rightarrow> string \<Rightarrow> time_range \<Rightarrow> pattern \<Rightarrow> (nat \<times> string) list
     \<Rightarrow> chunk_source list \<Rightarrow> nat list \<Rightarrow> nat \<Rightarrow> nat
     \<Rightarrow> (scan_error + (chunk_source list \<times> nat list \<times> nat \<times> nat)) option" where
  "open_loop V s acct rg pat [] sources source_groups listed scanned =
     Some (Inr (sources, source_groups, listed, scanned))"
| "open_loop V s acct rg pat ((gi, lg) # gs) sources source_groups listed scanned =
     (case build_group_sources V s acct lg rg pat sources of
        None \<Rightarrow> None
      | Some (Inl e) \<Rightarrow> Some (Inl e)
      | Some (Inr (sources', l, n)) \<Rightarrow>
          open_loop V s acct rg pat gs sources'
            (source_groups @ replicate (length sources' - length sources) gi) (listed + l) (scanned + n))"

definition open_scan_multi ::
    "('s, 'dt) scan_env \<Rightarrow> 's \<Rightarrow> string \<Rightarrow> string list \<Rightarrow> time_range \<Rightarrow> pattern
     \<Rightarrow> (scan_error + scan_stream) option" where
  "open_scan_multi V s acct groups rg pat =
     map_option (\<lambda>r. case r of
         Inl e \<Rightarrow> Inl e
       | Inr (sources, source_groups, listed, scanned) \<Rightarrow>
           Inr \<lparr>ss_merge = km_new sources, ss_source_groups = source_groups, ss_group_names = groups,
                ss_listed = listed, ss_scanned = scanned\<rparr>)
       (open_loop V s acct rg pat (enumerate 0 groups) [] [] 0 0)"

definition next_with_group ::
    "('s, 'dt) scan_env \<Rightarrow> 's \<Rightarrow> scan_stream \<Rightarrow> (scan_stream \<times> (scan_error + (log_record \<times> string) option)) option" where
  "next_with_group V s ss =
     map_option (\<lambda>(km, res). (ss\<lparr>ss_merge := km\<rparr>,
         case res of
           Inl e \<Rightarrow> Inl e
         | Inr None \<Rightarrow> Inr None
         | Inr (Some (r, src)) \<Rightarrow> Inr (Some (r, ss_group_names ss ! (ss_source_groups ss ! src)))))
       (next_indexed (next_batch V s) (ss_merge ss))"

definition stream_stats :: "scan_stream \<Rightarrow> scan_stats" where
  "stream_stats ss =
     foldl stats_absorb (scan_stats_default\<lparr>chunks_listed := ss_listed ss, chunks_scanned := ss_scanned ss\<rparr>)
       (map cs_stats (km_sources (ss_merge ss)))"

partial_function (option) scan_loop ::
    "('s, 'dt) scan_env \<Rightarrow> 's \<Rightarrow> (log_record \<Rightarrow> string \<Rightarrow> 'a \<Rightarrow> 'a \<times> (scan_error + unit)) \<Rightarrow> scan_stream \<Rightarrow> 'a
     \<Rightarrow> ('a \<times> (scan_error + scan_stats)) option" where
  "scan_loop V s emit ss acc =
     (case next_with_group V s ss of
        None \<Rightarrow> None
      | Some (ss', Inl e) \<Rightarrow> Some (acc, Inl e)
      | Some (ss', Inr found) \<Rightarrow>
         (case found of
            None \<Rightarrow> Some (acc, Inr (stream_stats ss'))
          | Some (r, g) \<Rightarrow>
             (case emit r g acc of
                (acc', Inl e) \<Rightarrow> Some (acc', Inl e)
              | (acc', Inr _) \<Rightarrow> scan_loop V s emit ss' acc')))"

definition scan_log_groups ::
    "('s, 'dt) scan_env \<Rightarrow> 's \<Rightarrow> string \<Rightarrow> string list \<Rightarrow> time_range \<Rightarrow> pattern
     \<Rightarrow> (log_record \<Rightarrow> string \<Rightarrow> 'a \<Rightarrow> 'a \<times> (scan_error + unit)) \<Rightarrow> 'a \<Rightarrow> ('a \<times> (scan_error + scan_stats)) option" where
  "scan_log_groups V s acct groups rg pat emit acc =
     (case open_scan_multi V s acct groups rg pat of
        None \<Rightarrow> None
      | Some (Inl e) \<Rightarrow> Some (acc, Inl e)
      | Some (Inr ss) \<Rightarrow> scan_loop V s emit ss acc)"

section \<open>What a line loop collects\<close>

abbreviation hits :: "time_range \<Rightarrow> pattern \<Rightarrow> log_record list \<Rightarrow> log_record list" where
  "hits rg pat rs \<equiv> filter (\<lambda>r. record_matches r rg pat) rs"

definition bump :: "nat \<Rightarrow> scan_stats \<Rightarrow> scan_stats" where
  "bump n stats = stats\<lparr>records_emitted := records_emitted stats + n\<rparr>"

lemma bump_bump [simp]: "bump m (bump n stats) = bump (n + m) stats" "bump 0 stats = stats"
  by (simp_all add: bump_def)

lemma emit_item_Inr [simp]:
  "emit_item rg pat collect_rec (Inr r) stats recs = (bump (length (hits rg pat [r])) stats, recs @ hits rg pat [r], Inr ())"
  by (simp add: emit_item_def collect_rec_def bump_def)

lemma emit_loop_collect:
  "emit_loop rg pat collect_rec (map Inr rs) stats recs = (bump (length (hits rg pat rs)) stats, recs @ hits rg pat rs, Inr ())"
  by (induction rs arbitrary: stats recs) simp_all

text \<open>The text of a record does not end with a carriage return: compact JSON ends with a bracket.\<close>

definition json_closed :: "'a serde \<Rightarrow> 'a \<Rightarrow> bool" where
  "json_closed J a \<longleftrightarrow> (\<forall>s. to_json J a = Inr s \<longrightarrow> s = [] \<or> last s \<noteq> CR)"

lemma read_until_line:
  assumes "NL \<notin> set s"
  shows "read_until (s @ NL # rest) err = Inr (s @ [NL], rest)"
proof -
  have "takeWhile (\<lambda>b. b \<noteq> NL) (s @ NL # rest) = s" using assms by (subst takeWhile_append2) auto
  then show ?thesis by (simp add: read_until_def)
qed

lemma line_content_line:
  assumes "s \<noteq> []" "last s \<noteq> CR"
  shows "line_content (s @ [NL]) = s"
proof -
  have "strip_suffix [CR] s = None" using assms by (metis last_snoc not_None_eq strip_suffix_Some)
  then show ?thesis by (simp add: line_content_def)
qed

lemma stream_loop_text:
  assumes "jsonl_faithful J rs" and "\<forall>r \<in> set rs. json_closed J r"
    and "n + length (jsonl_text J rs) \<le> FALLBACK_DECODE_CAP_BYTES"
  shows "stream_loop J None rg pat collect_rec (jsonl_text J rs) n stats recs
    = (bump (length (hits rg pat rs)) stats, recs @ hits rg pat rs, Inr ())"
  using assms
proof (induction rs arbitrary: n stats recs)
  case Nil
  then show ?case by (simp add: stream_loop.simps read_until_def)
next
  case (Cons r rs)
  then obtain s where s: "s \<noteq> []" "NL \<notin> set s" "from_json J s = Inr r" "jsonl_line J r = s @ [NL]" "to_json J r = Inr s"
    by (auto elim!: json_faithfulE)
  then have c: "line_content (s @ [NL]) = s" using Cons.prems(2) by (intro line_content_line) (auto simp: json_closed_def)
  have t: "sat_u64 (n + (length s + 1)) = n + (length s + 1)" "n + (length s + 1) \<le> FALLBACK_DECODE_CAP_BYTES"
    using Cons.prems(3) s(4) by (simp_all add: sat_u64_def FALLBACK_DECODE_CAP_BYTES_def u64_MAX_def)
  have "stream_loop J None rg pat collect_rec (s @ NL # jsonl_text J rs) n stats recs
      = stream_loop J None rg pat collect_rec (jsonl_text J rs) (n + (length s + 1))
          (bump (length (hits rg pat [r])) stats) (recs @ hits rg pat [r])"
    using s t c read_until_line [OF s(2)]
    by (subst stream_loop.simps) (simp add: Let_def from_jsonl_def)
  then show ?case using Cons.IH Cons.prems s(4) by simp
qed

section \<open>What a source yields\<close>

text \<open>The batch a unit turns into, whatever the state of the counters.\<close>

definition unit_gives ::
    "('s, 'dt) scan_env \<Rightarrow> 's \<Rightarrow> string \<Rightarrow> time_range \<Rightarrow> pattern \<Rightarrow> fetch_unit \<Rightarrow> log_record list \<Rightarrow> bool" where
  "unit_gives V s key rg pat u b \<longleftrightarrow> (\<forall>cs. cs_data_key cs = key \<and> cs_range cs = rg \<and> cs_pattern cs = pat \<longrightarrow>
     (\<exists>stats recs. fetch_unit_recs V s cs u = (stats, recs, Inr ()) \<and> b = sort_key rec_order recs))"

definition chunk_yields ::
    "('s, 'dt) scan_env \<Rightarrow> 's \<Rightarrow> chunk_source \<Rightarrow> log_record list list \<Rightarrow> bool" where
  "chunk_yields V s cs bs \<longleftrightarrow>
     list_all2 (unit_gives V s (cs_data_key cs) (cs_range cs) (cs_pattern cs)) (cs_units cs) bs
     \<and> sorted (map rec_order (concat bs))"

interpretation chunk_src: record_batch_source "next_batch V s" "chunk_yields V s" for V s
proof unfold_locales
  show "\<exists>s'. next_batch V s cs = (s', Inr None)" if "chunk_yields V s cs []" for cs
    using that by (simp add: chunk_yields_def next_batch_def)
  show "\<exists>s'. next_batch V s cs = (s', Inr (Some b)) \<and> chunk_yields V s s' bs" if y: "chunk_yields V s cs (b # bs)" for cs b bs
  proof -
    from y obtain u us where u: "cs_units cs = u # us" "unit_gives V s (cs_data_key cs) (cs_range cs) (cs_pattern cs) u b"
      "list_all2 (unit_gives V s (cs_data_key cs) (cs_range cs) (cs_pattern cs)) us bs" "sorted (map rec_order (concat bs))"
      by (auto simp: chunk_yields_def list_all2_Cons2 sorted_append)
    from u(2) obtain stats recs where "fetch_unit_recs V s cs u = (stats, recs, Inr ())" "b = sort_key rec_order recs"
      unfolding unit_gives_def by blast
    with u show ?thesis by (simp add: next_batch_def chunk_yields_def)
  qed
qed (simp add: chunk_yields_def)

lemma fetch_spans_collect:
  assumes "\<And>sp. sp \<in> set spans \<Longrightarrow> byte_start sp \<le> byte_end_exclusive sp \<and> byte_end_exclusive sp \<le> length body
      \<and> read_span (sv_chunk V) body sp = Inr (jsonl_text (json (sv_chunk V)) (F sp)) \<and> jsonl_faithful (json (sv_chunk V)) (F sp)"
    and g: "get_law (sv_client V) (os_bucket (sv_store V)) objs" and b: "objs s (cs_data_key cs) = Some body"
  shows "\<exists>stats'. fetch_spans V s cs spans stats recs
    = (stats', recs @ hits (cs_range cs) (cs_pattern cs) (concat (map F spans)), Inr ())"
  using assms(1)
proof (induction spans arbitrary: stats recs)
  case (Cons sp spans)
  let ?J = "json (sv_chunk V)"
  from Cons.prems [of sp] have sp: "byte_start sp \<le> byte_end_exclusive sp" "byte_end_exclusive sp \<le> length body"
    "read_span (sv_chunk V) body sp = Inr (jsonl_text ?J (F sp))" "jsonl_faithful ?J (F sp)" by auto
  have "get_range (sv_client V) (sv_store V) (cs_data_key cs) (byte_start sp) (byte_end_exclusive sp) s = Inr (span_slice body sp)"
    using get_range_stored [OF g b sp(2)] by (simp add: span_slice_def)
  moreover have "length (span_slice body sp) = sub_u64 (byte_end_exclusive sp) (byte_start sp)"
    using sp(1,2) by (simp add: span_slice_def sub_u64_def)
  moreover have "decompress_frames (sv_chunk V) (span_slice body sp) (span_original_size sp) = Inr (jsonl_text ?J (F sp))"
    using sp(3) by (simp add: read_span_def)
  moreover have "\<exists>stats'. fetch_spans V s cs spans
      (bump (length (hits (cs_range cs) (cs_pattern cs) (F sp))) (stats\<lparr>frames_fetched := Suc (frames_fetched stats)\<rparr>))
      (recs @ hits (cs_range cs) (cs_pattern cs) (F sp))
    = (stats', (recs @ hits (cs_range cs) (cs_pattern cs) (F sp)) @ hits (cs_range cs) (cs_pattern cs) (concat (map F spans)), Inr ())"
    by (rule Cons.IH) (rule Cons.prems, simp)
  ultimately show ?case
    using sp(4)
    by (simp add: Let_def emit_records_def record_lines_text emit_loop_collect)
qed simp

text \<open>Which frames the pruned spans stand for.\<close>

lemma filter_enumerate:
  "map (\<lambda>x. ys ! fst x) (filter (\<lambda>x. P (snd x)) (enumerate 0 xs)) = map ((!) ys) (filter (\<lambda>i. P (xs ! i)) [0..<length xs])"
proof -
  have "enumerate 0 xs = map (\<lambda>i. (i, xs ! i)) [0..<length xs]"
    by (rule nth_equalityI) (simp_all add: nth_enumerate_eq)
  then show ?thesis by (simp add: filter_map comp_def)
qed

lemma spans_frames:
  assumes h: "chunk_holds E level ch fs zs"
    and f: "frames_overlapping cend (chunk_frame_index ch) (chunk_ts_index ch) rg = Inr spans"
  shows "map (\<lambda>sp. fs ! frame_idx sp) spans = filter (frame_hits rg) fs"
    and "\<And>sp. sp \<in> set spans \<Longrightarrow> frame_idx sp < length fs"
proof -
  note len = chunk_holds_lengths [OF h]
  let ?z = "zip (fi_entries (chunk_frame_index ch)) (ts_entries (chunk_ts_index ch))"
  have ts: "ts_entries (chunk_ts_index ch) = map ts_range fs" using h by (simp add: chunk_holds_def)
  have sp: "spans = map (\<lambda>(i, (fe, _)). \<lparr>frame_idx = i, byte_start = compressed_offset fe,
        byte_end_exclusive = cend fe, span_original_size = original_size fe\<rparr>)
      (filter (\<lambda>x. overlaps rg (min_ts (snd (snd x))) (max_ts (snd (snd x)))) (enumerate 0 ?z))"
    using f len by (simp add: frames_overlapping_def case_prod_beta')
  have "map (\<lambda>sp. fs ! frame_idx sp) spans
      = map (\<lambda>x. fs ! fst x) (filter (\<lambda>x. overlaps rg (min_ts (snd (snd x))) (max_ts (snd (snd x)))) (enumerate 0 ?z))"
    unfolding sp by (simp add: comp_def case_prod_beta')
  also have "\<dots> = map ((!) fs) (filter (\<lambda>i. frame_hits rg (fs ! i)) [0..<length fs])"
    unfolding filter_enumerate [of fs "\<lambda>x. overlaps rg (min_ts (snd x)) (max_ts (snd x))" ?z]
    by (intro arg_cong [of _ _ "map ((!) fs)"] filter_cong) (use len ts in \<open>auto simp: frame_hits_def ts_range_def\<close>)
  also have "\<dots> = filter (frame_hits rg) (map ((!) fs) [0..<length fs])"
    by (simp add: filter_map comp_def)
  finally show "map (\<lambda>sp. fs ! frame_idx sp) spans = filter (frame_hits rg) fs" by (simp add: map_nth)
  show "frame_idx sp < length fs" if "sp \<in> set spans" for sp
    using that len unfolding sp by (auto simp: in_set_enumerate_eq)
qed

lemma spans_read:
  assumes "zstd_faithful E" and "cend_ok cend" and h: "chunk_holds E level ch fs zs"
    and m: "length (jsonl_text (json E) (concat fs)) \<le> MAX_DECOMPRESSED_BYTES"
    and f: "frames_overlapping cend (chunk_frame_index ch) (chunk_ts_index ch) rg = Inr spans" and "sp \<in> set spans"
  shows "read_span E (chunk_body ch) sp = Inr (jsonl_text (json E) (fs ! frame_idx sp))"
    and "byte_start sp \<le> byte_end_exclusive sp"
proof -
  have "length (jsonl_text (json E) f) \<le> length (jsonl_text (json E) (concat fs))" if "f \<in> set fs" for f
    using split_list [OF that] by auto
  then have "\<forall>f \<in> set fs. length (jsonl_text (json E) f) \<le> MAX_DECOMPRESSED_BYTES" using m le_trans by blast
  from pruned_read [OF assms(1,2) h this, of rg] f
  have "map (read_span E (chunk_body ch)) spans = map (\<lambda>f. Inr (jsonl_text (json E) f)) (filter (frame_hits rg) fs)" by auto
  also have "\<dots> = map (\<lambda>sp. Inr (jsonl_text (json E) (fs ! frame_idx sp))) spans"
    unfolding spans_frames(1) [OF h f, symmetric] by simp
  finally have "map (read_span E (chunk_body ch)) spans = map (\<lambda>sp. Inr (jsonl_text (json E) (fs ! frame_idx sp))) spans" .
  then show "read_span E (chunk_body ch) sp = Inr (jsonl_text (json E) (fs ! frame_idx sp))" using assms(6) by simp
  show "byte_start sp \<le> byte_end_exclusive sp"
    using f assms(2,6) by (auto simp: frames_overlapping_def cend_ok_def split: if_splits)
qed

lemma sorted_concat:
  assumes "\<And>b. b \<in> set bs \<Longrightarrow> sorted (map k b)" and "sorted_wrt (\<lambda>a b. \<forall>x \<in> set a. \<forall>y \<in> set b. k x \<le> k y) bs"
  shows "sorted (map k (concat bs))"
  using assms by (induction bs) (auto simp: sorted_append)

section \<open>An archived chunk as a source\<close>

fun is_aws :: "store_error \<Rightarrow> bool" where
  "is_aws (Aws _ _ _) = True"
| "is_aws _ = False"

text \<open>
  The chunk with records \<open>rs\<close> is stored at \<open>loc\<close>; its sidecars load, or are missing or corrupt (anything
  but a failed request).
\<close>

definition chunk_at ::
    "('s, 'dt) scan_env \<Rightarrow> ('s \<Rightarrow> string \<rightharpoonup> bytes) \<Rightarrow> 's \<Rightarrow> chunk_location \<Rightarrow> log_record list \<Rightarrow> bool" where
  "chunk_at V objs s loc rs \<longleftrightarrow> (\<exists>level ch fs zs. chunk_holds (sv_chunk V) level ch fs zs \<and> concat fs = rs
     \<and> objs s (data_key loc (os_prefix (sv_store V))) = Some (chunk_body ch)
     \<and> jsonl_faithful (json (sv_chunk V)) rs \<and> (\<forall>r \<in> set rs. json_closed (json (sv_chunk V)) r)
     \<and> length (jsonl_text (json (sv_chunk V)) rs) \<le> FALLBACK_DECODE_CAP_BYTES
     \<and> (case load_indexes (sv_codec V) (sv_client V) (sv_store V) loc s of
          Inl e \<Rightarrow> \<not> is_aws e
        | Inr (fi, ti) \<Rightarrow> ti = chunk_ts_index ch \<and> (\<exists>etag. fi = stamp ch etag)))"

definition scan_laws :: "('s, 'dt) scan_env \<Rightarrow> ('s \<Rightarrow> string \<rightharpoonup> bytes) \<Rightarrow> bool" where
  "scan_laws V objs \<longleftrightarrow> get_law (sv_client V) (os_bucket (sv_store V)) objs
     \<and> zstd_faithful (sv_chunk V) \<and> cend_ok (compressed_end (sv_codec V))"

lemma matches_in_range: "record_matches r rg pat \<Longrightarrow> in_range rg r"
  by (simp add: record_matches_def in_range_def)

lemma hits_in_range: "hits rg pat (filter (in_range rg) rs) = hits rg pat rs"
  by (induction rs) (auto dest: matches_in_range)

lemma hits_pruned: "hits rg pat (concat (filter (frame_hits rg) fs)) = hits rg pat (concat fs)"
  using pruning_keeps_range [of rg fs] hits_in_range by metis

lemma frame_times:
  assumes "chunk_holds E level ch fs zs" and "i < length fs"
  shows "min_ts (ts_entries (chunk_ts_index ch) ! i) = ts_min (fs ! i)" "max_ts (ts_entries (chunk_ts_index ch) ! i) = ts_max (fs ! i)"
  using assms by (simp_all add: chunk_holds_def ts_range_def)

lemma whole_object_gives:
  assumes L: "scan_laws V objs" and h: "chunk_holds (sv_chunk V) level ch fs zs" and "concat fs = rs"
    and "objs s key = Some (chunk_body ch)" and "jsonl_faithful (json (sv_chunk V)) rs" "\<forall>r \<in> set rs. json_closed (json (sv_chunk V)) r"
    and "length (jsonl_text (json (sv_chunk V)) rs) \<le> FALLBACK_DECODE_CAP_BYTES"
  shows "unit_gives V s key rg pat WholeObject (sort_key rec_order (hits rg pat rs))"
proof -
  have "zstd_decode (sv_chunk V) (chunk_body ch) = Inr (jsonl_text (json (sv_chunk V)) rs, None)"
    using chunk_body_decodes [OF _ h] L assms(3) by (simp add: scan_laws_def)
  moreover have "get_bytes (sv_client V) (sv_store V) key s = Inr (chunk_body ch)"
    using L assms(4) by (intro get_bytes_stored [where objs = objs]) (simp_all add: scan_laws_def)
  ultimately show ?thesis
    using stream_loop_text [OF assms(5,6), of 0] assms(7)
    by (auto simp: unit_gives_def stream_full_object_def)
qed

lemma frames_give:
  assumes L: "scan_laws V objs" and h: "chunk_holds (sv_chunk V) level ch fs zs" and "concat fs = rs"
    and "objs s key = Some (chunk_body ch)" and j: "jsonl_faithful (json (sv_chunk V)) rs"
    and m: "length (jsonl_text (json (sv_chunk V)) rs) \<le> FALLBACK_DECODE_CAP_BYTES"
    and f: "frames_overlapping (compressed_end (sv_codec V)) (chunk_frame_index ch) (chunk_ts_index ch) rg = Inr spans"
    and "set c \<subseteq> set spans"
  shows "unit_gives V s key rg pat (Frames c) (sort_key rec_order (hits rg pat (concat (map (\<lambda>sp. fs ! frame_idx sp) c))))"
proof -
  have laws: "zstd_faithful (sv_chunk V)" "cend_ok (compressed_end (sv_codec V))" "get_law (sv_client V) (os_bucket (sv_store V)) objs"
    using L by (simp_all add: scan_laws_def)
  have m': "length (jsonl_text (json (sv_chunk V)) (concat fs)) \<le> MAX_DECOMPRESSED_BYTES"
    using m assms(3) by (simp add: FALLBACK_DECODE_CAP_BYTES_def MAX_DECOMPRESSED_BYTES_def)
  have "byte_start sp \<le> byte_end_exclusive sp \<and> byte_end_exclusive sp \<le> length (chunk_body ch)
      \<and> read_span (sv_chunk V) (chunk_body ch) sp = Inr (jsonl_text (json (sv_chunk V)) (fs ! frame_idx sp))
      \<and> jsonl_faithful (json (sv_chunk V)) (fs ! frame_idx sp)" if "sp \<in> set c" for sp
  proof -
    have sp: "sp \<in> set spans" using that assms(8) by auto
    have "jsonl_faithful (json (sv_chunk V)) (fs ! frame_idx sp)"
      using j assms(3) spans_frames(2) [OF h f sp] nth_mem by (fastforce simp: jsonl_faithful_def)
    then show ?thesis
      using spans_read [OF laws(1,2) h m' f sp] span_bounds [OF laws(2) h f sp] by simp
  qed
  note fs = fetch_spans_collect [where V = V and F = "\<lambda>sp. fs ! frame_idx sp", OF this laws(3)]
  show ?thesis unfolding unit_gives_def fetch_unit_recs.simps
    using fs [of c] assms(4) by (metis append_Nil)
qed

text \<open>The batches of a list of clusters whose frames lie apart in time are ascending.\<close>

lemma cluster_batches_sorted:
  assumes "sorted_wrt (\<lambda>c d. \<forall>x \<in> set c. \<forall>y \<in> set d. snd (snd x) < fst (snd y)) C"
    and "\<And>x r. x \<in> set (concat C) \<Longrightarrow> r \<in> set (F (fst x)) \<Longrightarrow> fst (snd x) \<le> timestamp r \<and> timestamp r \<le> snd (snd x)"
  shows "sorted (map rec_order (concat (map (\<lambda>c. sort_key rec_order (hits rg pat (concat (map (\<lambda>x. F (fst x)) c)))) C)))"
proof (rule sorted_concat)
  show "sorted (map rec_order b)"
    if "b \<in> set (map (\<lambda>c. sort_key rec_order (hits rg pat (concat (map (\<lambda>x. F (fst x)) c)))) C)" for b
    using that by auto
  have "\<forall>r \<in> set (sort_key rec_order (hits rg pat (concat (map (\<lambda>x. F (fst x)) c)))).
      \<forall>q \<in> set (sort_key rec_order (hits rg pat (concat (map (\<lambda>x. F (fst x)) d)))). rec_order r \<le> rec_order q"
    if cd: "c \<in> set C" "d \<in> set C" "\<forall>x \<in> set c. \<forall>y \<in> set d. snd (snd x) < fst (snd y)" for c d
  proof (intro ballI)
    fix r q
    assume "r \<in> set (sort_key rec_order (hits rg pat (concat (map (\<lambda>x. F (fst x)) c))))"
      "q \<in> set (sort_key rec_order (hits rg pat (concat (map (\<lambda>x. F (fst x)) d))))"
    then obtain x y where "x \<in> set c" "r \<in> set (F (fst x))" "y \<in> set d" "q \<in> set (F (fst y))" by auto
    moreover from this cd(1,2) have "timestamp r \<le> snd (snd x)" "fst (snd y) \<le> timestamp q"
      using assms(2) [of x r] assms(2) [of y q] by auto
    ultimately have "timestamp r < timestamp q" using cd(3) by force
    then show "rec_order r \<le> rec_order q" by (simp add: rec_order_def)
  qed
  then show "sorted_wrt (\<lambda>a b. \<forall>x \<in> set a. \<forall>y \<in> set b. rec_order x \<le> rec_order y)
      (map (\<lambda>c. sort_key rec_order (hits rg pat (concat (map (\<lambda>x. F (fst x)) c)))) C)"
    unfolding sorted_wrt_map by (intro sorted_wrt_mono_rel [OF _ assms(1)]) blast
qed

lemma mset_hits_clusters:
  "mset (concat (map (\<lambda>c. sort_key rec_order (hits rg pat (concat (map G c)))) C)) = mset (hits rg pat (concat (map G (concat C))))"
  by (induction C) simp_all

lemma mset_concat_map: "mset xs = mset ys \<Longrightarrow> mset (concat (map G xs)) = mset (concat (map G ys))"
  by (metis mset_concat mset_map sum_mset_sum_list)

lemma clustered_source:
  assumes L: "scan_laws V objs" and h: "chunk_holds (sv_chunk V) level ch fs zs" and rs: "concat fs = rs"
    and o: "objs s key = Some (chunk_body ch)" and j: "jsonl_faithful (json (sv_chunk V)) rs"
    and m: "length (jsonl_text (json (sv_chunk V)) rs) \<le> FALLBACK_DECODE_CAP_BYTES"
    and f: "frames_overlapping (compressed_end (sv_codec V)) (chunk_frame_index ch) (chunk_ts_index ch) rg = Inr spans"
    and u: "units = map Frames (cluster_spans (map (\<lambda>sp. (sp, min_ts (ts_entries (chunk_ts_index ch) ! frame_idx sp),
              max_ts (ts_entries (chunk_ts_index ch) ! frame_idx sp))) spans))"
  shows "\<exists>bs. list_all2 (unit_gives V s key rg pat) units bs \<and> sorted (map rec_order (concat bs))
    \<and> mset (concat bs) = mset (hits rg pat rs)"
proof -
  let ?F = "\<lambda>sp. fs ! frame_idx sp"
  let ?T = "map (\<lambda>sp. (sp, min_ts (ts_entries (chunk_ts_index ch) ! frame_idx sp),
              max_ts (ts_entries (chunk_ts_index ch) ! frame_idx sp))) spans"
  let ?C = "timed_clusters ?T"
  let ?bs = "map (\<lambda>c. sort_key rec_order (hits rg pat (concat (map (\<lambda>x. ?F (fst x)) c)))) ?C"
  have sub: "set (concat ?C) = set ?T" using arg_cong [OF timed_clusters_mset [of ?T], of set_mset] unfolding set_mset_mset .
  have "unit_gives V s key rg pat (Frames (map fst c)) (sort_key rec_order (hits rg pat (concat (map (\<lambda>x. ?F (fst x)) c))))"
    if "c \<in> set ?C" for c
  proof -
    have "set (map fst c) \<subseteq> set spans" using that sub by fastforce
    from frames_give [OF L h rs o j m f this, of pat] show ?thesis by (simp add: comp_def)
  qed
  then have "list_all2 (unit_gives V s key rg pat) units ?bs"
    unfolding u cluster_spans_timed by (simp add: list_all2_map1 list_all2_map2 list.rel_refl_strong)
  moreover have "fst (snd x) \<le> timestamp r \<and> timestamp r \<le> snd (snd x)" if "x \<in> set (concat ?C)" "r \<in> set (?F (fst x))" for x r
  proof -
    from that(1) sub obtain sp where sp: "sp \<in> set spans" "x = (sp, min_ts (ts_entries (chunk_ts_index ch) ! frame_idx sp),
        max_ts (ts_entries (chunk_ts_index ch) ! frame_idx sp))" by auto
    with that(2) frame_times [OF h spans_frames(2) [OF h f sp(1)]] show ?thesis by (simp add: ts_min_le ts_max_ge)
  qed
  then have "sorted (map rec_order (concat ?bs))" by (rule cluster_batches_sorted [OF timed_clusters_apart])
  moreover have "mset (concat ?bs) = mset (hits rg pat rs)"
  proof -
    have "mset (concat (map (\<lambda>x. ?F (fst x)) (concat ?C))) = mset (concat (map (\<lambda>x. ?F (fst x)) ?T))"
      by (rule mset_concat_map [OF timed_clusters_mset])
    also have "\<dots> = mset (concat (filter (frame_hits rg) fs))"
      unfolding spans_frames(1) [OF h f, symmetric] by (simp add: comp_def)
    finally have "mset (hits rg pat (concat (map (\<lambda>x. ?F (fst x)) (concat ?C)))) = mset (hits rg pat (concat (filter (frame_hits rg) fs)))"
      unfolding mset_filter by simp
    then show ?thesis unfolding mset_hits_clusters hits_pruned rs .
  qed
  ultimately show ?thesis by blast
qed

lemma chunk_source_yields:
  assumes L: "scan_laws V objs" and c: "chunk_at V objs s loc rs"
  shows "\<exists>units bs. chunk_units V s rg loc = Inr units
    \<and> list_all2 (unit_gives V s (data_key loc (os_prefix (sv_store V))) rg pat) units bs
    \<and> sorted (map rec_order (concat bs)) \<and> mset (concat bs) = mset (hits rg pat rs)"
proof -
  from c obtain level ch fs zs where h: "chunk_holds (sv_chunk V) level ch fs zs" "concat fs = rs"
    "objs s (data_key loc (os_prefix (sv_store V))) = Some (chunk_body ch)"
    "jsonl_faithful (json (sv_chunk V)) rs" "\<forall>r \<in> set rs. json_closed (json (sv_chunk V)) r"
    "length (jsonl_text (json (sv_chunk V)) rs) \<le> FALLBACK_DECODE_CAP_BYTES"
    and l: "case load_indexes (sv_codec V) (sv_client V) (sv_store V) loc s of
          Inl e \<Rightarrow> \<not> is_aws e
        | Inr (fi, ti) \<Rightarrow> ti = chunk_ts_index ch \<and> (\<exists>etag. fi = stamp ch etag)"
    unfolding chunk_at_def by blast
  show ?thesis
  proof (cases "load_indexes (sv_codec V) (sv_client V) (sv_store V) loc s")
    case (Inl e)
    then have "chunk_units V s rg loc = Inr [WholeObject]" using l by (cases e) (simp_all add: chunk_units_def)
    with whole_object_gives [OF L h, of rg pat] show ?thesis
      by (intro exI [of _ "[WholeObject]"] exI [of _ "[sort_key rec_order (hits rg pat rs)]"]) simp
  next
    case (Inr x)
    obtain fi ti where x: "x = (fi, ti)" by (cases x)
    then obtain etag where e: "ti = chunk_ts_index ch" "fi = stamp ch etag" using l Inr by auto
    obtain spans where f: "frames_overlapping (compressed_end (sv_codec V)) (chunk_frame_index ch) (chunk_ts_index ch) rg = Inr spans"
      using chunk_holds_lengths [OF h(1)] by (simp add: frames_overlapping_def)
    then have "chunk_units V s rg loc = Inr (map Frames (cluster_spans (map (\<lambda>sp. (sp,
        min_ts (ts_entries (chunk_ts_index ch) ! frame_idx sp), max_ts (ts_entries (chunk_ts_index ch) ! frame_idx sp))) spans)))"
      using Inr x e by (simp add: chunk_units_def)
    with clustered_source [OF L h(1,2,3,4,6) f refl, of pat] show ?thesis by blast
  qed
qed

section \<open>Listing\<close>

text \<open>
  ListObjectsV2 at one state of the bucket: the pages of a prefix hold every key with that prefix once.
\<close>

definition list_law :: "'s s3_client \<Rightarrow> string \<Rightarrow> ('s \<Rightarrow> string \<rightharpoonup> bytes) \<Rightarrow> 's \<Rightarrow> bool" where
  "list_law cl bkt objs s \<longleftrightarrow> (\<forall>p. \<exists>pages. list_pages (\<lambda>t. s3_list_objects cl bkt p t s) None pages
     \<and> distinct (List.map_filter id (concat pages))
     \<and> set (List.map_filter id (concat pages)) = {k \<in> dom (objs s). starts_with p k})"

text \<open>The group's part of the bucket: the chunks at \<open>locs\<close>, with records \<open>A\<close>, each in the partition of its records' date.\<close>

definition archived ::
    "('s, 'dt) scan_env \<Rightarrow> ('s \<Rightarrow> string \<rightharpoonup> bytes) \<Rightarrow> 's \<Rightarrow> string \<Rightarrow> string \<Rightarrow> chunk_location list
     \<Rightarrow> (chunk_location \<Rightarrow> log_record list) \<Rightarrow> bool" where
  "archived V objs s acct g locs A \<longleftrightarrow> distinct locs
     \<and> {k \<in> dom (objs s). starts_with (data_group_prefix (os_prefix (sv_store V)) acct g) k}
         = (\<lambda>l. data_key l (os_prefix (sv_store V))) ` set locs
     \<and> (\<forall>l \<in> set locs. wf_location l \<and> account l = acct \<and> log_group l = g \<and> chunk_at V objs s l (A l)
          \<and> (\<forall>r \<in> set (A l). date_from_ts_ms (sv_chrono V) (timestamp r) = date l))"

text \<open>
  The calendar on the range: the date of a timestamp is that of its day, the days of the range have
  different dates, and a date holds no slash.
\<close>

definition calendar_ok :: "'dt chrono \<Rightarrow> time_range \<Rightarrow> bool" where
  "calendar_ok T rg \<longleftrightarrow>
     (\<forall>t. from_ms rg \<le> t \<and> t < to_ms_exclusive rg \<longrightarrow> date_from_ts_ms T t = date_from_ts_ms T (sat_i64 (t div DAY_MS * DAY_MS)))
     \<and> distinct (dates_in_range T (from_ms rg) (to_ms_exclusive rg))
     \<and> (\<forall>d \<in> set (dates_in_range T (from_ms rg) (to_ms_exclusive rg)). CHR ''/'' \<notin> set d)"

lemma dates_cover:
  assumes "calendar_ok T rg" and "in_range rg r"
  shows "date_from_ts_ms T (timestamp r) \<in> set (dates_in_range T (from_ms rg) (to_ms_exclusive rg))"
proof -
  have t: "from_ms rg \<le> timestamp r" "timestamp r < to_ms_exclusive rg" using assms(2) by (simp_all add: in_range_def)
  then have "from_ms rg div DAY_MS \<le> timestamp r div DAY_MS" "timestamp r div DAY_MS \<le> (to_ms_exclusive rg - 1) div DAY_MS"
    by (simp_all add: zdiv_mono1 DAY_MS_def)
  moreover have "date_from_ts_ms T (timestamp r) = date_from_ts_ms T (sat_i64 (timestamp r div DAY_MS * DAY_MS))"
    using assms(1) t by (simp add: calendar_ok_def)
  ultimately show ?thesis using t by (auto simp: dates_in_range_def)
qed

lemma list_keys_law:
  assumes "list_law cl (os_bucket st) objs s"
  obtains keys where "list_keys cl st p s = Some (Inr keys)" "distinct keys" "set keys = {k \<in> dom (objs s). starts_with p k}"
proof -
  from assms obtain pages where p: "list_pages (\<lambda>t. s3_list_objects cl (os_bucket st) p t s) None pages"
    "distinct (List.map_filter id (concat pages))" "set (List.map_filter id (concat pages)) = {k \<in> dom (objs s). starts_with p k}"
    unfolding list_law_def by blast
  from list_keys_loop_pages [OF p(1), of "[]"] p(2,3) that show ?thesis by (simp add: list_keys_def)
qed

lemma parsed_keys:
  assumes "distinct keys" and "set keys = f ` set ls" and "\<And>l. l \<in> set ls \<Longrightarrow> g (f l) = Some l" and "distinct ls"
  shows "mset (List.map_filter g keys) = mset ls"
proof -
  have inj: "inj_on f (set ls)" using assms(3) by (metis inj_onI option.inject)
  have "mset keys = mset (map f ls)"
    using assms(1,2,4) inj set_eq_iff_mset_eq_distinct [of keys "map f ls"] by (simp add: distinct_map)
  then have "mset (List.map_filter g keys) = mset (List.map_filter g (map f ls))"
    by (metis map_filter_def mset_filter mset_map)
  also have "List.map_filter g (map f ls) = ls" using assms(3) by (induction ls) (simp_all add: map_filter_simps)
  finally show ?thesis .
qed

lemma dt_prefix:
  assumes "CHR ''/'' \<notin> set d" and "wf_location l"
  shows "starts_with (data_group_prefix p (account l) (log_group l) @ ''dt='' @ d @ ''/'') (data_key l p) \<longleftrightarrow> date l = d"
proof
  assume "starts_with (data_group_prefix p (account l) (log_group l) @ ''dt='' @ d @ ''/'') (data_key l p)"
  then obtain u where "data_key l p = (data_group_prefix p (account l) (log_group l) @ ''dt='' @ d @ ''/'') @ u"
    unfolding starts_with_def by (metis append_take_drop_id)
  then have "d @ CHR ''/'' # u = date l @ CHR ''/'' # obj_name l @ DATA_SUFFIX" by (simp add: data_key_in_group)
  then show "date l = d" using strip_head_inject [OF assms(1)] assms(2) by (metis wf_location_def)
next
  assume "date l = d"
  then have "data_key l p = (data_group_prefix p (account l) (log_group l) @ ''dt='' @ d @ ''/'') @ obj_name l @ DATA_SUFFIX"
    by (simp add: data_key_in_group)
  then show "starts_with (data_group_prefix p (account l) (log_group l) @ ''dt='' @ d @ ''/'') (data_key l p)"
    by (metis starts_with_append)
qed

lemma list_dates_exact:
  assumes ll: "list_law (sv_client V) (os_bucket (sv_store V)) objs s" and a: "archived V objs s acct g L A"
    and "\<forall>d \<in> set ds. CHR ''/'' \<notin> set d" and "distinct ds"
  shows "\<exists>new n'. list_dates V s (data_group_prefix (os_prefix (sv_store V)) acct g) ds locs n = Some (Inr (locs @ new, n'))
    \<and> mset new = mset (filter (\<lambda>l. date l \<in> set ds) L)"
  using assms(3,4)
proof (induction ds arbitrary: locs n)
  case (Cons d ds)
  let ?p = "os_prefix (sv_store V)" and ?L = "filter (\<lambda>l. date l = d) L"
  let ?dt = "data_group_prefix ?p acct g @ ''dt='' @ d @ ''/''"
  have wf: "wf_location l \<and> account l = acct \<and> log_group l = g" if "l \<in> set L" for l using a that by (simp add: archived_def)
  have all: "{k \<in> dom (objs s). starts_with (data_group_prefix ?p acct g) k} = (\<lambda>l. data_key l ?p) ` set L" and dL: "distinct L"
    using a by (simp_all add: archived_def)
  obtain keys where k: "list_keys (sv_client V) (sv_store V) ?dt s = Some (Inr keys)" "distinct keys"
    "set keys = {k \<in> dom (objs s). starts_with ?dt k}" by (rule list_keys_law [OF ll])
  have "starts_with (data_group_prefix ?p acct g) k" if "starts_with ?dt k" for k
    using that unfolding starts_with_def by (metis append_assoc append_eq_conv_conj append_take_drop_id)
  then have "set keys = {k \<in> (\<lambda>l. data_key l ?p) ` set L. starts_with ?dt k}" unfolding k(3) all [symmetric] by auto
  also have "\<dots> = (\<lambda>l. data_key l ?p) ` set ?L"
    using dt_prefix [of d _ ?p] Cons.prems(1) wf by (auto simp del: append_assoc)
  finally have "mset (List.map_filter (parse_data_key ?p) keys) = mset ?L"
    using dL wf by (intro parsed_keys [OF k(2)]) (auto intro: parse_data_key_data_key)
  moreover from Cons.IH [of "locs @ List.map_filter (parse_data_key ?p) keys" "n + length keys"] Cons.prems obtain new n' where
    "list_dates V s (data_group_prefix ?p acct g) ds (locs @ List.map_filter (parse_data_key ?p) keys) (n + length keys)
       = Some (Inr ((locs @ List.map_filter (parse_data_key ?p) keys) @ new, n'))"
    "mset new = mset (filter (\<lambda>l. date l \<in> set ds) L)" by auto
  moreover have "mset (filter (\<lambda>l. date l \<in> set (d # ds)) L) = mset ?L + mset (filter (\<lambda>l. date l \<in> set ds) L)"
    using Cons.prems(2) by (induction L) auto
  ultimately show ?case using k(1) by simp
qed simp

lemma list_range_exact:
  assumes ll: "list_law (sv_client V) (os_bucket (sv_store V)) objs s" and a: "archived V objs s acct g L A"
    and c: "calendar_ok (sv_chrono V) rg"
  shows "\<exists>locs n. list_range_chunks V s acct g rg = Some (Inr (locs, n))
    \<and> mset locs = mset (filter (\<lambda>l. date l \<in> set (dates_in_range (sv_chrono V) (from_ms rg) (to_ms_exclusive rg))) L)"
proof (cases "length (dates_in_range (sv_chrono V) (from_ms rg) (to_ms_exclusive rg)) \<le> MAX_PER_DT_LISTS")
  case True
  with list_dates_exact [OF ll a, of "dates_in_range (sv_chrono V) (from_ms rg) (to_ms_exclusive rg)" "[]" 0] c show ?thesis
    by (auto simp: list_range_chunks_def calendar_ok_def)
next
  case False
  let ?p = "os_prefix (sv_store V)"
  obtain keys where k: "list_keys (sv_client V) (sv_store V) (data_group_prefix ?p acct g) s = Some (Inr keys)" "distinct keys"
    "set keys = {k \<in> dom (objs s). starts_with (data_group_prefix ?p acct g) k}" by (rule list_keys_law [OF ll])
  have "mset (List.map_filter (parse_data_key ?p) keys) = mset L"
    using a k(3) by (intro parsed_keys [OF k(2)]) (auto simp: archived_def parse_data_key_data_key)
  then have "mset (filter P (List.map_filter (parse_data_key ?p) keys)) = mset (filter P L)" for P
    unfolding mset_filter by simp
  with False k(1) show ?thesis by (auto simp: list_range_chunks_def list_chunks_def)
qed

lemma hits_by_date:
  assumes a: "archived V objs s acct g L A" and c: "calendar_ok (sv_chrono V) rg"
    and "mset locs = mset (filter (\<lambda>l. date l \<in> set (dates_in_range (sv_chrono V) (from_ms rg) (to_ms_exclusive rg))) L)"
  shows "mset (hits rg pat (concat (map A locs))) = mset (hits rg pat (concat (map A L)))"
proof -
  let ?D = "set (dates_in_range (sv_chrono V) (from_ms rg) (to_ms_exclusive rg))"
  have e: "hits rg pat (A l) = []" if "l \<in> set L" "date l \<notin> ?D" for l
    using a dates_cover [OF c matches_in_range] that by (fastforce simp: archived_def filter_empty_conv)
  have "mset (hits rg pat (concat (map A locs))) = mset (hits rg pat (concat (map A (filter (\<lambda>l. date l \<in> ?D) L))))"
    using mset_concat_map [OF assms(3), of A] unfolding mset_filter by simp
  also have "hits rg pat (concat (map A (filter (\<lambda>l. date l \<in> ?D) L))) = hits rg pat (concat (map A L))"
    using e by (induction L) auto
  finally show ?thesis .
qed

section \<open>Assembly\<close>

lemma build_loop_yields:
  assumes L: "scan_laws V objs" and "\<forall>l \<in> set locs. chunk_at V objs s l (A l)"
  shows "\<exists>new bss n'. build_loop V s rg pat locs sources n = Inr (sources @ new, n') \<and> list_all2 (chunk_yields V s) new bss
    \<and> mset (concat (map concat bss)) = mset (hits rg pat (concat (map A locs)))"
  using assms(2)
proof (induction locs arbitrary: sources n)
  case (Cons l locs)
  from chunk_source_yields [OF L, of s l "A l" rg pat] Cons.prems obtain units bs where
    u: "chunk_units V s rg l = Inr units" "list_all2 (unit_gives V s (data_key l (os_prefix (sv_store V))) rg pat) units bs"
      "sorted (map rec_order (concat bs))" "mset (concat bs) = mset (hits rg pat (A l))" by auto
  let ?src = "\<lparr>cs_data_key = data_key l (os_prefix (sv_store V)), cs_range = rg, cs_pattern = pat,
                cs_units = units, cs_stats = scan_stats_default\<rparr>"
  let ?new = "if units = [] then [] else [?src]" and ?bs = "if units = [] then [] else [bs]"
  have "list_all2 (chunk_yields V s) ?new ?bs" using u(2,3) by (simp add: chunk_yields_def)
  moreover have "mset (concat (map concat ?bs)) = mset (hits rg pat (A l))" using u(2,4) by auto
  moreover from Cons.IH [of "sources @ ?new" "n + 1"] Cons.prems obtain new bss n' where
    "build_loop V s rg pat locs (sources @ ?new) (n + 1) = Inr ((sources @ ?new) @ new, n')"
    "list_all2 (chunk_yields V s) new bss" "mset (concat (map concat bss)) = mset (hits rg pat (concat (map A locs)))" by auto
  ultimately show ?case
    using u(1) by (intro exI [of _ "?new @ new"] exI [of _ "?bs @ bss"] exI [of _ n']) (auto intro: list_all2_appendI)
qed simp

text \<open>Streams labelled with the group each belongs to.\<close>

definition labelled :: "'a list list \<Rightarrow> 'b list \<Rightarrow> ('a \<times> 'b) list" where
  "labelled S gs = concat (map (\<lambda>(xs, g). map (\<lambda>r. (r, g)) xs) (zip S gs))"

lemma labelled_append [simp]: "length S = length gs \<Longrightarrow> labelled (S @ S') (gs @ gs') = labelled S gs @ labelled S' gs'"
  by (simp add: labelled_def)

lemma labelled_replicate [simp]: "labelled S (replicate (length S) g) = map (\<lambda>r. (r, g)) (concat S)"
  by (induction S) (simp_all add: labelled_def)

lemma tagged_labelled:
  assumes "length G = length S"
  shows "map (\<lambda>(r, i). (r, f (G ! i))) (tagged S) = labelled S (map f G)"
proof -
  have "map (\<lambda>(xs, g). map (\<lambda>r. (r, g)) xs) (zip S (map f G)) = map (\<lambda>i. map (\<lambda>r. (r, f (G ! i))) (S ! i)) [0..<length S]"
    using assms by (intro nth_equalityI) simp_all
  then show ?thesis by (simp add: labelled_def tagged_def map_concat comp_def)
qed

text \<open>What a scan of the groups should find.\<close>

definition group_hits ::
    "time_range \<Rightarrow> pattern \<Rightarrow> string list \<Rightarrow> (string \<Rightarrow> chunk_location list) \<Rightarrow> (chunk_location \<Rightarrow> log_record list)
     \<Rightarrow> (log_record \<times> string) list" where
  "group_hits rg pat groups L A = concat (map (\<lambda>g. map (\<lambda>r. (r, g)) (hits rg pat (concat (map A (L g))))) groups)"

lemma open_loop_yields:
  assumes L: "scan_laws V objs" and ll: "list_law (sv_client V) (os_bucket (sv_store V)) objs s" and c: "calendar_ok (sv_chrono V) rg"
    and "\<forall>g \<in> snd ` set gs. archived V objs s acct g (Ls g) A"
    and "list_all2 (chunk_yields V s) sources bss" "length source_groups = length sources"
    and "\<forall>(i, g) \<in> set gs. names ! i = g"
  shows "\<exists>sources' bss' groups' a b. open_loop V s acct rg pat gs sources source_groups listed scanned
      = Some (Inr (sources', groups', a, b)) \<and> list_all2 (chunk_yields V s) sources' bss' \<and> length groups' = length sources'
    \<and> mset (labelled (map concat bss') (map ((!) names) groups'))
      = mset (labelled (map concat bss) (map ((!) names) source_groups)) + mset (group_hits rg pat (map snd gs) Ls A)"
  using assms(4-)
proof (induction gs arbitrary: sources source_groups listed scanned bss)
  case Nil
  then show ?case by (auto simp: group_hits_def)
next
  case (Cons x gs)
  obtain gi g where x: "x = (gi, g)" by (cases x)
  with Cons.prems have a: "archived V objs s acct g (Ls g) A" and n: "names ! gi = g" by auto
  from list_range_exact [OF ll a c] obtain locs k where
    l: "list_range_chunks V s acct g rg = Some (Inr (locs, k))"
      "mset locs = mset (filter (\<lambda>l. date l \<in> set (dates_in_range (sv_chrono V) (from_ms rg) (to_ms_exclusive rg))) (Ls g))" by blast
  have "set locs \<subseteq> set (Ls g)" using arg_cong [OF l(2), of set_mset] unfolding set_mset_mset by auto
  then have "\<forall>l \<in> set locs. chunk_at V objs s l (A l)" using a by (auto simp: archived_def)
  from build_loop_yields [OF L this, of rg pat sources 0] obtain new bnew k' where
    b: "build_loop V s rg pat locs sources 0 = Inr (sources @ new, k')" "list_all2 (chunk_yields V s) new bnew"
      "mset (concat (map concat bnew)) = mset (hits rg pat (concat (map A locs)))" by blast
  have len: "length bnew = length new" "length bss = length sources" using b(2) Cons.prems(2) by (auto dest: list_all2_lengthD)
  let ?sg = "source_groups @ replicate (length new) gi"
  from Cons.IH [of "sources @ new" "bss @ bnew" ?sg "listed + k" "scanned + k'"] Cons.prems list_all2_appendI [OF Cons.prems(2) b(2)] obtain sources' bss' groups' a' b' where
    o: "open_loop V s acct rg pat gs (sources @ new) ?sg (listed + k) (scanned + k') = Some (Inr (sources', groups', a', b'))"
      "list_all2 (chunk_yields V s) sources' bss'" "length groups' = length sources'"
      "mset (labelled (map concat bss') (map ((!) names) groups'))
        = mset (labelled (map concat (bss @ bnew)) (map ((!) names) ?sg)) + mset (group_hits rg pat (map snd gs) Ls A)"
    by auto
  have "labelled (map concat (bss @ bnew)) (map ((!) names) ?sg)
      = labelled (map concat bss) (map ((!) names) source_groups) @ map (\<lambda>r. (r, g)) (concat (map concat bnew))"
    using labelled_replicate [of "map concat bnew" g] len Cons.prems(3) n by simp
  moreover have "mset (map (\<lambda>r. (r, g)) (concat (map concat bnew))) = mset (map (\<lambda>r. (r, g)) (hits rg pat (concat (map A (Ls g)))))"
    unfolding mset_map b(3) hits_by_date [OF a c l(2)] ..
  ultimately show ?case
    using o l(1) b(1) x by (auto simp: build_group_sources_def group_hits_def)
qed

section \<open>Running a scan\<close>

text \<open>The caller's \<^verbatim>\<open>emit\<close> on a list, stopping at its first error.\<close>

fun emit_all ::
    "(log_record \<Rightarrow> string \<Rightarrow> 'a \<Rightarrow> 'a \<times> (scan_error + unit)) \<Rightarrow> (log_record \<times> string) list \<Rightarrow> 'a \<Rightarrow> 'a \<times> (scan_error + unit)" where
  "emit_all emit [] acc = (acc, Inr ())"
| "emit_all emit ((r, g) # xs) acc =
     (case emit r g acc of (acc', Inl e) \<Rightarrow> (acc', Inl e) | (acc', Inr _) \<Rightarrow> emit_all emit xs acc')"

definition with_stats :: "'a \<times> (scan_error + unit) \<Rightarrow> scan_stats \<Rightarrow> 'a \<times> (scan_error + scan_stats)" where
  "with_stats x stats = (fst x, case snd x of Inl e \<Rightarrow> Inl e | Inr _ \<Rightarrow> Inr stats)"

lemma scan_loop_emits:
  assumes "record_batch_source.live (chunk_yields V s) (ss_merge ss) S"
  shows "\<exists>stats. scan_loop V s emit ss acc = Some (with_stats
    (emit_all emit (map (\<lambda>(r, i). (r, ss_group_names ss ! (ss_source_groups ss ! i))) (merged S)) acc) stats)"
  using assms
proof (induction "merged S" arbitrary: S ss acc)
  case Nil
  from chunk_src.next_indexed_step [OF Nil.prems] Nil.hyps show ?case
    by (subst scan_loop.simps) (auto simp: next_with_group_def with_stats_def)
next
  case (Cons x xs)
  obtain r i where x: "x = (r, i)" by (cases x)
  from chunk_src.next_indexed_step [OF Cons.prems] Cons.hyps(2) x obtain km' S' where
    n: "next_indexed (next_batch V s) (ss_merge ss) = Some (km', Inr (Some (r, i)))" "record_batch_source.live (chunk_yields V s) km' S'" "xs = merged S'" by auto
  let ?g = "ss_group_names ss ! (ss_source_groups ss ! i)"
  have m: "merged S = (r, i) # merged S'" using Cons.hyps(2) x n(3) by simp
  show ?case
  proof (cases "emit r ?g acc")
    case (Pair acc' res)
    show ?thesis
    proof (cases res)
      case (Inl e)
      with Pair n(1) m show ?thesis by (subst scan_loop.simps) (simp add: next_with_group_def with_stats_def)
    next
      case (Inr u)
      from Cons.hyps(1) [OF n(3), of "ss\<lparr>ss_merge := km'\<rparr>" acc'] n(2) Pair Inr n(1) m show ?thesis
        by (subst scan_loop.simps) (simp add: next_with_group_def)
    qed
  qed
qed

lemma merged_sorted: "sorted (map (rec_order \<circ> fst) (merged S))"
  unfolding merged_def by (rule sorted_sort_key)

lemma open_scan_live:
  assumes L: "scan_laws V objs" and ll: "list_law (sv_client V) (os_bucket (sv_store V)) objs s" and c: "calendar_ok (sv_chrono V) rg"
    and a: "\<forall>g \<in> set groups. archived V objs s acct g (Ls g) A"
  shows "\<exists>ss S. open_scan_multi V s acct groups rg pat = Some (Inr ss)
    \<and> record_batch_source.live (chunk_yields V s) (ss_merge ss) S
    \<and> mset (map (\<lambda>(r, i). (r, ss_group_names ss ! (ss_source_groups ss ! i))) (merged S)) = mset (group_hits rg pat groups Ls A)"
proof -
  have gs: "snd ` set (enumerate 0 groups) = set groups" by (metis list.set_map map_snd_enumerate)
  have nm: "\<forall>(i, g) \<in> set (enumerate 0 groups). groups ! i = g" by (auto simp: in_set_enumerate_eq)
  from open_loop_yields [OF L ll c, of "enumerate 0 groups" acct Ls A "[]" "[]" "[]" groups pat 0 0] a gs nm
  obtain sources bss sg n m where
    o: "open_loop V s acct rg pat (enumerate 0 groups) [] [] 0 0 = Some (Inr (sources, sg, n, m))"
      "list_all2 (chunk_yields V s) sources bss" "length sg = length sources"
      "mset (labelled (map concat bss) (map ((!) groups) sg)) = mset (group_hits rg pat groups Ls A)"
    by (auto simp: labelled_def)
  let ?ss = "\<lparr>ss_merge = km_new sources, ss_source_groups = sg, ss_group_names = groups, ss_listed = n, ss_scanned = m\<rparr>"
  have "open_scan_multi V s acct groups rg pat = Some (Inr ?ss)" using o(1) by (simp add: open_scan_multi_def)
  moreover have "record_batch_source.live (chunk_yields V s) (ss_merge ?ss) (map concat bss)"
    using chunk_src.live_new [OF o(2)] by simp
  moreover have "mset (map (\<lambda>(r, i). (r, groups ! (sg ! i))) (merged (map concat bss)))
      = mset (map (\<lambda>(r, i). (r, groups ! (sg ! i))) (tagged (map concat bss)))"
    unfolding merged_def mset_map mset_sort ..
  then have "mset (map (\<lambda>(r, i). (r, groups ! (sg ! i))) (merged (map concat bss))) = mset (group_hits rg pat groups Ls A)"
    using tagged_labelled [of sg "map concat bss" "(!) groups"] o(3,4) list_all2_lengthD [OF o(2)] by simp
  ultimately show ?thesis by (intro exI [of _ ?ss] exI [of _ "map concat bss"]) simp
qed

lemma scan_emits:
  assumes "scan_laws V objs" and "list_law (sv_client V) (os_bucket (sv_store V)) objs s" and "calendar_ok (sv_chrono V) rg"
    and "\<forall>g \<in> set groups. archived V objs s acct g (Ls g) A"
  shows "\<exists>out stats. scan_log_groups V s acct groups rg pat emit acc = Some (with_stats (emit_all emit out acc) stats)
    \<and> sorted (map (rec_order \<circ> fst) out) \<and> mset out = mset (group_hits rg pat groups Ls A)"
proof -
  from open_scan_live [OF assms, of pat] obtain ss S where
    o: "open_scan_multi V s acct groups rg pat = Some (Inr ss)" "record_batch_source.live (chunk_yields V s) (ss_merge ss) S"
    "mset (map (\<lambda>(r, i). (r, ss_group_names ss ! (ss_source_groups ss ! i))) (merged S)) = mset (group_hits rg pat groups Ls A)"
    by blast
  let ?out = "map (\<lambda>(r, i). (r, ss_group_names ss ! (ss_source_groups ss ! i))) (merged S)"
  from scan_loop_emits [OF o(2), of emit acc] o(1) obtain stats where
    "scan_log_groups V s acct groups rg pat emit acc = Some (with_stats (emit_all emit ?out acc) stats)"
    by (auto simp: scan_log_groups_def)
  moreover have "map (rec_order \<circ> fst) ?out = map (rec_order \<circ> fst) (merged S)" by auto
  then have "sorted (map (rec_order \<circ> fst) ?out)" using merged_sorted by metis
  ultimately show ?thesis using o(3) by blast
qed

section \<open>A stored chunk is a source\<close>

lemma stored_chunk_at:
  assumes L: "scan_laws V objs" and "zstd_total (sv_chunk V) (zstd_level c)"
    and p: "put_law (sv_client V) (os_bucket (sv_store V)) objs" and "SIDECAR_SUFFIX (sv_codec V) \<noteq> TS_SIDECAR_SUFFIX"
    and "jsonl_faithful (json (sv_chunk V)) rs" and "\<forall>r \<in> set rs. is_i64 (timestamp r) \<and> json_closed (json (sv_chunk V)) r"
    and "length (jsonl_text (json (sv_chunk V)) rs) \<le> FALLBACK_DECODE_CAP_BYTES" and "length rs \<le> MAX_FRAMES"
    and "push_all (sv_chunk V) rs (cw_new c) = (w, Inr ())" and "cw_finish (sv_chunk V) w = Inr (Some ch)"
    and put: "os_put_chunk (sv_codec V) (sv_client V) (sv_store V) loc ch s = (s', Inr r)"
    and "decode_index (sv_codec V) (encode_index (sv_codec V) (stamp ch (r_etag r))) = Inr (stamp ch (r_etag r))"
  shows "chunk_at V objs s' loc rs"
proof -
  from written_chunk [OF assms(2,5)] assms(9,10) obtain fs zs where
    h: "chunk_holds (sv_chunk V) (zstd_level c) ch fs zs" and rs: "concat fs = rs"
    by (metis Inr_inject option.distinct(1) option.inject prod.inject)
  have "length fs \<le> length rs" using chunk_holds_frame_count [OF h] rs by simp
  then have wf: "wf_ts_index (chunk_ts_index ch)" using chunk_ts_wf [OF h] assms(6,8) rs by simp
  note stored = os_put_chunk_Inr [OF p put] os_put_chunk_data [OF p put]
  have "get_law (sv_client V) (os_bucket (sv_store V)) objs" using L by (simp add: scan_laws_def)
  then have "load_indexes (sv_codec V) (sv_client V) (sv_store V) loc s' = Inr (stamp ch (r_etag r), chunk_ts_index ch)"
    using stored assms(4) by (intro load_indexes_stored [where objs = objs, OF _ _ _ assms(12) wf]) simp_all
  then show ?thesis
    unfolding chunk_at_def using h rs assms(5-7) stored by (intro exI [of _ "zstd_level c"] exI [of _ ch] exI [of _ fs] exI [of _ zs]) auto
qed

section \<open>A concrete bucket\<close>

definition sample_keys :: "string list" where
  "sample_keys = [data_key sample_loc ''p/'', index_key ''.s4index'' sample_loc ''p/'', ts_index_key sample_loc ''p/'']"

definition scan_client :: "(string \<rightharpoonup> bytes) s3_client" where
  "scan_client = map_client\<lparr>s3_list_objects := (\<lambda>_ p _ s. Inr (map Some (filter (\<lambda>k. s k \<noteq> None \<and> starts_with p k) sample_keys), None))\<rparr>"

definition sample_scan :: "(string \<rightharpoonup> bytes, unit) scan_env" where
  "sample_scan = \<lparr>sv_codec = sample_codec, sv_client = scan_client, sv_store = os_new ''b'' ''p'', sv_chunk = sample_env,
     sv_chrono = \<lparr>from_timestamp_millis = (\<lambda>_. None), UNIX_EPOCH = (), format_ymd = (\<lambda>_. ''2024-01-01'')\<rparr>\<rparr>"

lemma sample_scan_sel [simp]:
  "sv_codec sample_scan = sample_codec" "sv_client sample_scan = scan_client" "sv_store sample_scan = os_new ''b'' ''p''"
  "sv_chunk sample_scan = sample_env" "date_from_ts_ms (sv_chrono sample_scan) t = ''2024-01-01''"
  by (simp_all add: sample_scan_def date_from_ts_ms_def)

lemma sample_scan_laws:
  "scan_laws sample_scan id" "put_law scan_client bkt id"
  using sample_zstd_faithful sample_codec_facts(1)
  by (simp_all add: scan_laws_def get_law_def put_law_def scan_client_def map_client_def)

lemma sample_scan_put:
  "os_put_chunk sample_codec scan_client (os_new ''b'' ''p'') sample_loc sample_chunk Map.empty = (sample_bucket, Inr sample_receipt)"
  using sample_put by (simp add: os_put_chunk_def put_ops put_object_inner_def scan_client_def map_client_def)

lemma sample_chunk_at: "chunk_at sample_scan id sample_bucket sample_loc [sample_record 5]"
proof -
  from sample_chunk_written obtain w where
    w: "push_all sample_env [sample_record 5] (cw_new chunk_config_default) = (w, Inr ())"
      "cw_finish sample_env w = Inr (Some sample_chunk)" by blast
  have j: "jsonl_faithful (json sample_env) [sample_record 5]"
    "length (jsonl_text (json sample_env) [sample_record 5]) \<le> FALLBACK_DECODE_CAP_BYTES"
    "\<forall>r \<in> set [sample_record 5]. is_i64 (timestamp r) \<and> json_closed (json sample_env) r"
    using sample_jsonl_faithful sample_text_length
    by (simp_all add: FALLBACK_DECODE_CAP_BYTES_def is_i64_def i64_MIN_def i64_MAX_def json_closed_def sample_env_def
        sample_json_def sample_record_def CR_def)
  have "length [sample_record 5] \<le> MAX_FRAMES" by (simp add: MAX_FRAMES_def)
  from stored_chunk_at [of sample_scan id, unfolded sample_scan_sel, OF sample_scan_laws(1) sample_zstd_total sample_scan_laws(2)
      sample_codec_facts(2) j(1,3,2) this w sample_scan_put sample_codec_facts(3)]
  show ?thesis .
qed

lemma sample_keys_dom: "dom sample_bucket = set sample_keys"
  by (auto simp: sample_bucket_def sample_keys_def)

lemma sample_keys_distinct: "distinct sample_keys"
  by (simp add: sample_keys_def data_key_def index_key_def ts_index_key_def norm_prefix_def trim_matches_def DATA_SEG_def INDEX_SEG_def
      TS_SIDECAR_SUFFIX_def)

lemma sample_list_law: "list_law scan_client bkt id sample_bucket"
  unfolding list_law_def
proof
  fix p
  let ?k = "filter (\<lambda>k. sample_bucket k \<noteq> None \<and> starts_with p k) sample_keys"
  have "s3_list_objects scan_client bkt p None sample_bucket = Inr (map Some ?k, None)" by (simp add: scan_client_def)
  moreover have "List.map_filter id (map Some xs) = xs" for xs :: "string list" by (induction xs) (simp_all add: map_filter_simps)
  moreover have "set ?k = {k \<in> dom (id sample_bucket). starts_with p k}" using sample_keys_dom by auto
  ultimately show "\<exists>pages. list_pages (\<lambda>t. s3_list_objects scan_client bkt p t sample_bucket) None pages
     \<and> distinct (List.map_filter id (concat pages))
     \<and> set (List.map_filter id (concat pages)) = {k \<in> dom (id sample_bucket). starts_with p k}"
    using sample_keys_distinct by (intro exI [of _ "[map Some ?k]"]) simp
qed

lemma sample_archived: "archived sample_scan id sample_bucket ''1'' ''g'' [sample_loc] (\<lambda>_. [sample_record 5])"
proof -
  have "{k \<in> dom sample_bucket. starts_with (data_group_prefix ''p/'' ''1'' ''g'') k} = {data_key sample_loc ''p/''}"
    unfolding sample_keys_dom
    by (auto simp: sample_keys_def data_key_def index_key_def ts_index_key_def data_group_prefix_def norm_prefix_def trim_matches_def
        DATA_SEG_def INDEX_SEG_def starts_with_def loc_tail_def group_tail_def sample_loc_def)
  then show ?thesis
    using sample_chunk_at by (simp add: archived_def os_new_def norm_prefix_def trim_matches_def wf_location_def sample_loc_def byte_in_def)
qed

lemma sample_calendar: "calendar_ok (sv_chrono sample_scan) \<lparr>from_ms = 5, to_ms_exclusive = 6\<rparr>"
  by (simp add: calendar_ok_def dates_in_range_def DAY_MS_def)

section \<open>Properties\<close>

text \<open>
  C35: the streaming merge is a stable sort. Pulled to its end, the merge of any chunk sources hands
  out exactly the records of all their batches, each with the index of its source, in the order of the
  stable sort by timestamp and stream: ties keep the order of the sources and, within a source, the
  order of arrival. It never blocks for ever.
\<close>

theorem kway_merge_stable_sort:
  assumes "list_all2 (chunk_yields V s) sources bss"
  shows "\<exists>km. drain_merge (next_batch V s) (km_new sources) [] = Some (km, Inr (sort_key (rec_order \<circ> fst) (tagged (map concat bss))))"
  using chunk_src.drain_merge_sorts [OF chunk_src.live_new [OF assms], of "[]"] by (simp add: merged_def)

theorem kway_merge_stable_sort_witness:
  "\<exists>km. drain_merge (next_batch sample_scan sample_bucket)
      (km_new [\<lparr>cs_data_key = data_key sample_loc ''p/'', cs_range = \<lparr>from_ms = 5, to_ms_exclusive = 6\<rparr>, cs_pattern = None,
                cs_units = [WholeObject], cs_stats = scan_stats_default\<rparr>]) []
     = Some (km, Inr [(sample_record 5, 0)])"
proof -
  let ?cs = "\<lparr>cs_data_key = data_key sample_loc ''p/'', cs_range = \<lparr>from_ms = 5, to_ms_exclusive = 6\<rparr>, cs_pattern = None,
                cs_units = [WholeObject], cs_stats = scan_stats_default\<rparr>"
  obtain level ch fs zs where h: "chunk_holds sample_env level ch fs zs" "concat fs = [sample_record 5]"
    "id sample_bucket (data_key sample_loc ''p/'') = Some (chunk_body ch)" "jsonl_faithful (json sample_env) [sample_record 5]"
    "\<forall>r \<in> set [sample_record 5]. json_closed (json sample_env) r"
    "length (jsonl_text (json sample_env) [sample_record 5]) \<le> FALLBACK_DECODE_CAP_BYTES"
    using sample_chunk_at unfolding chunk_at_def sample_scan_sel by (auto simp: os_new_def norm_prefix_def trim_matches_def)
  have "hits \<lparr>from_ms = 5, to_ms_exclusive = 6\<rparr> None [sample_record 5] = [sample_record 5]"
    by (simp add: record_matches_def sample_record_def)
  with whole_object_gives [of sample_scan id, unfolded sample_scan_sel, OF sample_scan_laws(1) h,
      of "\<lparr>from_ms = 5, to_ms_exclusive = 6\<rparr>" None]
  have "list_all2 (chunk_yields sample_scan sample_bucket) [?cs] [[[sample_record 5]]]" by (simp add: chunk_yields_def)
  from kway_merge_stable_sort [OF this] show ?thesis by (simp add: tagged_def)
qed

text \<open>
  C33: a scan is complete and ordered. For log groups whose part of the bucket holds archived chunks,
  each in the date partition of its records and with sidecars that load or are missing or corrupt, a
  scan ends and hands the caller exactly the archived records of those groups that lie in the time
  range and match the pattern, each as often as it is archived and with its group, in ascending order
  of timestamp and stream.
\<close>

theorem scan_complete:
  assumes "scan_laws V objs" and "list_law (sv_client V) (os_bucket (sv_store V)) objs s" and "calendar_ok (sv_chrono V) rg"
    and "\<forall>g \<in> set groups. archived V objs s acct g (Ls g) A"
  shows "\<exists>out stats. scan_log_groups V s acct groups rg pat emit acc = Some (with_stats (emit_all emit out acc) stats)
    \<and> sorted (map (\<lambda>(r, g). (timestamp r, stream r)) out)
    \<and> mset out = mset (concat (map (\<lambda>g. map (\<lambda>r. (r, g)) (filter (\<lambda>r. record_matches r rg pat) (concat (map A (Ls g))))) groups))"
proof -
  from scan_emits [OF assms, of pat emit acc] obtain out stats where
    "scan_log_groups V s acct groups rg pat emit acc = Some (with_stats (emit_all emit out acc) stats)"
    "sorted (map (rec_order \<circ> fst) out)" "mset out = mset (group_hits rg pat groups Ls A)" by blast
  moreover have "rec_order \<circ> fst = (\<lambda>(r, g :: string). (timestamp r, stream r))" by (auto simp: rec_order_def)
  ultimately show ?thesis unfolding group_hits_def by auto
qed

theorem scan_complete_witness:
  "\<exists>stats. scan_log_groups sample_scan sample_bucket ''1'' [''g''] \<lparr>from_ms = 5, to_ms_exclusive = 6\<rparr> None
      (\<lambda>r g acc. (acc @ [(r, g)], Inr ())) [] = Some ([(sample_record 5, ''g'')], Inr stats)"
proof -
  have a: "\<forall>g \<in> set [''g'']. archived sample_scan id sample_bucket ''1'' g [sample_loc] (\<lambda>_. [sample_record 5])"
    using sample_archived by simp
  have l: "list_law (sv_client sample_scan) (os_bucket (sv_store sample_scan)) id sample_bucket" by (simp add: sample_list_law)
  from scan_complete [OF sample_scan_laws(1) l sample_calendar a, of None "\<lambda>r g acc. (acc @ [(r, g)], Inr ())" "[]"]
  obtain out stats where
    "scan_log_groups sample_scan sample_bucket ''1'' [''g''] \<lparr>from_ms = 5, to_ms_exclusive = 6\<rparr> None
      (\<lambda>r g acc. (acc @ [(r, g)], Inr ())) [] = Some (with_stats (emit_all (\<lambda>r g acc. (acc @ [(r, g)], Inr ())) out []) stats)"
    "mset out = {#(sample_record 5, ''g'')#}" by (auto simp: record_matches_def sample_record_def)
  then show ?thesis by (auto simp: with_stats_def)
qed

text \<open>
  Within a cluster the frames are decoded in the order of their first timestamp, not of arrival, so a
  tie between two overlapping frames can come out in the other order than it was written.
\<close>

lemma cluster_reorders_frames:
  "cluster_spans [(f0, 10, 20), (f1, 5, 10)] = [[f1, f0]]"
  by (simp add: cluster_spans_def)

end
