(* ===== verification/S4_Restore.thy ===== *)
theory S4_Restore
  imports S4_Scan S4_Cw
begin

text \<open>
  Restoring into CloudWatch Logs (\<^verbatim>\<open>s4logs-cli/src/commands/restore.rs\<close>): the merged scan feeds a batcher
  that respects the PutLogEvents limits, and a sender that creates the target on the first batch, backs
  off on throttling and adds up what the service rejected.
\<close>

section \<open>Data\<close>

definition RESTORE_STREAM :: string where "RESTORE_STREAM = ''s4logs-restore''"
definition MAX_BATCH_EVENTS :: nat where "MAX_BATCH_EVENTS = 10000"
definition MAX_BATCH_BYTES :: nat where "MAX_BATCH_BYTES = 1048576"
definition EVENT_OVERHEAD_BYTES :: nat where "EVENT_OVERHEAD_BYTES = 26"
definition MAX_BATCH_SPAN_MS :: int where "MAX_BATCH_SPAN_MS = 24 * 3600000"
definition PUT_MAX_ATTEMPTS :: nat where "PUT_MAX_ATTEMPTS = 5"
definition PUT_BACKOFF_BASE_MS :: nat where "PUT_BACKOFF_BASE_MS = 500"
definition PUT_BACKOFF_CAP_MS :: nat where "PUT_BACKOFF_CAP_MS = 8000"
definition CW_INGEST_MAX_AGE_MS :: int where "CW_INGEST_MAX_AGE_MS = 14 * 86400000"

record batch_event =
  be_timestamp :: int
  be_message :: string

definition event_cost :: "string \<Rightarrow> nat" where
  "event_cost m = length m + EVENT_OVERHEAD_BYTES"

text \<open>The JSON object of a wrapped message; its text is serde_json's, an argument.\<close>

datatype json_value = JNum int | JStr string

definition wrap_message :: "((string \<rightharpoonup> json_value) \<Rightarrow> string) \<Rightarrow> log_record \<Rightarrow> string option \<Rightarrow> string" where
  "wrap_message render r original_log_group =
     (let obj = [''original_timestamp'' \<mapsto> JNum (timestamp r), ''original_stream'' \<mapsto> JStr (stream r)];
          obj = (case original_log_group of None \<Rightarrow> obj | Some g \<Rightarrow> obj(''original_log_group'' \<mapsto> JStr g))
      in render (obj(''message'' \<mapsto> JStr (message r))))"

section \<open>EventBatcher\<close>

record event_batcher =
  eb_batch :: "batch_event list"
  eb_bytes :: nat

definition eb_new :: event_batcher where
  "eb_new = \<lparr>eb_batch = [], eb_bytes = 0\<rparr>"

definition eb_push :: "event_batcher \<Rightarrow> batch_event \<Rightarrow> event_batcher \<times> batch_event list option" where
  "eb_push b ev =
     (let cost = event_cost (be_message ev);
          full = (eb_batch b \<noteq> [] \<and> (length (eb_batch b) \<ge> MAX_BATCH_EVENTS \<or> eb_bytes b + cost > MAX_BATCH_BYTES
                   \<or> sat_i64 (be_timestamp ev - be_timestamp (eb_batch b ! 0)) > MAX_BATCH_SPAN_MS));
          (b1, out) = (if full then (\<lparr>eb_batch = [], eb_bytes = 0\<rparr>, Some (eb_batch b)) else (b, None))
      in (\<lparr>eb_batch = eb_batch b1 @ [ev], eb_bytes = eb_bytes b1 + cost\<rparr>, out))"

definition eb_finish :: "event_batcher \<Rightarrow> batch_event list option" where
  "eb_finish b = (if eb_batch b \<noteq> [] then Some (eb_batch b) else None)"

text \<open>The batches of a list of events, in the order they are handed out.\<close>

fun eb_run :: "event_batcher \<Rightarrow> batch_event list \<Rightarrow> batch_event list list" where
  "eb_run b [] = (case eb_finish b of None \<Rightarrow> [] | Some x \<Rightarrow> [x])"
| "eb_run b (ev # evs) =
     (case eb_push b ev of (b', None) \<Rightarrow> eb_run b' evs | (b', Some x) \<Rightarrow> x # eb_run b' evs)"

text \<open>The reference over a whole slice: ranges of indexes.\<close>

fun split_loop ::
    "batch_event list \<Rightarrow> batch_event list \<Rightarrow> nat \<Rightarrow> nat \<Rightarrow> nat \<Rightarrow> (nat \<times> nat) list \<Rightarrow> nat \<times> (nat \<times> nat) list" where
  "split_loop events [] i start bytes out = (start, out)"
| "split_loop events (e # es) i start bytes out =
     (let cost = event_cost (be_message e);
          cnt = i - start;
          too_many = (cnt \<ge> MAX_BATCH_EVENTS);
          too_big = (bytes + cost > MAX_BATCH_BYTES);
          too_wide = (cnt > 0 \<and> sat_i64 (be_timestamp e - be_timestamp (events ! start)) > MAX_BATCH_SPAN_MS)
      in if cnt > 0 \<and> (too_many \<or> too_big \<or> too_wide)
         then split_loop events es (i + 1) i cost (out @ [(start, i)])
         else split_loop events es (i + 1) start (bytes + cost) out)"

definition split_batches :: "batch_event list \<Rightarrow> (nat \<times> nat) list" where
  "split_batches events =
     (case split_loop events events 0 0 0 [] of
        (start, out) \<Rightarrow> if start < length events then out @ [(start, length events)] else out)"

section \<open>Rejections\<close>

record rejections =
  too_old :: nat
  too_new :: nat
  expired :: nat

definition rejections_default :: rejections where
  "rejections_default = \<lparr>too_old = 0, too_new = 0, expired = 0\<rparr>"

definition from_indexes :: "int option \<Rightarrow> int option \<Rightarrow> int option \<Rightarrow> nat \<Rightarrow> rejections" where
  "from_indexes too_new_start too_old_end expired_end batch_len =
     (let clamp = (\<lambda>v. min (nat (max v 0)) batch_len);
          map_or = (\<lambda>v f. case v of None \<Rightarrow> 0 | Some x \<Rightarrow> f x)
      in \<lparr>too_old = map_or too_old_end clamp, too_new = map_or too_new_start (\<lambda>s. batch_len - clamp s),
          expired = map_or expired_end clamp\<rparr>)"

definition rejected_total :: "rejections \<Rightarrow> nat" where
  "rejected_total r = too_old r + too_new r + expired r"

definition rejections_add :: "rejections \<Rightarrow> rejections \<Rightarrow> rejections" where
  "rejections_add a b = \<lparr>too_old = too_old a + too_old b, too_new = too_new a + too_new b, expired = expired a + expired b\<rparr>"

section \<open>Sending\<close>

text \<open>
  The CloudWatch client as the sender uses it: CreateLogGroup, CreateLogStream and PutLogEvents over
  the state \<open>'c\<close> of the service. Building an \<^verbatim>\<open>InputLogEvent\<close> fails only when a field is not set; both are.
\<close>

datatype create_error = ResourceAlreadyExists | CreateOther string

record rejected_info =
  too_new_start_index :: "int option"
  too_old_end_index :: "int option"
  expired_end_index :: "int option"

record 'c put_client =
  create_log_group :: "string \<Rightarrow> 'c \<Rightarrow> 'c \<times> (create_error + unit)"
  create_log_stream :: "string \<Rightarrow> string \<Rightarrow> 'c \<Rightarrow> 'c \<times> (create_error + unit)"
  put_log_events :: "string \<Rightarrow> string \<Rightarrow> batch_event list \<Rightarrow> 'c \<Rightarrow> 'c \<times> (sdk_error + rejected_info option)"

datatype restore_error =
    ReScan scan_error
  | ReCreateGroup string
  | ReCreateStream string
  | RePut nat string

definition ensure_group_and_stream :: "'c put_client \<Rightarrow> string \<Rightarrow> 'c \<Rightarrow> 'c \<times> (restore_error + unit)" where
  "ensure_group_and_stream cl lg c =
     (case create_log_group cl lg c of
        (c1, Inl (CreateOther e)) \<Rightarrow> (c1, Inl (ReCreateGroup e))
      | (c1, _) \<Rightarrow>
         (case create_log_stream cl lg RESTORE_STREAM c1 of
            (c2, Inl (CreateOther e)) \<Rightarrow> (c2, Inl (ReCreateStream e))
          | (c2, _) \<Rightarrow> (c2, Inr ())))"

text \<open>The delays that were slept come along.\<close>

function put_loop ::
    "'c put_client \<Rightarrow> string \<Rightarrow> batch_event list \<Rightarrow> nat \<Rightarrow> nat list \<Rightarrow> 'c \<Rightarrow> 'c \<times> nat list \<times> (restore_error + rejections)" where
  "put_loop cl lg events attempt0 slept c =
     (let attempt = attempt0 + 1 in
      case put_log_events cl lg RESTORE_STREAM events c of
        (c1, Inr info) \<Rightarrow>
          (c1, slept, Inr (from_indexes (Option.bind info too_new_start_index) (Option.bind info too_old_end_index)
             (Option.bind info expired_end_index) (length events)))
      | (c1, Inl e) \<Rightarrow>
          let throttled = (case sdk_code e of None \<Rightarrow> False | Some code \<Rightarrow> code \<in> set THROTTLE_CODES) in
          if throttled \<and> attempt < PUT_MAX_ATTEMPTS
          then put_loop cl lg events attempt
                 (slept @ [min (PUT_BACKOFF_BASE_MS * 2 ^ (attempt - 1)) PUT_BACKOFF_CAP_MS]) c1
          else (c1, slept, Inl (RePut attempt (sdk_text e))))"
  by pat_completeness auto
termination by (relation "measure (\<lambda>(_, _, _, n, _, _). PUT_MAX_ATTEMPTS - n)") auto

declare put_loop.simps [simp del]

definition put_batch_with_backoff ::
    "'c put_client \<Rightarrow> string \<Rightarrow> batch_event list \<Rightarrow> 'c \<Rightarrow> 'c \<times> (restore_error + rejections)" where
  "put_batch_with_backoff cl lg events c =
     (case put_loop cl lg events 0 [] c of (c', _, res) \<Rightarrow> (c', res))"

record batch_sender =
  bs_ensured :: bool
  bs_sent :: nat
  bs_batches :: nat
  bs_rejected :: rejections

definition batch_sender_new :: batch_sender where
  "batch_sender_new = \<lparr>bs_ensured = False, bs_sent = 0, bs_batches = 0, bs_rejected = rejections_default\<rparr>"

definition bs_send ::
    "'c put_client \<Rightarrow> string \<Rightarrow> batch_event list \<Rightarrow> batch_sender \<Rightarrow> 'c \<Rightarrow> batch_sender \<times> 'c \<times> (restore_error + unit)" where
  "bs_send cl lg batch bs c =
     (case (if bs_ensured bs then (c, Inr ()) else ensure_group_and_stream cl lg c) of
        (c1, Inl e) \<Rightarrow> (bs, c1, Inl e)
      | (c1, Inr _) \<Rightarrow>
          let bs1 = bs\<lparr>bs_ensured := True, bs_batches := bs_batches bs + 1\<rparr> in
          case put_batch_with_backoff cl lg batch c1 of
            (c2, Inl e) \<Rightarrow> (bs1, c2, Inl e)
          | (c2, Inr r) \<Rightarrow>
              (bs1\<lparr>bs_sent := bs_sent bs1 + length batch, bs_rejected := rejections_add (bs_rejected bs1) r\<rparr>, c2, Inr ()))"

section \<open>Restoring\<close>

record restore_state =
  rs_batcher :: event_batcher
  rs_sender :: batch_sender
  rs_oversized :: nat
  rs_raw_too_old :: nat
  rs_total :: nat

definition restore_state_new :: restore_state where
  "restore_state_new = \<lparr>rs_batcher = eb_new, rs_sender = batch_sender_new, rs_oversized = 0, rs_raw_too_old = 0, rs_total = 0\<rparr>"

text \<open>What one run is given: the client, the renderer of wrapped messages, the target, the mode and the clock.\<close>

record 'c restore_job =
  rj_client :: "'c put_client"
  rj_render :: "(string \<rightharpoonup> json_value) \<Rightarrow> string"
  rj_target :: string
  rj_raw :: bool
  rj_now :: int
  rj_tag_group :: bool

definition restore_event_of :: "'c restore_job \<Rightarrow> log_record \<Rightarrow> string \<Rightarrow> batch_event" where
  "restore_event_of R r g =
     (if rj_raw R then \<lparr>be_timestamp = timestamp r, be_message = message r\<rparr>
      else \<lparr>be_timestamp = rj_now R, be_message = wrap_message (rj_render R) r (if rj_tag_group R then Some g else None)\<rparr>)"

definition restore_step ::
    "'c restore_job \<Rightarrow> log_record \<Rightarrow> string \<Rightarrow> restore_state \<times> 'c \<Rightarrow> (restore_state \<times> 'c) \<times> (restore_error + unit)" where
  "restore_step R r g st =
     (case st of (rs, c) \<Rightarrow>
      let ev = restore_event_of R r g in
      if event_cost (be_message ev) > MAX_BATCH_BYTES then ((rs\<lparr>rs_oversized := rs_oversized rs + 1\<rparr>, c), Inr ())
      else
        let rs1 = rs\<lparr>rs_raw_too_old := rs_raw_too_old rs
                       + (if rj_raw R \<and> be_timestamp ev < wrap_i64 (rj_now R - CW_INGEST_MAX_AGE_MS) then 1 else 0),
                     rs_total := rs_total rs + 1\<rparr>;
            (b, out) = eb_push (rs_batcher rs1) ev;
            rs2 = rs1\<lparr>rs_batcher := b\<rparr>
        in case out of
             None \<Rightarrow> ((rs2, c), Inr ())
           | Some batch \<Rightarrow>
              (case bs_send (rj_client R) (rj_target R) batch (rs_sender rs2) c of
                 (bs, c', res) \<Rightarrow> ((rs2\<lparr>rs_sender := bs\<rparr>, c'), res)))"

partial_function (option) restore_loop ::
    "('s, 'dt) scan_env \<Rightarrow> 's \<Rightarrow> 'c restore_job \<Rightarrow> scan_stream \<Rightarrow> restore_state \<times> 'c
     \<Rightarrow> ((restore_state \<times> 'c) \<times> (restore_error + scan_stream)) option" where
  "restore_loop V s R ss st =
     (case next_with_group V s ss of
        None \<Rightarrow> None
      | Some (ss', Inl e) \<Rightarrow> Some (st, Inl (ReScan e))
      | Some (ss', Inr found) \<Rightarrow>
         (case found of
            None \<Rightarrow> Some (st, Inr ss')
          | Some (r, g) \<Rightarrow>
             (case restore_step R r g st of
                (st', Inl e) \<Rightarrow> Some (st', Inl e)
              | (st', Inr _) \<Rightarrow> restore_loop V s R ss' st')))"

definition restore_finish ::
    "'c restore_job \<Rightarrow> restore_state \<times> 'c \<Rightarrow> (restore_state \<times> 'c) \<times> (restore_error + unit)" where
  "restore_finish R st =
     (case st of (rs, c) \<Rightarrow>
        case eb_finish (rs_batcher rs) of
          None \<Rightarrow> ((rs, c), Inr ())
        | Some batch \<Rightarrow>
           (case bs_send (rj_client R) (rj_target R) batch (rs_sender rs) c of
              (bs, c', res) \<Rightarrow> ((rs\<lparr>rs_sender := bs\<rparr>, c'), res)))"

definition restore_to_log_group ::
    "('s, 'dt) scan_env \<Rightarrow> 's \<Rightarrow> 'c put_client \<Rightarrow> ((string \<rightharpoonup> json_value) \<Rightarrow> string) \<Rightarrow> string \<Rightarrow> string list \<Rightarrow> string
     \<Rightarrow> time_range \<Rightarrow> bool \<Rightarrow> int \<Rightarrow> 'c \<Rightarrow> ((restore_state \<times> 'c) \<times> (restore_error + scan_stats)) option" where
  "restore_to_log_group V s cl render acct source_groups target rg raw now c =
     (let R = \<lparr>rj_client = cl, rj_render = render, rj_target = target, rj_raw = raw, rj_now = now,
               rj_tag_group = (length source_groups > 1)\<rparr>;
          st = (restore_state_new, c) in
      case open_scan_multi V s acct source_groups rg None of
        None \<Rightarrow> None
      | Some (Inl e) \<Rightarrow> Some (st, Inl (ReScan e))
      | Some (Inr ss) \<Rightarrow>
         (case restore_loop V s R ss st of
            None \<Rightarrow> None
          | Some (st1, Inl e) \<Rightarrow> Some (st1, Inl e)
          | Some (st1, Inr ss') \<Rightarrow>
             (case restore_finish R st1 of
                (st2, Inl e) \<Rightarrow> Some (st2, Inl e)
              | (st2, Inr _) \<Rightarrow> Some (st2, Inr (stream_stats ss')))))"

text \<open>\<^verbatim>\<open>write_jsonl\<close>: the on-disk line of every record; the writer accepts it or fails.\<close>

definition write_jsonl ::
    "('s, 'dt) scan_env \<Rightarrow> 's \<Rightarrow> (bytes \<Rightarrow> 'w \<Rightarrow> 'w \<times> (string + unit)) \<Rightarrow> string \<Rightarrow> string list \<Rightarrow> time_range \<Rightarrow> 'w
     \<Rightarrow> ('w \<times> (scan_error + scan_stats)) option" where
  "write_jsonl V s write_all acct groups rg w =
     scan_log_groups V s acct groups rg None
       (\<lambda>r _ w. case to_json (json (sv_chunk V)) r of
           Inl e \<Rightarrow> (w, Inl (ScEmit e))
         | Inr b \<Rightarrow>
            (case write_all b w of
               (w1, Inl e) \<Rightarrow> (w1, Inl (ScEmit e))
             | (w1, Inr _) \<Rightarrow>
                (case write_all [NL] w1 of (w2, Inl e) \<Rightarrow> (w2, Inl (ScEmit e)) | (w2, Inr _) \<Rightarrow> (w2, Inr ())))) w"

section \<open>The batcher and its reference\<close>

definition slice_of :: "'a list \<Rightarrow> nat \<times> nat \<Rightarrow> 'a list" where
  "slice_of xs r = take (snd r - fst r) (drop (fst r) xs)"

lemma slice_of_mid: "slice_of (xs @ ys @ zs) (length xs, length xs + length ys) = ys"
  by (simp add: slice_of_def)

definition costs :: "batch_event list \<Rightarrow> nat" where
  "costs es = sum_list (map (\<lambda>e. event_cost (be_message e)) es)"

definition split_end :: "batch_event list \<Rightarrow> nat \<times> (nat \<times> nat) list \<Rightarrow> (nat \<times> nat) list" where
  "split_end events r = (if fst r < length events then snd r @ [(fst r, length events)] else snd r)"

lemma split_loop_batcher:
  assumes "events = pre @ cur @ es"
  shows "map (slice_of events) (split_end events (split_loop events es (length pre + length cur) (length pre) bytes out))
    = map (slice_of events) out @ eb_run \<lparr>eb_batch = cur, eb_bytes = bytes\<rparr> es"
  using assms
proof (induction es arbitrary: pre cur bytes out)
  case Nil
  then show ?case using slice_of_mid [of pre cur "[]"] by (auto simp: split_end_def eb_finish_def)
next
  case (Cons e es)
  let ?cost = "event_cost (be_message e)"
  let ?full = "cur \<noteq> [] \<and> (length cur \<ge> MAX_BATCH_EVENTS \<or> bytes + ?cost > MAX_BATCH_BYTES
      \<or> sat_i64 (be_timestamp e - be_timestamp (cur ! 0)) > MAX_BATCH_SPAN_MS)"
  have ix: "cur \<noteq> [] \<Longrightarrow> events ! length pre = cur ! 0" using Cons.prems by (simp add: nth_append)
  show ?case
  proof (cases ?full)
    case True
    then have "split_loop events (e # es) (length pre + length cur) (length pre) bytes out
        = split_loop events es (length (pre @ cur) + length [e]) (length (pre @ cur)) ?cost (out @ [(length pre, length pre + length cur)])"
      using ix by (auto simp: Let_def)
    moreover have "slice_of events (length pre, length pre + length cur) = cur" using Cons.prems slice_of_mid by metis
    moreover have "eb_run \<lparr>eb_batch = cur, eb_bytes = bytes\<rparr> (e # es) = cur # eb_run \<lparr>eb_batch = [e], eb_bytes = ?cost\<rparr> es"
      using True by (auto simp: eb_push_def Let_def)
    ultimately show ?thesis using Cons.IH [of "pre @ cur" "[e]" ?cost] Cons.prems by simp
  next
    case False
    then have "split_loop events (e # es) (length pre + length cur) (length pre) bytes out
        = split_loop events es (length pre + length (cur @ [e])) (length pre) (bytes + ?cost) out"
      using ix by (auto simp: Let_def)
    moreover have "eb_run \<lparr>eb_batch = cur, eb_bytes = bytes\<rparr> (e # es) = eb_run \<lparr>eb_batch = cur @ [e], eb_bytes = bytes + ?cost\<rparr> es"
      using False by (auto simp: eb_push_def Let_def)
    ultimately show ?thesis using Cons.IH [of pre "cur @ [e]" "bytes + ?cost"] Cons.prems by simp
  qed
qed

section \<open>Batch limits\<close>

definition within_limits :: "batch_event list \<Rightarrow> bool" where
  "within_limits b \<longleftrightarrow> b \<noteq> [] \<and> length b \<le> MAX_BATCH_EVENTS \<and> costs b \<le> MAX_BATCH_BYTES
     \<and> (\<forall>e \<in> set b. be_timestamp e - be_timestamp (hd b) \<le> MAX_BATCH_SPAN_MS)"

lemma sat_span: "sat_i64 x > MAX_BATCH_SPAN_MS \<longleftrightarrow> x > MAX_BATCH_SPAN_MS"
  by (auto simp: sat_i64_def MAX_BATCH_SPAN_MS_def i64_MIN_def i64_MAX_def)

definition eb_ok :: "event_batcher \<Rightarrow> bool" where
  "eb_ok b \<longleftrightarrow> eb_bytes b = costs (eb_batch b) \<and> (eb_batch b = [] \<or> within_limits (eb_batch b))"

lemma single_within_limits: "event_cost (be_message e) \<le> MAX_BATCH_BYTES \<Longrightarrow> within_limits [e]"
  by (simp add: within_limits_def costs_def MAX_BATCH_EVENTS_def MAX_BATCH_SPAN_MS_def)

lemma eb_push_ok:
  assumes "eb_ok b" and "event_cost (be_message e) \<le> MAX_BATCH_BYTES" and "eb_push b e = (b', out)"
  shows "eb_ok b'" and "case out of None \<Rightarrow> eb_batch b' = eb_batch b @ [e] | Some x \<Rightarrow> x = eb_batch b \<and> within_limits x \<and> eb_batch b' = [e]"
proof -
  let ?cost = "event_cost (be_message e)"
  let ?full = "eb_batch b \<noteq> [] \<and> (length (eb_batch b) \<ge> MAX_BATCH_EVENTS \<or> eb_bytes b + ?cost > MAX_BATCH_BYTES
      \<or> sat_i64 (be_timestamp e - be_timestamp (eb_batch b ! 0)) > MAX_BATCH_SPAN_MS)"
  have r: "b' = (if ?full then \<lparr>eb_batch = [e], eb_bytes = ?cost\<rparr> else \<lparr>eb_batch = eb_batch b @ [e], eb_bytes = eb_bytes b + ?cost\<rparr>)"
    "out = (if ?full then Some (eb_batch b) else None)"
    using assms(3) by (auto simp: eb_push_def Let_def split: if_splits)
  show "case out of None \<Rightarrow> eb_batch b' = eb_batch b @ [e] | Some x \<Rightarrow> x = eb_batch b \<and> within_limits x \<and> eb_batch b' = [e]"
    using r assms(1) by (auto simp: eb_ok_def)
  show "eb_ok b'"
  proof (cases ?full)
    case True
    then show ?thesis using r(1) single_within_limits [OF assms(2)] by (simp add: eb_ok_def costs_def)
  next
    case False
    have "within_limits (eb_batch b @ [e])"
    proof (cases "eb_batch b")
      case Nil
      then show ?thesis using single_within_limits [OF assms(2)] by simp
    next
      case (Cons x xs)
      with False assms(1) show ?thesis by (auto simp: eb_ok_def within_limits_def costs_def sat_span not_le not_less)
    qed
    moreover have "eb_bytes b + ?cost = costs (eb_batch b @ [e])" using assms(1) by (simp add: eb_ok_def costs_def)
    ultimately show ?thesis using r(1) False by (auto simp: eb_ok_def)
  qed
qed

lemma eb_run_ok:
  assumes "eb_ok b" and "\<forall>e \<in> set es. event_cost (be_message e) \<le> MAX_BATCH_BYTES"
  shows "concat (eb_run b es) = eb_batch b @ es \<and> (\<forall>x \<in> set (eb_run b es). within_limits x)"
  using assms
proof (induction es arbitrary: b)
  case Nil
  then show ?case by (auto simp: eb_finish_def eb_ok_def)
next
  case (Cons e es)
  obtain b' out where p: "eb_push b e = (b', out)" by (cases "eb_push b e")
  note ok = eb_push_ok [OF Cons.prems(1) _ p]
  show ?case using Cons.IH [of b'] ok Cons.prems(2) p by (cases out) auto
qed

lemma eb_ok_new: "eb_ok eb_new"
  by (simp add: eb_ok_def eb_new_def costs_def)

section \<open>What reaches CloudWatch\<close>

text \<open>
  \<open>log c\<close> lists the batches the service took, with group and stream. A PutLogEvents that succeeds adds
  its batch, a throttled one adds nothing; creating a group or stream adds nothing.
\<close>

definition put_log_law :: "'c put_client \<Rightarrow> ('c \<Rightarrow> (string \<times> string \<times> batch_event list) list) \<Rightarrow> bool" where
  "put_log_law cl log \<longleftrightarrow>
     (\<forall>g c. log (fst (create_log_group cl g c)) = log c) \<and> (\<forall>g t c. log (fst (create_log_stream cl g t c)) = log c)
     \<and> (\<forall>g t b c. case put_log_events cl g t b c of
          (c', Inr _) \<Rightarrow> log c' = log c @ [(g, t, b)]
        | (c', Inl e) \<Rightarrow> (case sdk_code e of None \<Rightarrow> True | Some code \<Rightarrow> code \<in> set THROTTLE_CODES \<longrightarrow> log c' = log c))"

definition put_accepts :: "'c put_client \<Rightarrow> bool" where
  "put_accepts cl \<longleftrightarrow> (\<forall>g c. is_ok (snd (create_log_group cl g c))) \<and> (\<forall>g t c. is_ok (snd (create_log_stream cl g t c)))
     \<and> (\<forall>g t b c. is_ok (snd (put_log_events cl g t b c)))"

lemma put_loop_ok:
  assumes L: "put_log_law cl log" and "put_loop cl g b n slept c = (c', slept', Inr r)"
  shows "log c' = log c @ [(g, RESTORE_STREAM, b)]"
  using assms
proof (induction cl g b n slept c rule: put_loop.induct)
  case (1 cl g b n slept c)
  obtain c1 res where p: "put_log_events cl g RESTORE_STREAM b c = (c1, res)" by (cases "put_log_events cl g RESTORE_STREAM b c")
  have l: "case (c1, res) of (c', Inr _) \<Rightarrow> log c' = log c @ [(g, RESTORE_STREAM, b)]
      | (c', Inl e) \<Rightarrow> (case sdk_code e of None \<Rightarrow> True | Some code \<Rightarrow> code \<in> set THROTTLE_CODES \<longrightarrow> log c' = log c)"
    using "1.prems"(1) [unfolded put_log_law_def, THEN conjunct2, THEN conjunct2, THEN spec [of _ g],
        THEN spec [of _ RESTORE_STREAM], THEN spec [of _ b], THEN spec [of _ c]] unfolding p .
  show ?case
  proof (cases res)
    case (Inr info)
    with p l "1.prems"(2) show ?thesis by (subst (asm) put_loop.simps) (simp add: Let_def)
  next
    case (Inl e)
    let ?thr = "case sdk_code e of None \<Rightarrow> False | Some code \<Rightarrow> code \<in> set THROTTLE_CODES"
    have t: "?thr \<and> n + 1 < PUT_MAX_ATTEMPTS"
      using "1.prems"(2) p Inl by (subst (asm) put_loop.simps) (auto simp: Let_def split: if_splits)
    then have "log c1 = log c" using l Inl by (auto split: option.splits)
    moreover have "put_loop cl g b (n + 1) (slept @ [min (PUT_BACKOFF_BASE_MS * 2 ^ (n + 1 - 1)) PUT_BACKOFF_CAP_MS]) c1 = (c', slept', Inr r)"
      using "1.prems"(2) p Inl t by (subst (asm) put_loop.simps) (simp add: Let_def)
    ultimately show ?thesis using "1.IH" [OF refl p [symmetric] Inl refl t "1.prems"(1)] by simp
  qed
qed

lemma is_ok_pair: "is_ok (snd x) \<Longrightarrow> \<exists>a b. x = (a, Inr b)"
  by (cases x; cases "snd x") auto

lemma put_loop_accepts:
  assumes "put_accepts cl"
  shows "is_ok (snd (snd (put_loop cl g b n slept c)))"
proof -
  have "is_ok (snd (put_log_events cl g RESTORE_STREAM b c))" using assms by (simp add: put_accepts_def)
  then obtain c1 info where "put_log_events cl g RESTORE_STREAM b c = (c1, Inr info)" using is_ok_pair by blast
  then show ?thesis by (subst put_loop.simps) (simp add: Let_def)
qed

lemma bs_send_ok:
  assumes L: "put_log_law cl log" and s: "bs_send cl g b bs c = (bs', c', Inr u)"
  shows "log c' = log c @ [(g, RESTORE_STREAM, b)]" "bs_sent bs' = bs_sent bs + length b" "bs_batches bs' = bs_batches bs + 1"
proof -
  have e: "log (fst (ensure_group_and_stream cl g c)) = log c"
  proof -
    have cg: "log (fst (create_log_group cl g c)) = log c" and cs: "\<And>c. log (fst (create_log_stream cl g RESTORE_STREAM c)) = log c"
      using L by (simp_all add: put_log_law_def)
    show ?thesis
      using cg cs [of "fst (create_log_group cl g c)"]
      by (auto simp: ensure_group_and_stream_def split: prod.splits sum.splits create_error.splits)
  qed
  obtain c1 where c1: "(if bs_ensured bs then (c, Inr ()) else ensure_group_and_stream cl g c) = (c1, Inr ())"
    using s by (auto simp: bs_send_def split: prod.splits sum.splits if_splits)
  then have l1: "log c1 = log c" using e by (auto split: if_splits)
  obtain c2 r where p: "put_batch_with_backoff cl g b c1 = (c2, Inr r)"
    using s c1 by (auto simp: bs_send_def Let_def split: prod.splits sum.splits)
  have "log c2 = log c1 @ [(g, RESTORE_STREAM, b)]"
    using p put_loop_ok [OF L] unfolding put_batch_with_backoff_def by (auto split: prod.splits)
  then show "log c' = log c @ [(g, RESTORE_STREAM, b)]" "bs_sent bs' = bs_sent bs + length b" "bs_batches bs' = bs_batches bs + 1"
    using s c1 p l1 by (auto simp: bs_send_def Let_def)
qed

lemma bs_send_accepts:
  assumes "put_accepts cl"
  shows "is_ok (snd (snd (bs_send cl g b bs c)))"
proof -
  have ok: "is_ok (snd (create_log_group cl g c))" "is_ok (snd (create_log_stream cl g t c'))" for t c' using assms by (auto simp: put_accepts_def)
  have "is_ok (snd (ensure_group_and_stream cl g c))"
    using ok(1) ok(2) [of RESTORE_STREAM "fst (create_log_group cl g c)"]
    by (auto simp: ensure_group_and_stream_def split: prod.splits sum.splits create_error.splits)
  moreover have "is_ok (snd (put_batch_with_backoff cl g b c1))" for c1
    using put_loop_accepts [OF assms, of g b 0 "[]" c1] by (auto simp: put_batch_with_backoff_def split: prod.splits)
  moreover from calculation obtain c1 where "(if bs_ensured bs then (c, Inr ()) else ensure_group_and_stream cl g c) = (c1, Inr ())"
    using is_ok_pair [of "ensure_group_and_stream cl g c"] by (cases "bs_ensured bs") auto
  moreover obtain c2 r where "put_batch_with_backoff cl g b c1 = (c2, Inr r)" using is_ok_pair calculation(2) by blast
  ultimately show ?thesis by (simp add: bs_send_def Let_def)
qed

section \<open>A restore run\<close>

fun restore_all ::
    "'c restore_job \<Rightarrow> (log_record \<times> string) list \<Rightarrow> restore_state \<times> 'c \<Rightarrow> (restore_state \<times> 'c) \<times> (restore_error + unit)" where
  "restore_all R [] st = (st, Inr ())"
| "restore_all R ((r, g) # xs) st =
     (case restore_step R r g st of (st', Inl e) \<Rightarrow> (st', Inl e) | (st', Inr _) \<Rightarrow> restore_all R xs st')"

text \<open>The events a list of records turns into, without those above the batch limit.\<close>

definition restore_events :: "'c restore_job \<Rightarrow> (log_record \<times> string) list \<Rightarrow> batch_event list" where
  "restore_events R xs = filter (\<lambda>e. event_cost (be_message e) \<le> MAX_BATCH_BYTES) (map (\<lambda>(r, g). restore_event_of R r g) xs)"

lemma restore_events_simps [simp]:
  "restore_events R [] = []"
  "restore_events R ((r, g) # xs) =
     (if event_cost (be_message (restore_event_of R r g)) \<le> MAX_BATCH_BYTES
      then restore_event_of R r g # restore_events R xs else restore_events R xs)"
  by (simp_all add: restore_events_def)

definition addressed :: "'c restore_job \<Rightarrow> batch_event list list \<Rightarrow> (string \<times> string \<times> batch_event list) list" where
  "addressed R bs = map (\<lambda>b. (rj_target R, RESTORE_STREAM, b)) bs"

lemma addressed_simps [simp]: "addressed R [] = []" "addressed R (b # bs) = (rj_target R, RESTORE_STREAM, b) # addressed R bs"
  by (simp_all add: addressed_def)

lemma restore_step_ok:
  assumes L: "put_log_law (rj_client R) log" and s: "restore_step R r g (rs, c) = ((rs', c'), Inr u)"
    and "eb_ok (rs_batcher rs)"
  shows "eb_ok (rs_batcher rs')
    \<and> log c' @ addressed R (eb_run (rs_batcher rs') es) = log c @ addressed R (eb_run (rs_batcher rs)
        ((if event_cost (be_message (restore_event_of R r g)) \<le> MAX_BATCH_BYTES then [restore_event_of R r g] else []) @ es))
    \<and> bs_sent (rs_sender rs') + length (eb_batch (rs_batcher rs')) = bs_sent (rs_sender rs) + length (eb_batch (rs_batcher rs))
        + (if event_cost (be_message (restore_event_of R r g)) \<le> MAX_BATCH_BYTES then 1 else 0)"
proof (cases "event_cost (be_message (restore_event_of R r g)) \<le> MAX_BATCH_BYTES")
  case False
  with s assms(3) show ?thesis by (auto simp: restore_step_def Let_def)
next
  case True
  let ?e = "restore_event_of R r g"
  obtain b out where p: "eb_push (rs_batcher rs) ?e = (b, out)" by (cases "eb_push (rs_batcher rs) ?e")
  note ok = eb_push_ok [OF assms(3) True p]
  show ?thesis
  proof (cases out)
    case None
    with s p True ok show ?thesis by (auto simp: restore_step_def Let_def)
  next
    case (Some x)
    from s p True Some obtain bs where b: "bs_send (rj_client R) (rj_target R) x (rs_sender rs) c = (bs, c', Inr ())"
      "rs_batcher rs' = b" "rs_sender rs' = bs"
      by (auto simp: restore_step_def Let_def split: prod.splits)
    from bs_send_ok [OF L b(1)] b(2,3) p True Some ok show ?thesis by simp
  qed
qed

lemma restore_all_ok:
  assumes L: "put_log_law (rj_client R) log"
  shows "restore_all R xs (rs, c) = ((rs', c'), Inr u) \<Longrightarrow> eb_ok (rs_batcher rs) \<Longrightarrow>
    eb_ok (rs_batcher rs') \<and> log c' @ addressed R (eb_run (rs_batcher rs') es) = log c @ addressed R (eb_run (rs_batcher rs) (restore_events R xs @ es))
    \<and> bs_sent (rs_sender rs') + length (eb_batch (rs_batcher rs'))
      = bs_sent (rs_sender rs) + length (eb_batch (rs_batcher rs)) + length (restore_events R xs)"
proof (induction xs arbitrary: rs c)
  case (Cons x xs)
  obtain r g where x: "x = (r, g)" by (cases x)
  with Cons.prems(1) obtain rs1 c1 where s: "restore_step R r g (rs, c) = ((rs1, c1), Inr ())" "restore_all R xs (rs1, c1) = ((rs', c'), Inr u)"
    by (auto split: prod.splits sum.splits)
  note st = restore_step_ok [OF L s(1) Cons.prems(2), of "restore_events R xs @ es"]
  from Cons.IH [OF s(2)] st x show ?case by (auto split: if_splits)
qed simp

lemma restore_finish_ok:
  assumes L: "put_log_law (rj_client R) log" and "restore_finish R (rs, c) = ((rs', c'), Inr u)"
  shows "log c' = log c @ addressed R (eb_run (rs_batcher rs) [])
    \<and> bs_sent (rs_sender rs') = bs_sent (rs_sender rs) + length (eb_batch (rs_batcher rs))"
proof (cases "eb_finish (rs_batcher rs)")
  case None
  with assms(2) show ?thesis by (auto simp: restore_finish_def eb_finish_def split: if_splits)
next
  case (Some b)
  with assms(2) obtain bs where b: "bs_send (rj_client R) (rj_target R) b (rs_sender rs) c = (bs, c', Inr ())" "rs_sender rs' = bs"
    by (auto simp: restore_finish_def split: prod.splits)
  from bs_send_ok [OF L b(1)] b(2) Some show ?thesis by (auto simp: eb_finish_def split: if_splits)
qed

lemma restore_accepts:
  assumes "put_accepts (rj_client R)"
  shows "is_ok (snd (restore_step R r g st))" "is_ok (snd (restore_all R xs st))" "is_ok (snd (restore_finish R st))"
proof -
  have send: "is_ok res" if "bs_send (rj_client R) (rj_target R) b bs c = (bs', c', res)" for b bs c bs' c' res
    using bs_send_accepts [OF assms, of "rj_target R" b bs c] that by simp
  show step: "is_ok (snd (restore_step R r g st))" for r g st
    by (cases st) (auto simp: restore_step_def Let_def split: prod.splits option.splits dest: send)
  show "is_ok (snd (restore_all R xs st))"
  proof (induction xs arbitrary: st)
    case (Cons x xs)
    obtain r g where "x = (r, g)" by (cases x)
    with is_ok_pair [OF step [of r g st]] Cons.IH show ?case by auto
  qed simp
  show "is_ok (snd (restore_finish R st))"
    by (cases st) (auto simp: restore_finish_def split: prod.splits option.splits dest: send)
qed

lemma restore_loop_runs:
  assumes "record_batch_source.live (chunk_yields V s) (ss_merge ss) S"
  shows "\<exists>ss'. restore_loop V s R ss st = Some (map_prod id (map_sum id (\<lambda>_. ss'))
    (restore_all R (map (\<lambda>(r, i). (r, ss_group_names ss ! (ss_source_groups ss ! i))) (merged S)) st))"
  using assms
proof (induction "merged S" arbitrary: S ss st)
  case Nil
  from chunk_src.next_indexed_step [OF Nil.prems] Nil.hyps show ?case
    by (subst restore_loop.simps) (auto simp: next_with_group_def)
next
  case (Cons x xs)
  obtain r i where x: "x = (r, i)" by (cases x)
  from chunk_src.next_indexed_step [OF Cons.prems] Cons.hyps(2) x obtain km' S' where
    n: "next_indexed (next_batch V s) (ss_merge ss) = Some (km', Inr (Some (r, i)))"
      "record_batch_source.live (chunk_yields V s) km' S'" "xs = merged S'" by auto
  let ?g = "ss_group_names ss ! (ss_source_groups ss ! i)"
  have m: "merged S = (r, i) # merged S'" using Cons.hyps(2) x n(3) by simp
  show ?case
  proof (cases "restore_step R r ?g st")
    case (Pair st' res)
    show ?thesis
    proof (cases res)
      case (Inl e)
      with Pair n(1) m show ?thesis by (subst restore_loop.simps) (simp add: next_with_group_def)
    next
      case (Inr u)
      from Cons.hyps(1) [OF n(3), of "ss\<lparr>ss_merge := km'\<rparr>" st'] n(2) Pair Inr n(1) m show ?thesis
        by (subst restore_loop.simps) (simp add: next_with_group_def)
    qed
  qed
qed

lemma restore_runs:
  assumes L: "scan_laws V objs" and ll: "list_law (sv_client V) (os_bucket (sv_store V)) objs s" and c: "calendar_ok (sv_chrono V) rg"
    and a: "\<forall>g \<in> set groups. archived V objs s acct g (Ls g) A"
    and R: "R = \<lparr>rj_client = cl, rj_render = render, rj_target = target, rj_raw = raw, rj_now = now, rj_tag_group = (length groups > 1)\<rparr>"
  shows "\<exists>out stats. restore_to_log_group V s cl render acct groups target rg raw now c0
      = Some (case restore_all R out (restore_state_new, c0) of
          (st1, Inl e) \<Rightarrow> (st1, Inl e)
        | (st1, Inr _) \<Rightarrow> map_prod id (map_sum id (\<lambda>_. stats)) (restore_finish R st1))
    \<and> sorted (map (rec_order \<circ> fst) out) \<and> mset out = mset (group_hits rg None groups Ls A)"
proof -
  from open_scan_live [OF L ll c a, of None] obtain ss S where
    o: "open_scan_multi V s acct groups rg None = Some (Inr ss)" "record_batch_source.live (chunk_yields V s) (ss_merge ss) S"
    "mset (map (\<lambda>(r, i). (r, ss_group_names ss ! (ss_source_groups ss ! i))) (merged S)) = mset (group_hits rg None groups Ls A)"
    by blast
  let ?out = "map (\<lambda>(r, i). (r, ss_group_names ss ! (ss_source_groups ss ! i))) (merged S)"
  from restore_loop_runs [OF o(2), of R "(restore_state_new, c0)"] obtain ss' where
    r: "restore_loop V s R ss (restore_state_new, c0) = Some (map_prod id (map_sum id (\<lambda>_. ss')) (restore_all R ?out (restore_state_new, c0)))"
    by blast
  have "restore_to_log_group V s cl render acct groups target rg raw now c0
      = Some (case restore_all R ?out (restore_state_new, c0) of
          (st1, Inl e) \<Rightarrow> (st1, Inl e)
        | (st1, Inr _) \<Rightarrow> map_prod id (map_sum id (\<lambda>_. stream_stats ss')) (restore_finish R st1))"
    using o(1) r unfolding restore_to_log_group_def R [symmetric]
    by (simp add: Let_def split: prod.splits sum.splits)
  moreover have "map (rec_order \<circ> fst) ?out = map (rec_order \<circ> fst) (merged S)" by auto
  then have "sorted (map (rec_order \<circ> fst) ?out)" using merged_sorted by metis
  ultimately show ?thesis using o(3) by blast
qed

lemma restore_events_sorted:
  assumes "sorted (map (rec_order \<circ> fst) out)"
  shows "sorted (map be_timestamp (restore_events R out))"
proof -
  have "sorted (map (\<lambda>(r, g). be_timestamp (restore_event_of R r g)) out)"
    using assms unfolding sorted_map
    by (rule sorted_wrt_mono_rel [rotated]) (auto simp: restore_event_of_def rec_order_def split: if_splits)
  then have "sorted (map be_timestamp (map (\<lambda>(r, g). restore_event_of R r g) out))" by (simp add: comp_def case_prod_beta')
  then show ?thesis unfolding restore_events_def by (rule sorted_filter)
qed

lemma restore_run_ok:
  assumes L: "put_log_law (rj_client R) log"
    and a: "restore_all R out (restore_state_new, c) = (st1, Inr u)" and f: "restore_finish R st1 = (st2, Inr v)"
  shows "log (snd st2) = log c @ addressed R (eb_run eb_new (restore_events R out))
    \<and> bs_sent (rs_sender (fst st2)) = length (restore_events R out)"
proof -
  obtain rs1 c1 rs2 c2 where st: "st1 = (rs1, c1)" "st2 = (rs2, c2)" by (cases st1; cases st2)
  have "eb_ok (rs_batcher restore_state_new)" using eb_ok_new by (simp add: restore_state_new_def)
  from restore_all_ok [OF L a [unfolded st] this, of "[]"] restore_finish_ok [OF L f [unfolded st]] st show ?thesis
    by (simp add: restore_state_new_def batch_sender_new_def eb_new_def)
qed

section \<open>A concrete service\<close>

definition sample_put_client :: "(string \<times> string \<times> batch_event list) list put_client" where
  "sample_put_client = \<lparr>create_log_group = (\<lambda>_ c. (c, Inr ())), create_log_stream = (\<lambda>_ _ c. (c, Inr ())),
     put_log_events = (\<lambda>g t b c. (c @ [(g, t, b)], Inr None))\<rparr>"

lemma sample_put_client_law: "put_log_law sample_put_client id" "put_accepts sample_put_client"
  by (simp_all add: put_log_law_def put_accepts_def sample_put_client_def)

lemma restore_outcome:
  assumes "scan_laws V objs" and "list_law (sv_client V) (os_bucket (sv_store V)) objs s" and "calendar_ok (sv_chrono V) rg"
    and "\<forall>g \<in> set groups. archived V objs s acct g (Ls g) A" and "put_log_law cl log"
    and "R = \<lparr>rj_client = cl, rj_render = render, rj_target = target, rj_raw = raw, rj_now = now, rj_tag_group = (length groups > 1)\<rparr>"
  shows "\<exists>out rs c res. restore_to_log_group V s cl render acct groups target rg raw now c0 = Some ((rs, c), res)
    \<and> sorted (map (\<lambda>(r, g). (timestamp r, stream r)) out)
    \<and> mset out = mset (concat (map (\<lambda>g. map (\<lambda>r. (r, g)) (filter (\<lambda>r. record_matches r rg None) (concat (map A (Ls g))))) groups))
    \<and> (put_accepts cl \<longrightarrow> is_ok res)
    \<and> (is_ok res \<longrightarrow> (\<exists>batches. log c = log c0 @ map (\<lambda>b. (target, RESTORE_STREAM, b)) batches
         \<and> concat batches = filter (\<lambda>e. event_cost (be_message e) \<le> MAX_BATCH_BYTES) (map (\<lambda>(r, g). restore_event_of R r g) out)
         \<and> (\<forall>b \<in> set batches. within_limits b) \<and> sorted (map be_timestamp (concat batches))
         \<and> bs_sent (rs_sender rs) = length (concat batches)))"
proof -
  from restore_runs [OF assms(1-4,6), of c0] obtain out stats where
    r: "restore_to_log_group V s cl render acct groups target rg raw now c0
      = Some (case restore_all R out (restore_state_new, c0) of
          (st1, Inl e) \<Rightarrow> (st1, Inl e)
        | (st1, Inr _) \<Rightarrow> map_prod id (map_sum id (\<lambda>_. stats)) (restore_finish R st1))"
    and out: "sorted (map (rec_order \<circ> fst) out)" "mset out = mset (group_hits rg None groups Ls A)" by blast
  have cl: "rj_client R = cl" "rj_target R = target" by (simp_all add: assms(6))
  let ?run = "case restore_all R out (restore_state_new, c0) of
          (st1, Inl e) \<Rightarrow> (st1, Inl e)
        | (st1, Inr _) \<Rightarrow> map_prod id (map_sum id (\<lambda>_. stats)) (restore_finish R st1)"
  obtain rs c res where run: "?run = ((rs, c), res)" by (cases ?run) auto
  let ?b = "eb_run eb_new (restore_events R out)"
  have lim: "concat ?b = restore_events R out" "\<forall>b \<in> set ?b. within_limits b"
    using eb_run_ok [OF eb_ok_new, of "restore_events R out"] by (auto simp: restore_events_def eb_new_def)
  have ok: "log c = log c0 @ addressed R ?b \<and> bs_sent (rs_sender rs) = length (restore_events R out)" if k: "is_ok res"
  proof -
    obtain st1 where 1: "restore_all R out (restore_state_new, c0) = (st1, Inr ())"
      using run k by (auto split: prod.splits sum.splits)
    obtain v where 2: "restore_finish R st1 = ((rs, c), Inr v)"
      using run k 1 by (cases "restore_finish R st1"; cases "snd (restore_finish R st1)") auto
    from restore_run_ok [of R log, OF _ 1 2] assms(5) cl show ?thesis by simp
  qed
  have acc: "is_ok res" if "put_accepts cl"
  proof -
    have p: "put_accepts (rj_client R)" using that cl by simp
    obtain st1 u where 1: "restore_all R out (restore_state_new, c0) = (st1, Inr u)"
      using is_ok_pair [OF restore_accepts(2) [OF p]] by blast
    obtain st2 v where 2: "restore_finish R st1 = (st2, Inr v)" using is_ok_pair [OF restore_accepts(3) [OF p]] by blast
    from run 1 2 show ?thesis by auto
  qed
  have "rec_order \<circ> fst = (\<lambda>(r, g :: string). (timestamp r, stream r))" by (auto simp: rec_order_def)
  with out(1) have s: "sorted (map (\<lambda>(r, g). (timestamp r, stream r)) out)" by simp
  have b: "\<exists>batches. log c = log c0 @ map (\<lambda>b. (target, RESTORE_STREAM, b)) batches
         \<and> concat batches = filter (\<lambda>e. event_cost (be_message e) \<le> MAX_BATCH_BYTES) (map (\<lambda>(r, g). restore_event_of R r g) out)
         \<and> (\<forall>b \<in> set batches. within_limits b) \<and> sorted (map be_timestamp (concat batches))
         \<and> bs_sent (rs_sender rs) = length (concat batches)" if "is_ok res"
    using ok [OF that] lim restore_events_sorted [OF out(1), of R] cl
    by (intro exI [of _ ?b]) (simp add: addressed_def flip: restore_events_def)
  show ?thesis
    by (rule exI [of _ out], rule exI [of _ rs], rule exI [of _ c], rule exI [of _ res])
      (use r run s out(2) acc b in \<open>simp add: group_hits_def\<close>)
qed

section \<open>Properties\<close>

text \<open>
  C36: the streaming batcher agrees with its reference. Feeding any events one at a time and closing
  the batcher gives exactly the slices that the reference computes over the whole list.
\<close>

theorem batcher_matches_reference:
  "eb_run eb_new events = map (\<lambda>(a, b). take (b - a) (drop a events)) (split_batches events)"
proof -
  have "split_batches events = split_end events (split_loop events events 0 0 0 [])"
    by (simp add: split_batches_def split_end_def case_prod_beta)
  moreover have "slice_of events = (\<lambda>(a, b). take (b - a) (drop a events))" by (auto simp: slice_of_def)
  ultimately show ?thesis
    using split_loop_batcher [of events "[]" "[]" events 0 "[]"] by (simp add: eb_new_def)
qed



end
