(* ===== verification/S4_Text.thy ===== *)
theory S4_Text
  imports S4_Prelude "HOL-Library.Char_ord"
begin

text \<open>
  Rust string methods several components use: \<^verbatim>\<open>to_ascii_lowercase\<close>, \<^verbatim>\<open>trim\<close> on ASCII text, and \<^verbatim>\<open>trim\<close> on
  any UTF-8 text, where white space may take up to three bytes.
\<close>

definition is_ws :: "char \<Rightarrow> bool" where
  "is_ws c \<longleftrightarrow> c \<in> {CHR '' '', CHR 0x09, CHR 0x0A, CHR 0x0B, CHR 0x0C, CHR 0x0D}"

definition trim :: "string \<Rightarrow> string" where
  "trim s = rev (dropWhile is_ws (rev (dropWhile is_ws s)))"

definition lower_char :: "char \<Rightarrow> char" where
  "lower_char c = (if CHR ''A'' \<le> c \<and> c \<le> CHR ''Z'' then char_of (of_char c + 32 :: nat) else c)"

definition to_ascii_lowercase :: "string \<Rightarrow> string" where
  "to_ascii_lowercase = map lower_char"

text \<open>The UTF-8 encodings of the Unicode white space characters.\<close>

definition WHITE_SPACE :: "string list" where
  "WHITE_SPACE = [[CHR 0x09], [CHR 0x0A], [CHR 0x0B], [CHR 0x0C], [CHR 0x0D], [CHR 0x20], [CHR 0xC2, CHR 0x85], [CHR 0xC2, CHR 0xA0],
     [CHR 0xE1, CHR 0x9A, CHR 0x80]]
     @ [[CHR 0xE2, CHR 0x80, CHR 0x80], [CHR 0xE2, CHR 0x80, CHR 0x81], [CHR 0xE2, CHR 0x80, CHR 0x82], [CHR 0xE2, CHR 0x80, CHR 0x83],
        [CHR 0xE2, CHR 0x80, CHR 0x84], [CHR 0xE2, CHR 0x80, CHR 0x85], [CHR 0xE2, CHR 0x80, CHR 0x86], [CHR 0xE2, CHR 0x80, CHR 0x87],
        [CHR 0xE2, CHR 0x80, CHR 0x88], [CHR 0xE2, CHR 0x80, CHR 0x89], [CHR 0xE2, CHR 0x80, CHR 0x8A], [CHR 0xE2, CHR 0x80, CHR 0xA8],
        [CHR 0xE2, CHR 0x80, CHR 0xA9], [CHR 0xE2, CHR 0x80, CHR 0xAF]]
     @ [[CHR 0xE2, CHR 0x81, CHR 0x9F], [CHR 0xE3, CHR 0x80, CHR 0x80]]"

function trim_with :: "string list \<Rightarrow> string \<Rightarrow> string" where
  "trim_with ws s =
     (case List.find (\<lambda>w. w \<noteq> [] \<and> starts_with w s) ws of
        None \<Rightarrow> s
      | Some w \<Rightarrow> trim_with ws (drop (length w) s))"
  by pat_completeness auto
termination
proof (relation "measure (\<lambda>(_, s). length s)")
  fix ws :: "string list" and s w
  assume "List.find (\<lambda>w. w \<noteq> [] \<and> starts_with w s) ws = Some w"
  then have "w \<noteq> []" "take (length w) s = w" by (auto simp: find_Some_iff starts_with_def)
  then show "((ws, drop (length w) s), ws, s) \<in> measure (\<lambda>(_, s). length s)" by (cases s) auto
qed simp

declare trim_with.simps [simp del]

definition str_trim :: "string \<Rightarrow> string" where
  "str_trim s = rev (trim_with (map rev WHITE_SPACE) (rev (trim_with WHITE_SPACE s)))"

lemma trim_with_id: "(\<forall>w \<in> set ws. w \<noteq> [] \<longrightarrow> \<not> starts_with w s) \<Longrightarrow> trim_with ws s = s"
  by (subst trim_with.simps) (auto simp: find_None_iff split: option.splits dest: find_Some_iff [THEN iffD1])

lemma starts_with_hd: "starts_with w s \<Longrightarrow> w \<noteq> [] \<Longrightarrow> s \<noteq> [] \<and> hd s = hd w"
  unfolding starts_with_def by (cases w; cases s) auto

text \<open>Text that starts and ends with an ASCII letter, digit or sign is not trimmed.\<close>

definition plain_char :: "char \<Rightarrow> bool" where
  "plain_char c \<longleftrightarrow> (33 :: nat) \<le> of_char c \<and> of_char c < (128 :: nat)"

lemma str_trim_id:
  assumes "s \<noteq> []" "plain_char (hd s)" "plain_char (last s)"
  shows "str_trim s = s"
proof -
  have h: "\<forall>w \<in> set WHITE_SPACE. \<not> plain_char (hd w)" "\<forall>w \<in> set WHITE_SPACE. \<not> plain_char (last w)" "\<forall>w \<in> set WHITE_SPACE. w \<noteq> []"
    by (simp_all add: WHITE_SPACE_def plain_char_def)
  have "trim_with WHITE_SPACE s = s" using h(1) assms(2) by (intro trim_with_id) (auto dest: starts_with_hd)
  moreover have "trim_with (map rev WHITE_SPACE) (rev s) = rev s"
  proof (rule trim_with_id, intro ballI impI notI)
    fix w assume w: "w \<in> set (map rev WHITE_SPACE)" "w \<noteq> []" "starts_with w (rev s)"
    then have "hd (rev s) = hd w" using starts_with_hd by blast
    then show False using w(1) h(2) assms(1,3) by (auto simp: hd_rev)
  qed
  ultimately show ?thesis by (simp add: str_trim_def)
qed

end
