(* ===== verification/S4_Timearg.thy ===== *)
theory S4_Timearg
  imports S4_Text
begin

text \<open>
  The argument parsers of the command line (\<^verbatim>\<open>s4logs-cli/src/timearg.rs\<close>): timestamps, durations and byte
  sizes. chrono's RFC 3339 parser and printer are arguments. The size printer goes through floats and
  is not modelled.
\<close>

text \<open>What is wrong with an argument; the Rust error is the rendered text.\<close>

datatype arg_error =
    EmptyTimestamp
  | EpochRange string
  | NotTimestamp string string
  | NoUnit string
  | NoDigits string
  | BadValue string
  | UnknownUnit string
  | Overflows string

definition parse_time_ms :: "(string \<Rightarrow> string + int) \<Rightarrow> string \<Rightarrow> arg_error + int" where
  "parse_time_ms parse_from_rfc3339 s =
     (let t = str_trim s in
      if t = [] then Inl EmptyTimestamp
      else let digits = (case strip_prefix ''-'' t of None \<Rightarrow> t | Some d \<Rightarrow> d) in
      if digits \<noteq> [] \<and> list_all is_digit digits
      then (case parse_i64 t of None \<Rightarrow> Inl (EpochRange t) | Some v \<Rightarrow> Inr v)
      else map_err (NotTimestamp t) (parse_from_rfc3339 t))"

definition fmt_ts :: "(int \<Rightarrow> string option) \<Rightarrow> int \<Rightarrow> string" where
  "fmt_ts to_rfc3339_millis ms = (case to_rfc3339_millis ms of None \<Rightarrow> show_int ms @ ''ms'' | Some s \<Rightarrow> s)"

fun duration_unit :: "string \<Rightarrow> nat option" where
  "duration_unit u =
     (if u = ''ms'' then Some 1 else if u = ''s'' then Some 1000 else if u = ''m'' then Some 60000
      else if u = ''h'' then Some 3600000 else if u = ''d'' then Some 86400000 else None)"

definition parse_duration :: "string \<Rightarrow> arg_error + nat" where
  "parse_duration s =
     (let t = str_trim s in
      if list_all is_digit t then Inl (NoUnit t)
      else let split = length (takeWhile is_digit t) in
      if split = 0 then Inl (NoDigits t)
      else case parse_unsigned u64_MAX (take split t) of
        None \<Rightarrow> Inl (BadValue t)
      | Some n \<Rightarrow>
          let u = to_ascii_lowercase (str_trim (drop split t)) in
          case duration_unit u of
            None \<Rightarrow> Inl (UnknownUnit u)
          | Some per_unit \<Rightarrow> if n * per_unit \<le> u64_MAX then Inr (n * per_unit) else Inl (Overflows t))"

definition parse_duration_ms :: "string \<Rightarrow> arg_error + int" where
  "parse_duration_ms s =
     (case parse_duration s of
        Inl e \<Rightarrow> Inl e
      | Inr d \<Rightarrow> if is_i64 (int d) then Inr (int d) else Inl (Overflows s))"

fun size_unit :: "string \<Rightarrow> nat option" where
  "size_unit u =
     (if u = [] \<or> u = ''b'' then Some 1 else if u = ''kb'' \<or> u = ''k'' then Some 1000
      else if u = ''mb'' \<or> u = ''m'' then Some 1000000 else if u = ''gb'' \<or> u = ''g'' then Some 1000000000
      else if u = ''tb'' \<or> u = ''t'' then Some 1000000000000 else if u = ''kib'' then Some (2 ^ 10)
      else if u = ''mib'' then Some (2 ^ 20) else if u = ''gib'' then Some (2 ^ 30) else if u = ''tib'' then Some (2 ^ 40) else None)"

definition parse_size_bytes :: "string \<Rightarrow> arg_error + nat" where
  "parse_size_bytes s =
     (let t = str_trim s; split = length (takeWhile is_digit t) in
      if split = 0 then Inl (NoDigits t)
      else case parse_unsigned u64_MAX (take split t) of
        None \<Rightarrow> Inl (BadValue t)
      | Some n \<Rightarrow>
          let u = to_ascii_lowercase (str_trim (drop split t)) in
          case size_unit u of
            None \<Rightarrow> Inl (UnknownUnit u)
          | Some factor \<Rightarrow> if n * factor \<le> u64_MAX then Inr (n * factor) else Inl (Overflows t))"

declare size_unit.simps [simp del] duration_unit.simps [simp del]

section \<open>Round trips\<close>

lemma digit_plain: "is_digit c \<Longrightarrow> plain_char c"
  by (auto simp: is_digit_def plain_char_def)

text \<open>A unit suffix: letters only.\<close>

definition unit_text :: "string \<Rightarrow> bool" where
  "unit_text u \<longleftrightarrow> u \<noteq> [] \<and> list_all (\<lambda>c. plain_char c \<and> \<not> is_digit c) u"

lemma unit_text_ends: "unit_text u \<Longrightarrow> plain_char (hd u) \<and> plain_char (last u) \<and> \<not> is_digit (hd u)"
  by (auto simp: unit_text_def list_all_iff)

lemma quantity_text:
  assumes "unit_text u"
  shows "str_trim (show_nat n @ u) = show_nat n @ u" "str_trim u = u" "takeWhile is_digit (show_nat n @ u) = show_nat n"
    "\<not> list_all is_digit (show_nat n @ u)"
proof -
  have d: "list_all is_digit (show_nat n)" using show_nat_digits by (auto simp: list_all_iff)
  then have "plain_char (hd (show_nat n))" using digit_plain by (cases "show_nat n") auto
  with unit_text_ends [OF assms] show "str_trim (show_nat n @ u) = show_nat n @ u"
    using assms by (intro str_trim_id) (auto simp: unit_text_def)
  show "str_trim u = u" using unit_text_ends [OF assms] assms by (intro str_trim_id) (auto simp: unit_text_def)
  show "takeWhile is_digit (show_nat n @ u) = show_nat n"
    using d unit_text_ends [OF assms] assms by (subst takeWhile_append2) (auto simp: list_all_iff unit_text_def neq_Nil_conv)
  show "\<not> list_all is_digit (show_nat n @ u)" using assms by (cases u) (auto simp: unit_text_def)
qed

lemma parse_unsigned_large: "m < n \<Longrightarrow> parse_unsigned m (show_nat n) = None"
proof -
  assume "m < n"
  moreover obtain c cs where c: "show_nat n = c # cs" by (cases "show_nat n") auto
  then have "c \<noteq> CHR ''+''" using hd_show_nat_digit [OF c] by auto
  ultimately show ?thesis using parse_digits_show_nat [of n] c by (simp add: parse_unsigned_def)
qed

lemma size_unit_pos: "size_unit u = Some m \<Longrightarrow> 1 \<le> m"
  by (auto simp: size_unit.simps split: if_splits)

lemma duration_unit_pos: "duration_unit u = Some m \<Longrightarrow> 1 \<le> m"
  by (auto simp: duration_unit.simps split: if_splits)

lemma parse_size_exact:
  assumes "unit_text u" and "size_unit (to_ascii_lowercase u) = Some m"
  shows "parse_size_bytes (show_nat n @ u) = Inr k \<longleftrightarrow> k = n * m \<and> k \<le> u64_MAX"
proof (cases "n \<le> u64_MAX")
  case True
  then show ?thesis
    using quantity_text(1,3,4) [OF assms(1), of n] quantity_text(2) [OF assms(1)] assms(2) by (auto simp: parse_size_bytes_def Let_def parse_unsigned_show_nat)
next
  case False
  moreover from False have "\<not> n * m \<le> u64_MAX" using size_unit_pos [OF assms(2)] by (metis le_trans mult_le_mono2 nat_mult_1_right)
  ultimately show ?thesis
    using quantity_text(1,3,4) [OF assms(1), of n] quantity_text(2) [OF assms(1)] by (auto simp: parse_size_bytes_def Let_def parse_unsigned_large)
qed

lemma parse_duration_exact:
  assumes "unit_text u" and "duration_unit (to_ascii_lowercase u) = Some m"
  shows "parse_duration (show_nat n @ u) = Inr k \<longleftrightarrow> k = n * m \<and> k \<le> u64_MAX"
proof (cases "n \<le> u64_MAX")
  case True
  then show ?thesis
    using quantity_text(1,3,4) [OF assms(1), of n] quantity_text(2) [OF assms(1)] assms(2) by (auto simp: parse_duration_def Let_def parse_unsigned_show_nat)
next
  case False
  moreover from False have "\<not> n * m \<le> u64_MAX" using duration_unit_pos [OF assms(2)] by (metis le_trans mult_le_mono2 nat_mult_1_right)
  ultimately show ?thesis
    using quantity_text(1,3,4) [OF assms(1), of n] quantity_text(2) [OF assms(1)] by (auto simp: parse_duration_def Let_def parse_unsigned_large)
qed

lemma parse_time_epoch:
  assumes "is_i64 x"
  shows "parse_time_ms rfc (show_int x) = Inr x"
proof -
  have d: "list_all is_digit (show_nat n) \<and> plain_char (hd (show_nat n)) \<and> plain_char (last (show_nat n))" for n
    using show_nat_digits [of _ n] digit_plain hd_in_set [OF show_nat_ne] last_in_set [OF show_nat_ne] by (auto simp: list_all_iff)
  have tr: "str_trim (show_int x) = show_int x"
    using d by (intro str_trim_id) (auto simp: show_int_def plain_char_def)
  have "show_int x \<noteq> []" by (simp add: show_int_def)
  moreover have "\<exists>ds. (case strip_prefix ''-'' (show_int x) of None \<Rightarrow> show_int x | Some d \<Rightarrow> d) = show_nat ds"
  proof (cases "x < 0")
    case True
    then have "show_int x = ''-'' @ show_nat (nat (- x))" by (simp add: show_int_def)
    then show ?thesis by (metis option.simps(5) strip_prefix_append)
  next
    case False
    obtain c cs where c: "show_nat (nat x) = c # cs" by (cases "show_nat (nat x)") auto
    then have "c \<noteq> CHR ''-''" using hd_show_nat_digit [OF c] by auto
    then have "strip_prefix ''-'' (show_nat (nat x)) = None" using c by (simp add: strip_prefix_def)
    then show ?thesis using False by auto
  qed
  then obtain ds where "(case strip_prefix ''-'' (show_int x) of None \<Rightarrow> show_int x | Some d \<Rightarrow> d) = show_nat ds" by blast
  ultimately show ?thesis
    using d [of ds] parse_i64_show_int [OF assms] unfolding parse_time_ms_def Let_def tr by simp
qed

section \<open>Properties\<close>

text \<open>
  Quantities are parsed exactly. A decimal number followed by a known unit is its product with the
  factor of the unit, in any letter case, for sizes and for durations; the parse fails exactly when that
  product does not fit into 64 bits. An epoch timestamp in the range of i64 is read back.
\<close>

theorem quantities_exact:
  assumes "unit_text u" and "size_unit (to_ascii_lowercase u) = Some m"
    and "unit_text v" and "duration_unit (to_ascii_lowercase v) = Some d" and "is_i64 x"
  shows "(parse_size_bytes (show_nat n @ u) = Inr k \<longleftrightarrow> k = n * m \<and> k \<le> u64_MAX)
    \<and> (parse_duration (show_nat n @ v) = Inr k \<longleftrightarrow> k = n * d \<and> k \<le> u64_MAX)
    \<and> parse_time_ms rfc (show_int x) = Inr x"
  using parse_size_exact [OF assms(1,2)] parse_duration_exact [OF assms(3,4)] parse_time_epoch [OF assms(5)] by blast

theorem quantities_exact_witness:
  "parse_size_bytes ''256MiB'' = Inr (256 * 2 ^ 20) \<and> parse_duration ''15m'' \<noteq> Inr 0 \<and> parse_time_ms (\<lambda>_. Inl ''x'') ''-5'' = Inr (- 5)"
proof -
  have low: "to_ascii_lowercase ''MiB'' = ''mib''" "to_ascii_lowercase ''m'' = ''m''" by code_simp+
  have u: "unit_text ''MiB''" "size_unit (to_ascii_lowercase ''MiB'') = Some (2 ^ 20)" "unit_text ''m''"
    "duration_unit (to_ascii_lowercase ''m'') = Some 60000" "is_i64 (- 5)"
    by (simp_all add: unit_text_def plain_char_def is_digit_def low size_unit.simps duration_unit.simps
        is_i64_def i64_MIN_def i64_MAX_def)
  have s: "show_nat 256 = ''256''" "show_nat 15 = ''15''" "show_int (- 5) = ''-5''"
    by code_simp+
  show ?thesis
    using quantities_exact [OF u, of 256 "256 * 2 ^ 20" "\<lambda>_. Inl ''x''"] quantities_exact [OF u, of 15 0 "\<lambda>_. Inl ''x''"]
    unfolding s by (simp add: u64_MAX_def)
qed

end
