(* ===== verification/S4_Wal.thy ===== *)
theory S4_Wal
  imports S4_Read S4_Sink
begin

text \<open>
  The write-ahead log of the gateway (\<^verbatim>\<open>s4logs-gateway/src/wal.rs\<close>) over a model of the files of its
  directory. A segment is a file of JSONL lines; a line is durable once the file has been synced. The
  lemmas show that a segment reads back as the entries appended to it whatever follows them, and how
  each operation acts on what a power loss leaves behind.
\<close>

section \<open>Files\<close>

text \<open>
  The WAL directory as the operating system presents it: whether it exists, the contents a read of
  each file name returns, and the contents that survive a power loss. \<open>fs_faults\<close> scripts the
  outcome of the coming system calls: \<open>None\<close> or an empty script is success, \<open>Some (n, msg)\<close> an error
  that leaves \<open>n\<close> bytes of a write behind. \<open>fs_dirsync\<close> says whether the file system accepts an
  fsync on a directory. File names stand for paths, since every path is inside the one directory.
\<close>

record wal_fs =
  fs_dir :: bool
  fs_files :: "string \<rightharpoonup> bytes"
  fs_durable :: "string \<rightharpoonup> bytes"
  fs_faults :: "(nat \<times> string) option list"
  fs_dirsync :: bool

definition next_fault :: "wal_fs \<Rightarrow> wal_fs \<times> (nat \<times> string) option" where
  "next_fault fs = (case fs_faults fs of [] \<Rightarrow> (fs, None) | f # fl \<Rightarrow> (fs\<lparr>fs_faults := fl\<rparr>, f))"

definition sys_create_dir_all :: "wal_fs \<Rightarrow> wal_fs \<times> (string + unit)" where
  "sys_create_dir_all fs0 =
     (case next_fault fs0 of
        (fs, Some (_, e)) \<Rightarrow> (fs, Inl e)
      | (fs, None) \<Rightarrow> (fs\<lparr>fs_dir := True\<rparr>, Inr ()))"

text \<open>\<^verbatim>\<open>OpenOptions::create_new(true).append(true)\<close>: an existing file is an error.\<close>

definition sys_create_new :: "string \<Rightarrow> wal_fs \<Rightarrow> wal_fs \<times> (string + unit)" where
  "sys_create_new p fs0 =
     (case next_fault fs0 of
        (fs, Some (_, e)) \<Rightarrow> (fs, Inl e)
      | (fs, None) \<Rightarrow>
          if fs_files fs p \<noteq> None then (fs, Inl ''File exists'')
          else (fs\<lparr>fs_files := (fs_files fs)(p \<mapsto> []), fs_durable := (fs_durable fs)(p := None)\<rparr>, Inr ()))"

definition sys_write_all :: "string \<Rightarrow> bytes \<Rightarrow> wal_fs \<Rightarrow> wal_fs \<times> (string + unit)" where
  "sys_write_all p b fs0 =
     (let put = (\<lambda>fs t. case fs_files fs p of None \<Rightarrow> fs
                   | Some old \<Rightarrow> fs\<lparr>fs_files := (fs_files fs)(p \<mapsto> old @ t)\<rparr>)
      in case next_fault fs0 of
           (fs, Some (n, e)) \<Rightarrow> (put fs (take n b), Inl e)
         | (fs, None) \<Rightarrow> (put fs b, Inr ()))"

text \<open>\<^verbatim>\<open>sync_data\<close>: the data reaches the disk; it is reachable after a power loss when the name is too.\<close>

definition sys_sync_data :: "string \<Rightarrow> wal_fs \<Rightarrow> wal_fs \<times> (string + unit)" where
  "sys_sync_data p fs0 =
     (case next_fault fs0 of
        (fs, Some (_, e)) \<Rightarrow> (fs, Inl e)
      | (fs, None) \<Rightarrow>
          (if fs_durable fs p = None then fs
           else fs\<lparr>fs_durable := (fs_durable fs)(p := fs_files fs p)\<rparr>, Inr ()))"

definition sys_remove_file :: "string \<Rightarrow> wal_fs \<Rightarrow> wal_fs \<times> (string + unit)" where
  "sys_remove_file p fs0 =
     (case next_fault fs0 of
        (fs, Some (_, e)) \<Rightarrow> (fs, Inl e)
      | (fs, None) \<Rightarrow>
          if fs_files fs p = None then (fs, Inl ''No such file or directory'')
          else (fs\<lparr>fs_files := (fs_files fs)(p := None)\<rparr>, Inr ()))"

definition sys_read :: "string \<Rightarrow> wal_fs \<Rightarrow> wal_fs \<times> (string + bytes)" where
  "sys_read p fs0 =
     (case next_fault fs0 of
        (fs, Some (_, e)) \<Rightarrow> (fs, Inl e)
      | (fs, None) \<Rightarrow>
         (case fs_files fs p of None \<Rightarrow> (fs, Inl ''No such file or directory'')
          | Some b \<Rightarrow> (fs, Inr b)))"

definition sys_read_dir :: "wal_fs \<Rightarrow> wal_fs \<times> (string + string set)" where
  "sys_read_dir fs0 =
     (case next_fault fs0 of
        (fs, Some (_, e)) \<Rightarrow> (fs, Inl e)
      | (fs, None) \<Rightarrow> (fs, Inr (dom (fs_files fs))))"

text \<open>
  \<^verbatim>\<open>fsync_dir\<close>: the names become durable. A name that was not durable before gets an empty file,
  the least its data may be.
\<close>

definition fsync_dir :: "wal_fs \<Rightarrow> wal_fs \<times> (string + unit)" where
  "fsync_dir fs =
     (if fs_dirsync fs
      then (fs\<lparr>fs_durable := (\<lambda>p. case fs_files fs p of None \<Rightarrow> None
               | Some _ \<Rightarrow> (case fs_durable fs p of None \<Rightarrow> Some [] | Some b \<Rightarrow> Some b))\<rparr>, Inr ())
      else (fs, Inl ''fsync on a directory''))"

text \<open>\<^verbatim>\<open>sync_parent_dir\<close> only logs and counts an error.\<close>

definition sync_parent_dir :: "wal_fs \<Rightarrow> wal_fs" where
  "sync_parent_dir fs = fst (fsync_dir fs)"

section \<open>Segments\<close>

definition WAL_SUFFIX :: string where "WAL_SUFFIX = ''.wal''"

record wal_entry =
  wl_log_group :: string
  wl_timestamp :: int
  wl_stream :: string
  wl_message :: string
  wl_ingestion_time :: "int option"

record wal_segment =
  seg_path :: string
  seg_dirty :: bool

text \<open>\<open>uid\<close> is the random suffix drawn by \<^verbatim>\<open>uuid8\<close>.\<close>

definition wal_name :: "string \<Rightarrow> string \<Rightarrow> string \<Rightarrow> string" where
  "wal_name lg dt uid = sanitize_log_group lg @ ''.'' @ dt @ ''.'' @ uid @ WAL_SUFFIX"

definition wal_create :: "string \<Rightarrow> string \<Rightarrow> string \<Rightarrow> wal_fs \<Rightarrow> wal_fs \<times> (string + wal_segment)" where
  "wal_create lg dt uid fs =
     (case sys_create_dir_all fs of
        (fs1, Inl e) \<Rightarrow> (fs1, Inl e)
      | (fs1, Inr _) \<Rightarrow>
         (case sys_create_new (wal_name lg dt uid) fs1 of
            (fs2, Inl e) \<Rightarrow> (fs2, Inl e)
          | (fs2, Inr _) \<Rightarrow>
              (sync_parent_dir fs2, Inr \<lparr>seg_path = wal_name lg dt uid, seg_dirty = False\<rparr>)))"

definition wal_append ::
    "wal_entry serde \<Rightarrow> wal_entry \<Rightarrow> wal_segment \<Rightarrow> wal_fs \<Rightarrow> wal_segment \<times> wal_fs \<times> (string + unit)" where
  "wal_append J entry seg fs =
     (case to_json J entry of
        Inl e \<Rightarrow> (seg, fs, Inl e)
      | Inr line \<Rightarrow>
         (case sys_write_all (seg_path seg) (line @ [NL]) fs of
            (fs', Inl e) \<Rightarrow> (seg, fs', Inl e)
          | (fs', Inr _) \<Rightarrow> (seg\<lparr>seg_dirty := True\<rparr>, fs', Inr ())))"

definition wal_sync :: "wal_segment \<Rightarrow> wal_fs \<Rightarrow> wal_segment \<times> wal_fs \<times> (string + unit)" where
  "wal_sync seg fs =
     (if \<not> seg_dirty seg then (seg, fs, Inr ())
      else case sys_sync_data (seg_path seg) fs of
        (fs', Inl e) \<Rightarrow> (seg, fs', Inl e)
      | (fs', Inr _) \<Rightarrow> (seg\<lparr>seg_dirty := False\<rparr>, fs', Inr ()))"

definition wal_delete :: "wal_segment \<Rightarrow> wal_fs \<Rightarrow> wal_fs" where
  "wal_delete seg fs =
     (case sys_remove_file (seg_path seg) fs of
        (fs', Inl _) \<Rightarrow> fs'
      | (fs', Inr _) \<Rightarrow> sync_parent_dir fs')"

section \<open>Scanning\<close>

text \<open>The intact lines of a segment in order; the others are skipped and counted.\<close>

definition wal_lines :: "bytes \<Rightarrow> bytes list" where
  "wal_lines b = filter (\<lambda>l. l \<noteq> []) (split_on NL b)"

definition wal_entries :: "wal_entry serde \<Rightarrow> bytes \<Rightarrow> wal_entry list" where
  "wal_entries J b = List.map_filter (\<lambda>l. ok_of (from_json J l)) (wal_lines b)"

fun scan_files ::
    "wal_entry serde \<Rightarrow> string list \<Rightarrow> wal_fs \<Rightarrow> wal_fs \<times> (string + (string \<times> wal_entry list) list)" where
  "scan_files J [] fs = (fs, Inr [])"
| "scan_files J (p # ps) fs =
     (case sys_read p fs of
        (fs1, Inl e) \<Rightarrow> (fs1, Inl e)
      | (fs1, Inr b) \<Rightarrow>
         (case scan_files J ps fs1 of
            (fs2, Inl e) \<Rightarrow> (fs2, Inl e)
          | (fs2, Inr rest) \<Rightarrow> (fs2, Inr ((p, wal_entries J b) # rest))))"

definition is_wal :: "string \<Rightarrow> bool" where
  "is_wal p \<longleftrightarrow> strip_suffix WAL_SUFFIX p \<noteq> None"

definition scan_dir ::
    "wal_entry serde \<Rightarrow> wal_fs \<Rightarrow> wal_fs \<times> (string + (string \<times> wal_entry list) list)" where
  "scan_dir J fs =
     (if \<not> fs_dir fs then (fs, Inr [])
      else case sys_read_dir fs of
        (fs1, Inl e) \<Rightarrow> (fs1, Inl e)
      | (fs1, Inr names) \<Rightarrow> scan_files J (sorted_list_of_set {p \<in> names. is_wal p}) fs1)"

section \<open>What a segment holds\<close>

lemma wal_entries_line:
  assumes "json_faithful J e"
  shows "wal_entries J (jsonl_line J e @ b) = e # wal_entries J b"
proof -
  from assms obtain s where s: "s \<noteq> []" "NL \<notin> set s" "from_json J s = Inr e"
    "jsonl_line J e = s @ [NL]" by (rule json_faithfulE) blast
  then show ?thesis by (simp add: wal_entries_def wal_lines_def split_on_append map_filter_simps)
qed

lemma wal_entries_text:
  "jsonl_faithful J es \<Longrightarrow> wal_entries J (jsonl_text J es @ b) = es @ wal_entries J b"
  by (induction es) (auto simp: wal_entries_line)

lemma wal_entries_Nil [simp]: "wal_entries J [] = []"
  by (simp add: wal_entries_def wal_lines_def map_filter_simps)

lemma wal_entries_whole: "jsonl_faithful J es \<Longrightarrow> wal_entries J (jsonl_text J es) = es"
  using wal_entries_text [of J es "[]"] by simp

section \<open>Well-formed directories\<close>

text \<open>
  Every file is a sequence of whole lines, and what is durable of it is a shorter sequence. The
  script leaves no bytes of a failed write behind.
\<close>

definition clean_faults :: "wal_fs \<Rightarrow> bool" where
  "clean_faults fs \<longleftrightarrow> (\<forall>f \<in> set (fs_faults fs). case f of None \<Rightarrow> True | Some (n, _) \<Rightarrow> n = 0)"

definition file_ok :: "wal_entry serde \<Rightarrow> bytes option \<Rightarrow> bytes option \<Rightarrow> bool" where
  "file_ok J cur dur \<longleftrightarrow>
     (case cur of None \<Rightarrow> True
      | Some b \<Rightarrow> \<exists>es k. jsonl_faithful J es \<and> b = jsonl_text J es
           \<and> (case dur of None \<Rightarrow> True | Some d \<Rightarrow> d = jsonl_text J (take k es)))"

definition fs_ok :: "wal_entry serde \<Rightarrow> wal_fs \<Rightarrow> bool" where
  "fs_ok J fs \<longleftrightarrow> fs_dirsync fs \<and> clean_faults fs
     \<and> (\<forall>p. file_ok J (fs_files fs p) (fs_durable fs p))"

text \<open>The entries of a segment that survive a power loss.\<close>

definition dur_entries :: "wal_entry serde \<Rightarrow> wal_fs \<Rightarrow> string \<Rightarrow> wal_entry set" where
  "dur_entries J fs p = (case fs_durable fs p of None \<Rightarrow> {} | Some b \<Rightarrow> set (wal_entries J b))"

definition cur_entries :: "wal_entry serde \<Rightarrow> wal_fs \<Rightarrow> string \<Rightarrow> wal_entry set" where
  "cur_entries J fs p = (case fs_files fs p of None \<Rightarrow> {} | Some b \<Rightarrow> set (wal_entries J b))"

text \<open>A segment some buffer owns: the file exists, and a clean segment is durable as it is.\<close>

definition seg_ok :: "wal_fs \<Rightarrow> wal_segment \<Rightarrow> bool" where
  "seg_ok fs seg \<longleftrightarrow> fs_files fs (seg_path seg) \<noteq> None \<and> fs_durable fs (seg_path seg) \<noteq> None
     \<and> (\<not> seg_dirty seg \<longrightarrow> fs_durable fs (seg_path seg) = fs_files fs (seg_path seg))"

text \<open>An operation on the segment \<open>p\<close> leaves the other files as they are.\<close>

definition fs_frame :: "string \<Rightarrow> wal_fs \<Rightarrow> wal_fs \<Rightarrow> bool" where
  "fs_frame p fs fs' \<longleftrightarrow> (\<forall>q. q \<noteq> p \<and> fs_files fs q \<noteq> None \<longrightarrow>
     fs_files fs' q = fs_files fs q \<and> (fs_durable fs q \<noteq> None \<longrightarrow> fs_durable fs' q = fs_durable fs q))"

lemma fs_frame_refl [simp]: "fs_frame p fs fs"
  by (simp add: fs_frame_def)

lemma fs_frame_seg_ok: "fs_frame p fs fs' \<Longrightarrow> seg_path seg \<noteq> p \<Longrightarrow> seg_ok fs seg \<Longrightarrow> seg_ok fs' seg"
  by (auto simp: fs_frame_def seg_ok_def)

lemma fs_frame_entries:
  assumes "fs_frame p fs fs'" and "q \<noteq> p" and "fs_files fs q \<noteq> None"
  shows "cur_entries J fs' q = cur_entries J fs q" and "dur_entries J fs q \<subseteq> dur_entries J fs' q"
  using assms by (auto simp: fs_frame_def cur_entries_def dur_entries_def split: option.splits)

lemma next_faultD:
  assumes "next_fault fs = (fs', f)"
  shows "fs_files fs' = fs_files fs" "fs_durable fs' = fs_durable fs" "fs_dirsync fs' = fs_dirsync fs"
    "fs_dir fs' = fs_dir fs" "clean_faults fs \<Longrightarrow> clean_faults fs'"
    "clean_faults fs \<Longrightarrow> f = Some (n, e) \<Longrightarrow> n = 0"
  using assms by (auto simp: next_fault_def clean_faults_def split: list.splits)

lemma fs_ok_fault: "next_fault fs = (fs', f) \<Longrightarrow> fs_ok J fs \<Longrightarrow> fs_ok J fs'"
  by (auto simp: fs_ok_def next_faultD)

lemma fs_ok_same:
  assumes "fs_ok J fs" and "clean_faults fs'" and "fs_dirsync fs' = fs_dirsync fs"
    and "fs_files fs' = fs_files fs" and "fs_durable fs' = fs_durable fs"
  shows "fs_ok J fs'"
  using assms by (simp add: fs_ok_def)

lemma file_okD:
  assumes "file_ok J (Some b) dur"
  obtains es k where "jsonl_faithful J es" "b = jsonl_text J es"
    "dur \<noteq> None \<Longrightarrow> dur = Some (jsonl_text J (take k es))"
  using assms by (auto simp: file_ok_def split: option.splits)

lemma file_okI:
  assumes "jsonl_faithful J es" and "b = jsonl_text J es"
    and "dur \<noteq> None \<Longrightarrow> dur = Some (jsonl_text J (take k es))"
  shows "file_ok J (Some b) dur"
  unfolding file_ok_def option.case
  by (rule exI [of _ es], rule exI [of _ k]) (use assms in \<open>cases dur; simp\<close>)

lemma file_ok_empty [simp]: "file_ok J (Some []) (Some [])" "file_ok J None d" "file_ok J (Some []) None"
  by (auto simp: file_ok_def intro: exI [of _ "[]"])

lemma file_ok_None: "file_ok J cur dur \<Longrightarrow> file_ok J cur None"
  by (auto simp: file_ok_def split: option.splits)

lemma file_ok_synced: "file_ok J cur dur \<Longrightarrow> file_ok J cur cur"
proof (cases cur)
  case (Some b)
  assume "file_ok J cur dur"
  then obtain es where "jsonl_faithful J es" "b = jsonl_text J es"
    unfolding Some by (rule file_okD) blast
  then have "\<exists>es k. jsonl_faithful J es \<and> b = jsonl_text J es \<and> b = jsonl_text J (take k es)"
    by (intro exI [of _ es] exI [of _ "length es"]) simp
  then show ?thesis by (simp add: Some file_ok_def)
qed simp

lemma file_ok_dirent: "file_ok J cur None \<Longrightarrow> file_ok J cur (Some [])"
  unfolding file_ok_def
  by (cases cur) (simp, simp, metis jsonl_text_simps(1) take_0)

lemma file_ok_append:
  assumes "file_ok J (Some b) dur" and e: "json_faithful J e"
  shows "file_ok J (Some (b @ jsonl_line J e)) dur"
proof -
  from assms(1) obtain es k where es: "jsonl_faithful J es" "b = jsonl_text J es"
    and d: "dur \<noteq> None \<Longrightarrow> dur = Some (jsonl_text J (take k es))" by (rule file_okD) blast
  show ?thesis
  proof (rule file_okI)
    show "dur \<noteq> None \<Longrightarrow> dur = Some (jsonl_text J (take (min k (length es)) (es @ [e])))"
      using d by (simp add: min_def)
  qed (use es e in auto)
qed

section \<open>The operations\<close>

lemma sync_parent_ok:
  assumes "fs_ok J fs"
  shows "fs_ok J (sync_parent_dir fs)" "fs_files (sync_parent_dir fs) = fs_files fs"
    "fs_frame p fs (sync_parent_dir fs)"
    "fs_files fs q \<noteq> None \<Longrightarrow> fs_durable (sync_parent_dir fs) q \<noteq> None"
proof -
  have f: "file_ok J (fs_files fs q) (fs_durable fs q)" for q using assms by (simp add: fs_ok_def)
  have "file_ok J (fs_files fs q) (fs_durable (sync_parent_dir fs) q)" for q
    using f [of q] file_ok_dirent [of J "fs_files fs q"] assms
    by (cases "fs_files fs q"; cases "fs_durable fs q")
      (simp_all add: sync_parent_dir_def fsync_dir_def fs_ok_def)
  then show "fs_ok J (sync_parent_dir fs)"
    using assms by (auto simp: fs_ok_def sync_parent_dir_def fsync_dir_def clean_faults_def)
qed (use assms in \<open>auto simp: sync_parent_dir_def fsync_dir_def fs_ok_def fs_frame_def split: option.splits\<close>)

lemma wal_create_ok:
  assumes ok: "fs_ok J fs" and c: "wal_create lg dt uid fs = (fs', res)"
  shows "fs_ok J fs'" and "fs_frame (wal_name lg dt uid) fs fs'"
    and "res = Inr seg \<Longrightarrow> seg_path seg = wal_name lg dt uid \<and> fs_files fs (seg_path seg) = None
           \<and> seg_ok fs' seg \<and> fs_files fs' (seg_path seg) = Some []"
    and "res = Inl e \<Longrightarrow> fs_frame p fs fs'"
proof -
  let ?p = "wal_name lg dt uid"
  obtain fs1 r1 where s1: "sys_create_dir_all fs = (fs1, r1)" by (cases "sys_create_dir_all fs")
  obtain fs0 f where nf: "next_fault fs = (fs0, f)" by (cases "next_fault fs")
  note n = next_faultD [OF nf]
  have 1: "fs_files fs1 = fs_files fs" "fs_durable fs1 = fs_durable fs" "fs_dirsync fs1 = fs_dirsync fs"
    "fs_faults fs1 = fs_faults fs0"
    using s1 nf n by (auto simp: sys_create_dir_all_def split: option.splits)
  have "clean_faults fs1" using n(5) 1(4) ok by (simp add: fs_ok_def clean_faults_def)
  note 1 = fs_ok_same [OF ok this 1(3,1,2)] 1(1,2)
  have "fs_ok J fs' \<and> fs_frame ?p fs fs'
     \<and> (\<forall>seg. res = Inr seg \<longrightarrow> seg_path seg = ?p \<and> fs_files fs ?p = None \<and> seg_ok fs' seg
           \<and> fs_files fs' ?p = Some [])
     \<and> (\<forall>e. res = Inl e \<longrightarrow> fs_frame p fs fs')"
  proof (cases r1)
    case Inl
    then show ?thesis using c s1 1 by (auto simp: wal_create_def fs_frame_def)
  next
    case (Inr u)
    obtain fs2 r2 where s2: "sys_create_new ?p fs1 = (fs2, r2)" by (cases "sys_create_new ?p fs1")
    show ?thesis
    proof (cases r2)
      case (Inl e)
      then have "next_fault fs1 = (fs2, snd (next_fault fs1))"
        using s2 by (auto simp: sys_create_new_def split: prod.splits option.splits if_splits)
      from fs_ok_fault [OF this 1(1)] next_faultD [OF this] 1
      have "fs_ok J fs2" "fs_files fs2 = fs_files fs" "fs_durable fs2 = fs_durable fs" by simp_all
      then show ?thesis using c s1 s2 Inr Inl by (auto simp: wal_create_def fs_frame_def)
    next
      case (Inr v)
      obtain fs3 f3 where nf3: "next_fault fs1 = (fs3, f3)" by (cases "next_fault fs1")
      note ok3 = fs_ok_fault [OF nf3 1(1)] and n3 = next_faultD [OF nf3]
      have fresh: "fs_files fs ?p = None"
        and d2: "fs2 = fs3\<lparr>fs_files := (fs_files fs)(?p \<mapsto> []), fs_durable := (fs_durable fs)(?p := None)\<rparr>"
        using s2 Inr 1 n3 nf3 by (auto simp: sys_create_new_def split: option.splits if_splits)
      then have 2: "fs_files fs2 = (fs_files fs)(?p \<mapsto> [])" "fs_durable fs2 = (fs_durable fs)(?p := None)"
        by simp_all
      have ok2: "fs_ok J fs2" using ok3 n3 1 by (simp add: d2 fs_ok_def clean_faults_def)
      have c': "fs' = sync_parent_dir fs2" "res = Inr \<lparr>seg_path = ?p, seg_dirty = False\<rparr>"
        using c s1 s2 \<open>r1 = Inr u\<close> Inr by (auto simp: wal_create_def)
      note sp = sync_parent_ok [OF ok2]
      have "fs_durable fs' ?p = Some []"
        using c'(1) 2 ok2 by (simp add: sync_parent_dir_def fsync_dir_def fs_ok_def)
      moreover have "fs_frame ?p fs fs'"
        using sp(3) [of ?p] 2 c'(1) by (auto simp: fs_frame_def)
      ultimately show ?thesis using c' sp(1,2) 2 fresh by (auto simp: seg_ok_def)
    qed
  qed
  then show "fs_ok J fs'" and "fs_frame ?p fs fs'"
    and "res = Inr seg \<Longrightarrow> seg_path seg = ?p \<and> fs_files fs (seg_path seg) = None
           \<and> seg_ok fs' seg \<and> fs_files fs' (seg_path seg) = Some []"
    and "res = Inl e \<Longrightarrow> fs_frame p fs fs'" by auto
qed

lemma wal_append_ok:
  assumes ok: "fs_ok J fs" and seg: "seg_ok fs seg" and a: "wal_append J e seg fs = (seg', fs', res)"
    and j: "json_faithful J e"
  shows "fs_ok J fs'" and "fs_frame (seg_path seg) fs fs'" and "seg_path seg' = seg_path seg"
    and "seg_ok fs' seg'" and "fs_durable fs' = fs_durable fs"
    and "is_ok res \<Longrightarrow> cur_entries J fs' (seg_path seg) = insert e (cur_entries J fs (seg_path seg))"
    and "cur_entries J fs (seg_path seg) \<subseteq> cur_entries J fs' (seg_path seg)"
proof -
  let ?p = "seg_path seg"
  from j obtain s where s: "to_json J e = Inr s" "jsonl_line J e = s @ [NL]" by (rule json_faithfulE) blast
  from seg obtain b where b: "fs_files fs ?p = Some b" by (auto simp: seg_ok_def)
  obtain fs1 f where nf: "next_fault fs = (fs1, f)" by (cases "next_fault fs")
  note n = next_faultD [OF nf] and ok1 = fs_ok_fault [OF nf ok]
  have cl: "clean_faults fs" using ok by (simp add: fs_ok_def)
  have fok: "file_ok J (Some b) (fs_durable fs ?p)" using ok b by (metis fs_ok_def)
  have "fs_ok J fs' \<and> fs_frame ?p fs fs' \<and> seg_path seg' = ?p \<and> seg_ok fs' seg' \<and> fs_durable fs' = fs_durable fs
    \<and> (is_ok res \<longrightarrow> cur_entries J fs' ?p = insert e (cur_entries J fs ?p))
    \<and> cur_entries J fs ?p \<subseteq> cur_entries J fs' ?p"
  proof (cases f)
    case None
    then have r: "fs' = fs1\<lparr>fs_files := (fs_files fs)(?p \<mapsto> b @ jsonl_line J e)\<rparr>"
      "seg' = seg\<lparr>seg_dirty := True\<rparr>" "res = Inr ()"
      using a nf s b n(1) by (auto simp: wal_append_def sys_write_all_def)
    from fok obtain es where es: "jsonl_faithful J es" "b = jsonl_text J es" by (rule file_okD) blast
    then have "wal_entries J (b @ jsonl_line J e) = es @ [e]" "wal_entries J b = es"
      using j wal_entries_whole [of J "es @ [e]"] wal_entries_whole [of J es] by auto
    then have "cur_entries J fs' ?p = insert e (cur_entries J fs ?p)"
      using r b by (simp add: cur_entries_def)
    moreover have "fs_ok J fs'"
      using ok1 r n(2) file_ok_append [OF fok j] by (auto simp: fs_ok_def n(1) clean_faults_def)
    ultimately show ?thesis using r n b seg by (auto simp: fs_frame_def seg_ok_def)
  next
    case (Some x)
    then obtain m where "f = Some (0, m)" using n(6) [OF cl] by (cases x) auto
    then have r: "fs' = fs1" "seg' = seg" "res = Inl m"
      using a nf s b n(1) by (auto simp: wal_append_def sys_write_all_def fun_upd_idem)
    then show ?thesis using ok1 n seg by (auto simp: fs_frame_def seg_ok_def cur_entries_def)
  qed
  then show "fs_ok J fs'" and "fs_frame ?p fs fs'" and "seg_path seg' = ?p"
    and "seg_ok fs' seg'" and "fs_durable fs' = fs_durable fs"
    and "is_ok res \<Longrightarrow> cur_entries J fs' ?p = insert e (cur_entries J fs ?p)"
    and "cur_entries J fs ?p \<subseteq> cur_entries J fs' ?p" by blast+
qed

lemma dur_le_cur:
  assumes "fs_ok J fs" and "fs_files fs p \<noteq> None"
  shows "dur_entries J fs p \<subseteq> cur_entries J fs p"
proof -
  obtain b where b: "fs_files fs p = Some b" using assms(2) by auto
  have "file_ok J (Some b) (fs_durable fs p)" using assms(1) b by (metis fs_ok_def)
  then obtain es k where es: "jsonl_faithful J es" "b = jsonl_text J es"
    and d: "fs_durable fs p \<noteq> None \<Longrightarrow> fs_durable fs p = Some (jsonl_text J (take k es))"
    by (rule file_okD) blast
  have "jsonl_faithful J (take k es)" using es(1) by (auto simp: jsonl_faithful_def dest: in_set_takeD)
  then show ?thesis
    using es d b by (cases "fs_durable fs p")
      (auto simp: dur_entries_def cur_entries_def wal_entries_whole dest: in_set_takeD)
qed

lemma wal_sync_ok:
  assumes ok: "fs_ok J fs" and seg: "seg_ok fs seg" and a: "wal_sync seg fs = (seg', fs', res)"
  shows "fs_ok J fs'" and "fs_frame (seg_path seg) fs fs'" and "seg_path seg' = seg_path seg"
    and "seg_ok fs' seg'" and "fs_files fs' = fs_files fs"
    and "is_ok res \<Longrightarrow> dur_entries J fs' (seg_path seg) = cur_entries J fs (seg_path seg)"
    and "dur_entries J fs (seg_path seg) \<subseteq> dur_entries J fs' (seg_path seg)"
proof -
  let ?p = "seg_path seg"
  have le: "dur_entries J fs ?p \<subseteq> cur_entries J fs ?p"
    using dur_le_cur [OF ok] seg by (simp add: seg_ok_def)
  obtain fs1 f where nf: "next_fault fs = (fs1, f)" by (cases "next_fault fs")
  note n = next_faultD [OF nf] and ok1 = fs_ok_fault [OF nf ok]
  have "fs_ok J fs' \<and> fs_frame ?p fs fs' \<and> seg_path seg' = ?p \<and> seg_ok fs' seg' \<and> fs_files fs' = fs_files fs
    \<and> (is_ok res \<longrightarrow> dur_entries J fs' ?p = cur_entries J fs ?p)
    \<and> dur_entries J fs ?p \<subseteq> dur_entries J fs' ?p"
  proof (cases "seg_dirty seg")
    case False
    then show ?thesis using a ok seg by (auto simp: wal_sync_def seg_ok_def dur_entries_def cur_entries_def)
  next
    case True
    show ?thesis
    proof (cases f)
      case None
      then have r: "fs' = fs1\<lparr>fs_durable := (fs_durable fs)(?p := fs_files fs ?p)\<rparr>"
        "seg' = seg\<lparr>seg_dirty := False\<rparr>" "res = Inr ()"
        using a nf n seg True by (auto simp: wal_sync_def sys_sync_data_def seg_ok_def)
      have "file_ok J (fs_files fs ?p) (fs_files fs ?p)"
        using ok file_ok_synced by (metis fs_ok_def)
      then have "fs_ok J fs'" using ok1 n by (auto simp: r fs_ok_def clean_faults_def)
      moreover have "dur_entries J fs' ?p = cur_entries J fs ?p"
        by (simp add: r dur_entries_def cur_entries_def)
      ultimately show ?thesis using r n seg le by (auto simp: fs_frame_def seg_ok_def)
    next
      case (Some x)
      then have r: "fs' = fs1" "seg' = seg" "\<not> is_ok res"
        using a nf True by (auto simp: wal_sync_def sys_sync_data_def split: prod.splits)
      then show ?thesis using ok1 n seg by (auto simp: fs_frame_def seg_ok_def dur_entries_def)
    qed
  qed
  then show "fs_ok J fs'" and "fs_frame ?p fs fs'" and "seg_path seg' = ?p"
    and "seg_ok fs' seg'" and "fs_files fs' = fs_files fs"
    and "is_ok res \<Longrightarrow> dur_entries J fs' ?p = cur_entries J fs ?p"
    and "dur_entries J fs ?p \<subseteq> dur_entries J fs' ?p" by blast+
qed

lemma wal_delete_ok:
  assumes ok: "fs_ok J fs"
  shows "fs_ok J (wal_delete seg fs)" and "fs_frame (seg_path seg) fs (wal_delete seg fs)"
proof -
  let ?p = "seg_path seg"
  obtain fs1 f where nf: "next_fault fs = (fs1, f)" by (cases "next_fault fs")
  note n = next_faultD [OF nf] and ok1 = fs_ok_fault [OF nf ok]
  have "fs_ok J (wal_delete seg fs) \<and> fs_frame ?p fs (wal_delete seg fs)"
  proof (cases "f = None \<and> fs_files fs ?p \<noteq> None")
    case True
    define fs2 where "fs2 = fs1\<lparr>fs_files := (fs_files fs)(?p := None)\<rparr>"
    have ok2: "fs_ok J fs2" using ok1 n by (auto simp: fs2_def fs_ok_def clean_faults_def)
    have "wal_delete seg fs = sync_parent_dir fs2"
      using True nf n by (auto simp: wal_delete_def sys_remove_file_def fs2_def)
    moreover have "fs_frame ?p fs (sync_parent_dir fs2)"
      using sync_parent_ok(3) [OF ok2, of ?p] n by (auto simp: fs_frame_def fs2_def)
    ultimately show ?thesis using sync_parent_ok(1) [OF ok2] by simp
  next
    case False
    then have "wal_delete seg fs = fs1"
      using nf n by (auto simp: wal_delete_def sys_remove_file_def split: option.splits)
    then show ?thesis using ok1 n by (simp add: fs_frame_def)
  qed
  then show "fs_ok J (wal_delete seg fs)" and "fs_frame ?p fs (wal_delete seg fs)" by blast+
qed

section \<open>Properties\<close>

text \<open>The JSON of entries that differ only in a message of one character.\<close>

definition tiny_entry :: "char \<Rightarrow> wal_entry" where
  "tiny_entry c = \<lparr>wl_log_group = ''g'', wl_timestamp = 0, wl_stream = ''s'', wl_message = [c], wl_ingestion_time = None\<rparr>"

definition tiny_json :: "wal_entry serde" where
  "tiny_json = \<lparr>to_json = (\<lambda>e. Inr (as_bytes (wl_message e @ ''!''))),
     from_json = (\<lambda>b. if b = as_bytes ''a!'' then Inr (tiny_entry CHR ''a'')
        else if b = as_bytes ''b!'' then Inr (tiny_entry CHR ''b'') else Inl ''torn'')\<rparr>"

definition tiny_fs :: "(nat \<times> string) option list \<Rightarrow> wal_fs" where
  "tiny_fs faults = \<lparr>fs_dir = True, fs_files = [''w'' \<mapsto> []], fs_durable = [''w'' \<mapsto> []],
     fs_faults = faults, fs_dirsync = True\<rparr>"

lemma tiny_json_facts:
  "json_faithful tiny_json (tiny_entry CHR ''a'')" "json_faithful tiny_json (tiny_entry CHR ''b'')"
  by (simp_all add: json_faithful_def tiny_json_def tiny_entry_def as_bytes_def)

text \<open>
  C26: replay reads back what was appended. A segment that starts with the lines of a list of entries
  yields these entries first, in order, whatever follows them: a torn or corrupt tail costs no line
  before it.
\<close>

theorem wal_torn_tail:
  assumes "jsonl_faithful J es"
  shows "wal_entries J (jsonl_text J es @ t) = es @ wal_entries J t
    \<and> (NL \<notin> set t \<longrightarrow> length (wal_entries J t) \<le> 1)"
proof -
  have "NL \<notin> set t \<longrightarrow> length (wal_entries J t) \<le> 1"
    by (simp add: wal_entries_def wal_lines_def split_on_free map_filter_simps split: option.split)
  then show ?thesis using wal_entries_text [OF assms, of t] by simp
qed

theorem wal_torn_tail_witness:
  "wal_entries tiny_json (jsonl_text tiny_json [tiny_entry CHR ''a''] @ as_bytes ''b'') = [tiny_entry CHR ''a'']"
proof -
  have "wal_entries tiny_json (as_bytes ''b'') = []" by code_simp
  then show ?thesis
    using wal_torn_tail [of tiny_json "[tiny_entry CHR ''a'']" "as_bytes ''b''"] tiny_json_facts by simp
qed

text \<open>
  A write that fails half-way leaves its bytes in the segment, and the next append continues on the
  same line: the second entry is appended and synced without error, yet it cannot be read back.
\<close>

theorem partial_write_corrupts_next:
  "\<exists>seg1 fs1 seg2 fs2 seg3 fs3.
     wal_append tiny_json (tiny_entry CHR ''a'') \<lparr>seg_path = ''w'', seg_dirty = False\<rparr>
       (tiny_fs [Some (1, ''ENOSPC'')]) = (seg1, fs1, Inl ''ENOSPC'')
     \<and> wal_append tiny_json (tiny_entry CHR ''b'') seg1 fs1 = (seg2, fs2, Inr ())
     \<and> wal_sync seg2 fs2 = (seg3, fs3, Inr ())
     \<and> fs_durable fs3 ''w'' = Some (as_bytes ''ab!'' @ [NL])
     \<and> wal_entries tiny_json (as_bytes ''ab!'' @ [NL]) = []"
proof -
  have "wal_entries tiny_json (as_bytes ''ab!'' @ [NL]) = []" by code_simp
  then show ?thesis
    by (simp add: wal_append_def sys_write_all_def wal_sync_def sys_sync_data_def tiny_fs_def next_fault_def
        tiny_json_def tiny_entry_def as_bytes_def)
qed

end
