(* ===== verification/S4_Api.thy ===== *)
theory S4_Api
  imports S4_Prelude
begin

text \<open>
  The wire data of the gateway (\<^verbatim>\<open>s4logs-gateway/src/api.rs\<close>): the requests of the CloudWatch Logs
  subset, the two listing responses and the errors, with the HTTP status the code gives them.
\<close>

definition TARGET_PREFIX :: string where "TARGET_PREFIX = ''Logs_20140328.''"
definition AMZ_JSON_CONTENT_TYPE :: string where "AMZ_JSON_CONTENT_TYPE = ''application/x-amz-json-1.1''"

record input_log_event =
  ile_timestamp :: int
  ile_message :: string

record put_log_events_request =
  ple_log_group_name :: string
  ple_log_stream_name :: string
  ple_log_events :: "input_log_event list"
  ple_sequence_token :: "string option"

record create_log_group_request =
  clg_log_group_name :: string

record create_log_stream_request =
  cls_log_group_name :: string
  cls_log_stream_name :: string

record describe_log_groups_request =
  dlg_log_group_name_prefix :: "string option"
  dlg_limit :: "int option"
  dlg_next_token :: "string option"

definition describe_log_groups_request_default :: describe_log_groups_request where
  "describe_log_groups_request_default =
     \<lparr>dlg_log_group_name_prefix = None, dlg_limit = None, dlg_next_token = None\<rparr>"

record describe_log_streams_request =
  dls_log_group_name :: "string option"
  dls_log_group_identifier :: "string option"
  dls_log_stream_name_prefix :: "string option"
  dls_limit :: "int option"
  dls_next_token :: "string option"

record log_group_summary =
  lgs_log_group_name :: string
  lgs_creation_time :: int
  lgs_arn :: string

record describe_log_groups_response =
  dgr_log_groups :: "log_group_summary list"
  dgr_next_token :: "string option"

record log_stream_summary =
  lss_log_stream_name :: string
  lss_creation_time :: int

record describe_log_streams_response =
  dsr_log_streams :: "log_stream_summary list"
  dsr_next_token :: "string option"

text \<open>The status codes the gateway answers with.\<close>

datatype status_code =
  OK | BAD_REQUEST | FORBIDDEN | PAYLOAD_TOO_LARGE | INTERNAL_SERVER_ERROR | SERVICE_UNAVAILABLE

record api_error =
  ae_status :: status_code
  ae_kind :: string
  ae_message :: string

definition api_error_new :: "status_code \<Rightarrow> string \<Rightarrow> string \<Rightarrow> api_error" where
  "api_error_new st k m = \<lparr>ae_status = st, ae_kind = k, ae_message = m\<rparr>"

definition invalid_action :: "string \<Rightarrow> api_error" where
  "invalid_action target = api_error_new BAD_REQUEST ''InvalidAction'' (''unsupported action: '' @ target)"

definition missing_action :: api_error where
  "missing_action = api_error_new BAD_REQUEST ''MissingAction'' ''missing X-Amz-Target header''"

definition serialization :: "string \<Rightarrow> api_error" where
  "serialization err = api_error_new BAD_REQUEST ''SerializationException'' (''invalid request body: '' @ err)"

definition already_exists :: "string \<Rightarrow> api_error" where
  "already_exists what = api_error_new BAD_REQUEST ''ResourceAlreadyExistsException''
     (''The specified '' @ what @ '' already exists'')"

definition not_found :: "string \<Rightarrow> api_error" where
  "not_found what = api_error_new BAD_REQUEST ''ResourceNotFoundException''
     (''The specified '' @ what @ '' does not exist'')"

definition invalid_parameter :: "string \<Rightarrow> api_error" where
  "invalid_parameter m = api_error_new BAD_REQUEST ''InvalidParameterException'' m"

definition service_unavailable :: "string \<Rightarrow> api_error" where
  "service_unavailable m = api_error_new INTERNAL_SERVER_ERROR ''ServiceUnavailableException'' m"

definition backpressure :: api_error where
  "backpressure = api_error_new SERVICE_UNAVAILABLE ''ServiceUnavailableException''
     ''buffer memory cap exceeded; retry the batch''"

definition internal_failure :: "string \<Rightarrow> api_error" where
  "internal_failure m = api_error_new INTERNAL_SERVER_ERROR ''InternalFailure'' m"

definition invalid_signature :: "string \<Rightarrow> api_error" where
  "invalid_signature m = api_error_new FORBIDDEN ''InvalidSignatureException'' m"

definition missing_auth_token :: api_error where
  "missing_auth_token = api_error_new FORBIDDEN ''MissingAuthenticationTokenException'' ''Missing Authentication Token''"

text \<open>A response: status, content type and body. Bodies are produced by serde_json, an argument.\<close>

record response =
  rs_status :: status_code
  rs_content_type :: "string option"
  rs_body :: string

definition amz_json_body :: "status_code \<Rightarrow> string \<Rightarrow> response" where
  "amz_json_body st body = \<lparr>rs_status = st, rs_content_type = Some AMZ_JSON_CONTENT_TYPE, rs_body = body\<rparr>"

definition error_response :: "(api_error \<Rightarrow> string + string) \<Rightarrow> api_error \<Rightarrow> response" where
  "error_response ser e =
     amz_json_body (ae_status e)
       (case ser e of Inr body \<Rightarrow> body
        | Inl _ \<Rightarrow> ''{'' @ [CHR 0x22] @ ''__type'' @ [CHR 0x22] @ '':'' @ [CHR 0x22] @ ''InternalFailure'' @ [CHR 0x22]
            @ '','' @ [CHR 0x22] @ ''message'' @ [CHR 0x22] @ '':'' @ [CHR 0x22] @ ''error encode failed'' @ [CHR 0x22] @ ''}'')"

definition amz_json_ok :: "('a \<Rightarrow> string + string) \<Rightarrow> 'a \<Rightarrow> api_error + response" where
  "amz_json_ok ser v =
     (case ser v of
        Inl e \<Rightarrow> Inl (api_error_new INTERNAL_SERVER_ERROR ''InternalFailure'' (''response encode failed: '' @ e))
      | Inr body \<Rightarrow> Inr (amz_json_body OK body))"

end
