(* ===== verification/S4_Buffer.thy ===== *)
theory S4_Buffer
  imports S4_Wal S4_Api
begin

text \<open>
  The buffer manager of the gateway (\<^verbatim>\<open>s4logs-gateway/src/buffer.rs\<close>). Every section the code runs
  under the lock is one function; the functions a request, the sweep and the shutdown call are
  composed of them. Flushes happen outside the lock, so other sections can run between taking a
  buffer, storing its chunk and settling the outcome.
\<close>

section \<open>Data\<close>

datatype buffer_error = BChunk chunk_error | BSink sink_error | BWal string | OverCapacity

text \<open>Durations and instants are milliseconds.\<close>

record buffer_config =
  bc_account :: string
  bc_flush_bytes :: nat
  bc_flush_interval :: nat
  bc_chunk :: chunk_config
  bc_wal_dir :: "string option"
  bc_max_buffered_bytes :: nat

definition buffer_config_default :: buffer_config where
  "buffer_config_default = \<lparr>bc_account = ''000000000000'', bc_flush_bytes = 8 * 2 ^ 20,
     bc_flush_interval = 60000, bc_chunk = chunk_config_default, bc_wal_dir = None,
     bc_max_buffered_bytes = 256 * 2 ^ 20\<rparr>"

type_synonym buf_key = "string \<times> string"

record buf =
  b_writer :: chunk_writer
  b_first_event_ts_ms :: int
  b_opened_at :: nat
  b_wal :: "wal_segment option"

text \<open>
  The collaborators: the chunk sink with its probe, the third-party codecs, the random suffixes in
  the order they are drawn and the iteration order of the hash map.
\<close>

record ('s, 'dt) buffer_env =
  g_put :: "chunk_location \<Rightarrow> encoded_chunk \<Rightarrow> 's \<Rightarrow> 's \<times> (sink_error + put_receipt)"
  g_sink_ready :: "'s \<Rightarrow> 's \<times> bool"
  g_chunk :: chunk_env
  g_wjson :: "wal_entry serde"
  g_chrono :: "'dt chrono"
  g_uuid :: "nat \<Rightarrow> string"
  g_iter :: "(buf_key \<times> buf) list \<Rightarrow> (buf_key \<times> buf) list"

text \<open>
  The manager with the world its calls act on: the map of buffers, the ready bit, the store behind
  the sink, the WAL directory, the number of suffixes drawn, the clock and the two counters
  \<^verbatim>\<open>s4logs_flush_dropped_events_total\<close> and \<^verbatim>\<open>s4logs_backpressure_total\<close>.
\<close>

record 's buffer_manager =
  bm_buffers :: "(buf_key \<times> buf) list"
  bm_last_flush_ok :: bool
  bm_store :: 's
  bm_fs :: wal_fs
  bm_rng :: nat
  bm_now :: nat
  bm_dropped :: nat
  bm_backpressure :: nat

definition bm_new :: "'s \<Rightarrow> wal_fs \<Rightarrow> 's buffer_manager" where
  "bm_new s fs = \<lparr>bm_buffers = [], bm_last_flush_ok = True, bm_store = s, bm_fs = fs, bm_rng = 0,
     bm_now = 0, bm_dropped = 0, bm_backpressure = 0\<rparr>"

section \<open>The map of buffers\<close>

definition buf_set :: "buf_key \<Rightarrow> buf \<Rightarrow> (buf_key \<times> buf) list \<Rightarrow> (buf_key \<times> buf) list" where
  "buf_set k b m = (k, b) # filter (\<lambda>e. fst e \<noteq> k) m"

definition buf_remove :: "buf_key \<Rightarrow> (buf_key \<times> buf) list \<Rightarrow> (buf_key \<times> buf) list" where
  "buf_remove k m = filter (\<lambda>e. fst e \<noteq> k) m"

fun remove_entries ::
    "buf_key list \<Rightarrow> (buf_key \<times> buf) list \<Rightarrow> (buf_key \<times> buf) list \<times> (buf_key \<times> buf) list" where
  "remove_entries [] m = ([], m)"
| "remove_entries (k # ks) m =
     (case map_of m k of
        None \<Rightarrow> remove_entries ks m
      | Some b \<Rightarrow> (case remove_entries ks (buf_remove k m) of (taken, m') \<Rightarrow> ((k, b) # taken, m')))"

definition take_matching ::
    "('s, 'dt) buffer_env \<Rightarrow> (buf \<Rightarrow> bool) \<Rightarrow> (buf_key \<times> buf) list
     \<Rightarrow> (buf_key \<times> buf) list \<times> (buf_key \<times> buf) list" where
  "take_matching G pred m = remove_entries (map fst (filter (\<lambda>e. pred (snd e)) (g_iter G m))) m"

definition buf_len :: "buf_key \<times> buf \<Rightarrow> nat" where
  "buf_len e = uncompressed_len (b_writer (snd e))"

definition buffered_total :: "(buf_key \<times> buf) list \<Rightarrow> nat" where
  "buffered_total m = sum_list (map buf_len m)"

text \<open>\<^verbatim>\<open>max_by_key\<close>: the last of the largest elements.\<close>

fun max_by_key :: "('a \<Rightarrow> nat) \<Rightarrow> 'a list \<Rightarrow> 'a option" where
  "max_by_key f [] = None"
| "max_by_key f (x # xs) = Some (foldl (\<lambda>m y. if f m \<le> f y then y else m) x xs)"

definition largest_key :: "('s, 'dt) buffer_env \<Rightarrow> (buf_key \<times> buf) list \<Rightarrow> buf_key option" where
  "largest_key G m = map_option fst (max_by_key buf_len (g_iter G m))"

lemma buf_remove_shorter: "map_of m k = Some b \<Longrightarrow> length (buf_remove k m) < length m"
  unfolding buf_remove_def by (rule length_filter_less [of "(k, b)"]) (auto dest: map_of_SomeD)

text \<open>The cap loop of \<^verbatim>\<open>push_events\<close>: the largest buffers move to the due list until the rest fits.\<close>

function cap_loop ::
    "('s, 'dt) buffer_env \<Rightarrow> nat \<Rightarrow> (buf_key \<times> buf) list \<Rightarrow> (buf_key \<times> buf) list
     \<Rightarrow> (buf_key \<times> buf) list \<times> (buf_key \<times> buf) list" where
  "cap_loop G cap due m =
     (if buffered_total m > cap
      then case largest_key G m of
          None \<Rightarrow> (due, m)
        | Some k \<Rightarrow>
           (case map_of m k of
              None \<Rightarrow> (due, m)
            | Some b \<Rightarrow> cap_loop G cap (due @ [(k, b)]) (buf_remove k m))
      else (due, m))"
  by pat_completeness auto

termination
  by (relation "measure (\<lambda>(G, cap, due, m). length m)") (auto intro: buf_remove_shorter)

declare cap_loop.simps [simp del]

section \<open>Appending a record\<close>

definition wal_entry_of :: "string \<Rightarrow> log_record \<Rightarrow> wal_entry" where
  "wal_entry_of g r = \<lparr>wl_log_group = g, wl_timestamp = timestamp r, wl_stream = stream r,
     wl_message = message r, wl_ingestion_time = ingestion_time r\<rparr>"

definition rec_key :: "('s, 'dt) buffer_env \<Rightarrow> string \<Rightarrow> log_record \<Rightarrow> buf_key" where
  "rec_key G g r = (g, date_from_ts_ms (g_chrono G) (timestamp r))"

text \<open>The \<^verbatim>\<open>entry\<close> match of \<^verbatim>\<open>push_one\<close>: the buffer of a key, opened on first touch.\<close>

definition open_buf ::
    "('s, 'dt) buffer_env \<Rightarrow> buffer_config \<Rightarrow> buf_key \<Rightarrow> log_record \<Rightarrow> 's buffer_manager
     \<Rightarrow> 's buffer_manager \<times> (buffer_error + buf)" where
  "open_buf G c k r st =
     (case map_of (bm_buffers st) k of
        Some b \<Rightarrow> (st, Inr b)
      | None \<Rightarrow>
          let mk = (\<lambda>w. \<lparr>b_writer = cw_new (bc_chunk c), b_first_event_ts_ms = timestamp r,
                         b_opened_at = bm_now st, b_wal = w\<rparr>)
          in case bc_wal_dir c of
               None \<Rightarrow> (st\<lparr>bm_buffers := buf_set k (mk None) (bm_buffers st)\<rparr>, Inr (mk None))
             | Some _ \<Rightarrow>
                (case wal_create (fst k) (snd k) (g_uuid G (bm_rng st)) (bm_fs st) of
                   (fs', Inl e) \<Rightarrow> (st\<lparr>bm_fs := fs', bm_rng := bm_rng st + 1\<rparr>, Inl (BWal e))
                 | (fs', Inr seg) \<Rightarrow>
                     (st\<lparr>bm_fs := fs', bm_rng := bm_rng st + 1,
                         bm_buffers := buf_set k (mk (Some seg)) (bm_buffers st)\<rparr>, Inr (mk (Some seg)))))"

text \<open>The WAL append, before the push into the writer.\<close>

definition log_append ::
    "('s, 'dt) buffer_env \<Rightarrow> buf_key \<Rightarrow> log_record \<Rightarrow> buf \<Rightarrow> 's buffer_manager
     \<Rightarrow> 's buffer_manager \<times> (buffer_error + buf)" where
  "log_append G k r b st =
     (case b_wal b of
        None \<Rightarrow> (st, Inr b)
      | Some seg \<Rightarrow>
         (case wal_append (g_wjson G) (wal_entry_of (fst k) r) seg (bm_fs st) of
            (seg', fs', res) \<Rightarrow>
              let b' = b\<lparr>b_wal := Some seg'\<rparr>;
                  st' = st\<lparr>bm_fs := fs', bm_buffers := buf_set k b' (bm_buffers st)\<rparr>
              in (st', case res of Inl e \<Rightarrow> Inl (BWal e) | Inr _ \<Rightarrow> Inr b')))"

definition push_one ::
    "('s, 'dt) buffer_env \<Rightarrow> buffer_config \<Rightarrow> string \<Rightarrow> log_record \<Rightarrow> 's buffer_manager
     \<Rightarrow> 's buffer_manager \<times> (buffer_error + unit)" where
  "push_one G c g r st =
     (let k = rec_key G g r in
      case open_buf G c k r st of
        (st1, Inl e) \<Rightarrow> (st1, Inl e)
      | (st1, Inr b) \<Rightarrow>
         (case log_append G k r b st1 of
            (st2, Inl e) \<Rightarrow> (st2, Inl e)
          | (st2, Inr b1) \<Rightarrow>
             (case cw_push (g_chunk G) r (b_writer b1) of
                (w, res) \<Rightarrow>
                  (st2\<lparr>bm_buffers := buf_set k (b1\<lparr>b_writer := w\<rparr>) (bm_buffers st2)\<rparr>,
                   map_err BChunk res))))"

text \<open>\<^verbatim>\<open>push_one\<close> in a loop, ended by the first error; the records carry their log group.\<close>

fun push_loop ::
    "('s, 'dt) buffer_env \<Rightarrow> buffer_config \<Rightarrow> (string \<times> log_record) list \<Rightarrow> 's buffer_manager
     \<Rightarrow> 's buffer_manager \<times> (buffer_error + unit)" where
  "push_loop G c [] st = (st, Inr ())"
| "push_loop G c ((g, r) # xs) st =
     (case push_one G c g r st of
        (st1, Inl e) \<Rightarrow> (st1, Inl e)
      | (st1, Inr _) \<Rightarrow> push_loop G c xs st1)"

fun sync_loop :: "buf_key list \<Rightarrow> 's buffer_manager \<Rightarrow> 's buffer_manager \<times> (buffer_error + unit)" where
  "sync_loop [] st = (st, Inr ())"
| "sync_loop (k # ks) st =
     (case map_of (bm_buffers st) k of
        None \<Rightarrow> sync_loop ks st
      | Some b \<Rightarrow>
         (case b_wal b of
            None \<Rightarrow> sync_loop ks st
          | Some seg \<Rightarrow>
             (case wal_sync seg (bm_fs st) of
                (seg', fs', res) \<Rightarrow>
                  let st' = st\<lparr>bm_fs := fs', bm_buffers := buf_set k (b\<lparr>b_wal := Some seg'\<rparr>) (bm_buffers st)\<rparr>
                  in case res of Inl e \<Rightarrow> (st', Inl (BWal e)) | Inr _ \<Rightarrow> sync_loop ks st')))"

definition sync_wal ::
    "('s, 'dt) buffer_env \<Rightarrow> 's buffer_manager \<Rightarrow> 's buffer_manager \<times> (buffer_error + unit)" where
  "sync_wal G st = sync_loop (map fst (g_iter G (bm_buffers st))) st"

section \<open>Flushing\<close>

text \<open>
  A buffer on its way out: taken from the map, its chunk stored, or its flush failed with the chunk
  that was encoded, if any.
\<close>

datatype flight =
    Taken buf_key buf
  | Stored buf_key buf
  | Failed buf_key buf "encoded_chunk option" buffer_error

definition flush_location ::
    "('s, 'dt) buffer_env \<Rightarrow> buffer_config \<Rightarrow> buf_key \<Rightarrow> buf \<Rightarrow> nat \<Rightarrow> chunk_location" where
  "flush_location G c k b n = \<lparr>account = bc_account c, log_group = fst k, date = snd k,
     obj_name = show_int (b_first_event_ts_ms b) @ ''-'' @ g_uuid G n\<rparr>"

text \<open>The first half of \<^verbatim>\<open>flush_one\<close>: encode and put.\<close>

definition flush_send ::
    "('s, 'dt) buffer_env \<Rightarrow> buffer_config \<Rightarrow> buf_key \<Rightarrow> buf \<Rightarrow> 's buffer_manager
     \<Rightarrow> 's buffer_manager \<times> flight" where
  "flush_send G c k b st =
     (case cw_encode (g_chunk G) (b_writer b) of
        Inl e \<Rightarrow> (st, Failed k b None (BChunk e))
      | Inr None \<Rightarrow> (st, Stored k b)
      | Inr (Some chunk) \<Rightarrow>
         (case g_put G (flush_location G c k b (bm_rng st)) chunk (bm_store st) of
            (s', Inl e) \<Rightarrow> (st\<lparr>bm_store := s', bm_rng := bm_rng st + 1\<rparr>, Failed k b (Some chunk) (BSink e))
          | (s', Inr _) \<Rightarrow> (st\<lparr>bm_store := s', bm_rng := bm_rng st + 1\<rparr>, Stored k b)))"

fun merge_records :: "chunk_env \<Rightarrow> (record_error + log_record) list \<Rightarrow> chunk_writer \<Rightarrow> chunk_writer" where
  "merge_records E [] w = w"
| "merge_records E (Inl _ # xs) w = merge_records E xs w"
| "merge_records E (Inr r # xs) w = merge_records E xs (fst (cw_push E r w))"

definition reinsert ::
    "('s, 'dt) buffer_env \<Rightarrow> buf_key \<Rightarrow> buf \<Rightarrow> encoded_chunk option \<Rightarrow> 's buffer_manager \<Rightarrow> 's buffer_manager" where
  "reinsert G k b chunk st =
     (case map_of (bm_buffers st) k of
        None \<Rightarrow> st\<lparr>bm_buffers := buf_set k b (bm_buffers st)\<rparr>
      | Some dst \<Rightarrow>
          if b_wal b \<noteq> None then st
          else
            let dst1 = dst\<lparr>b_opened_at := min (b_opened_at dst) (b_opened_at b),
                           b_first_event_ts_ms := min (b_first_event_ts_ms dst) (b_first_event_ts_ms b)\<rparr>;
                merged = (case chunk of None \<Rightarrow> None
                   | Some ch \<Rightarrow> ok_of (decompress_frames (g_chunk G) (chunk_body ch) (uncompressed_bytes ch)))
            in case merged of
                 Some plain \<Rightarrow>
                   st\<lparr>bm_buffers := buf_set k
                        (dst1\<lparr>b_writer := merge_records (g_chunk G) (record_lines (json (g_chunk G)) plain) (b_writer dst1)\<rparr>)
                        (bm_buffers st)\<rparr>
               | None \<Rightarrow>
                   st\<lparr>bm_buffers := buf_set k dst1 (bm_buffers st),
                      bm_dropped := bm_dropped st + (case chunk of None \<Rightarrow> cw_record_count (b_writer b)
                                                     | Some ch \<Rightarrow> chunk_record_count ch)\<rparr>)"

text \<open>The second half of \<^verbatim>\<open>flush_one\<close>: retire the segment of a stored buffer, or put a failed one back.\<close>

definition delete_segment :: "buf \<Rightarrow> 's buffer_manager \<Rightarrow> 's buffer_manager" where
  "delete_segment b st = (case b_wal b of None \<Rightarrow> st | Some seg \<Rightarrow> st\<lparr>bm_fs := wal_delete seg (bm_fs st)\<rparr>)"

fun flush_settle ::
    "('s, 'dt) buffer_env \<Rightarrow> flight \<Rightarrow> 's buffer_manager \<Rightarrow> 's buffer_manager \<times> (buffer_error + unit)" where
  "flush_settle G (Taken k b) st = (st, Inr ())"
| "flush_settle G (Stored k b) st = (delete_segment b st, Inr ())"
| "flush_settle G (Failed k b chunk e) st = (reinsert G k b chunk st, Inl e)"

definition flush_one ::
    "('s, 'dt) buffer_env \<Rightarrow> buffer_config \<Rightarrow> buf_key \<Rightarrow> buf \<Rightarrow> 's buffer_manager
     \<Rightarrow> 's buffer_manager \<times> (buffer_error + unit)" where
  "flush_one G c k b st = (case flush_send G c k b st of (st1, fl) \<Rightarrow> flush_settle G fl st1)"

fun flush_loop ::
    "('s, 'dt) buffer_env \<Rightarrow> buffer_config \<Rightarrow> (buf_key \<times> buf) list \<Rightarrow> buffer_error option \<Rightarrow> 's buffer_manager
     \<Rightarrow> 's buffer_manager \<times> buffer_error option" where
  "flush_loop G c [] first_err st = (st, first_err)"
| "flush_loop G c ((k, b) # bs) first_err st =
     (case flush_one G c k b st of
        (st1, Inl e) \<Rightarrow>
          flush_loop G c bs (case first_err of None \<Rightarrow> Some e | Some e0 \<Rightarrow> Some e0) (st1\<lparr>bm_last_flush_ok := False\<rparr>)
      | (st1, Inr _) \<Rightarrow> flush_loop G c bs first_err (st1\<lparr>bm_last_flush_ok := True\<rparr>))"

definition flush_taken ::
    "('s, 'dt) buffer_env \<Rightarrow> buffer_config \<Rightarrow> (buf_key \<times> buf) list \<Rightarrow> 's buffer_manager
     \<Rightarrow> 's buffer_manager \<times> (buffer_error + unit)" where
  "flush_taken G c taken st =
     (case flush_loop G c taken None st of
        (st1, None) \<Rightarrow> (st1, Inr ())
      | (st1, Some e) \<Rightarrow> (st1, Inl e))"

section \<open>The entry points\<close>

text \<open>The two locked sections of \<^verbatim>\<open>reserve\<close> and their composition.\<close>

definition reserve_take ::
    "('s, 'dt) buffer_env \<Rightarrow> buffer_config \<Rightarrow> nat \<Rightarrow> 's buffer_manager
     \<Rightarrow> 's buffer_manager \<times> (buf_key \<times> buf) option option" where
  "reserve_take G c incoming st =
     (if buffered_total (bm_buffers st) + incoming \<le> bc_max_buffered_bytes c then (st, None)
      else case largest_key G (bm_buffers st) of
        None \<Rightarrow> (st, Some None)
      | Some k \<Rightarrow>
         (case map_of (bm_buffers st) k of
            None \<Rightarrow> (st, Some None)
          | Some b \<Rightarrow> (st\<lparr>bm_buffers := buf_remove k (bm_buffers st)\<rparr>, Some (Some (k, b)))))"

definition reserve_check ::
    "buffer_config \<Rightarrow> nat \<Rightarrow> 's buffer_manager \<Rightarrow> 's buffer_manager \<times> (buffer_error + unit)" where
  "reserve_check c incoming st =
     (if buffered_total (bm_buffers st) + incoming > bc_max_buffered_bytes c
      then (st\<lparr>bm_backpressure := bm_backpressure st + 1\<rparr>, Inl OverCapacity)
      else (st, Inr ()))"

definition reserve ::
    "('s, 'dt) buffer_env \<Rightarrow> buffer_config \<Rightarrow> nat \<Rightarrow> 's buffer_manager
     \<Rightarrow> 's buffer_manager \<times> (buffer_error + unit)" where
  "reserve G c incoming st =
     (case reserve_take G c incoming st of
        (st1, None) \<Rightarrow> (st1, Inr ())
      | (st1, Some None) \<Rightarrow> reserve_check c incoming st1
      | (st1, Some (Some e)) \<Rightarrow> reserve_check c incoming (fst (flush_taken G c [e] st1)))"

definition record_of_input :: "string \<Rightarrow> input_log_event \<Rightarrow> log_record" where
  "record_of_input strm ev = \<lparr>timestamp = ile_timestamp ev, stream = strm, message = ile_message ev,
     ingestion_time = None, event_id = None\<rparr>"

text \<open>The locked section of \<^verbatim>\<open>push_events\<close>: append, sync, and take what is due.\<close>

definition accept_batch ::
    "('s, 'dt) buffer_env \<Rightarrow> buffer_config \<Rightarrow> (string \<times> log_record) list \<Rightarrow> 's buffer_manager
     \<Rightarrow> 's buffer_manager \<times> (buffer_error + (buf_key \<times> buf) list)" where
  "accept_batch G c xs st =
     (case push_loop G c xs st of
        (st1, Inl e) \<Rightarrow> (st1, Inl e)
      | (st1, Inr _) \<Rightarrow>
         (case sync_wal G st1 of
            (st2, Inl e) \<Rightarrow> (st2, Inl e)
          | (st2, Inr _) \<Rightarrow>
             (case take_matching G (\<lambda>b. uncompressed_len (b_writer b) \<ge> bc_flush_bytes c) (bm_buffers st2) of
                (due, m) \<Rightarrow>
                  (case cap_loop G (bc_max_buffered_bytes c) due m of
                     (due', m') \<Rightarrow> (st2\<lparr>bm_buffers := m'\<rparr>, Inr due')))))"

definition batch_size :: "string \<Rightarrow> input_log_event list \<Rightarrow> nat" where
  "batch_size strm events = sum_list (map (\<lambda>ev. length (ile_message ev) + length strm + 64) events)"

definition push_events ::
    "('s, 'dt) buffer_env \<Rightarrow> buffer_config \<Rightarrow> string \<Rightarrow> string \<Rightarrow> input_log_event list \<Rightarrow> 's buffer_manager
     \<Rightarrow> 's buffer_manager \<times> (buffer_error + unit)" where
  "push_events G c g strm events st =
     (case reserve G c (batch_size strm events) st of
        (st1, Inl e) \<Rightarrow> (st1, Inl e)
      | (st1, Inr _) \<Rightarrow>
         (case accept_batch G c (map (\<lambda>ev. (g, record_of_input strm ev)) events) st1 of
            (st2, Inl e) \<Rightarrow> (st2, Inl e)
          | (st2, Inr due) \<Rightarrow> (fst (flush_taken G c due st2), Inr ())))"

definition sweep_expired ::
    "('s, 'dt) buffer_env \<Rightarrow> buffer_config \<Rightarrow> 's buffer_manager \<Rightarrow> 's buffer_manager" where
  "sweep_expired G c st =
     (case take_matching G (\<lambda>b. bm_now st - b_opened_at b \<ge> bc_flush_interval c) (bm_buffers st) of
        (due, m) \<Rightarrow> fst (flush_taken G c due (st\<lparr>bm_buffers := m\<rparr>)))"

definition flush_all ::
    "('s, 'dt) buffer_env \<Rightarrow> buffer_config \<Rightarrow> 's buffer_manager \<Rightarrow> 's buffer_manager \<times> (buffer_error + unit)" where
  "flush_all G c st =
     (case take_matching G (\<lambda>_. True) (bm_buffers st) of
        (due, m) \<Rightarrow> flush_taken G c due (st\<lparr>bm_buffers := m\<rparr>))"

definition bm_ready :: "('s, 'dt) buffer_env \<Rightarrow> 's buffer_manager \<Rightarrow> 's buffer_manager \<times> bool" where
  "bm_ready G st =
     (if \<not> bm_last_flush_ok st then (st, False)
      else case g_sink_ready G (bm_store st) of (s', ok) \<Rightarrow> (st\<lparr>bm_store := s'\<rparr>, ok))"

text \<open>Replay: the entries of the surviving segments go through \<^verbatim>\<open>push_one\<close> again.\<close>

definition record_of_entry :: "wal_entry \<Rightarrow> log_record" where
  "record_of_entry e = \<lparr>timestamp = wl_timestamp e, stream = wl_stream e, message = wl_message e,
     ingestion_time = wl_ingestion_time e, event_id = None\<rparr>"

definition replay_records :: "(string \<times> wal_entry list) list \<Rightarrow> (string \<times> log_record) list" where
  "replay_records segs = concat (map (\<lambda>(_, es). map (\<lambda>e. (wl_log_group e, record_of_entry e)) es) segs)"

fun remove_all :: "string list \<Rightarrow> wal_fs \<Rightarrow> wal_fs" where
  "remove_all [] fs = fs"
| "remove_all (p # ps) fs = remove_all ps (fst (sys_remove_file p fs))"

definition replay_section ::
    "('s, 'dt) buffer_env \<Rightarrow> buffer_config \<Rightarrow> (string \<times> wal_entry list) list \<Rightarrow> 's buffer_manager
     \<Rightarrow> 's buffer_manager \<times> (buffer_error + (buf_key \<times> buf) list)" where
  "replay_section G c segs st =
     (case push_loop G c (replay_records segs) st of
        (st1, Inl e) \<Rightarrow> (st1, Inl e)
      | (st1, Inr _) \<Rightarrow>
         (case sync_wal G st1 of
            (st2, Inl e) \<Rightarrow> (st2, Inl e)
          | (st2, Inr _) \<Rightarrow>
              let st3 = st2\<lparr>bm_fs := remove_all (map fst segs) (bm_fs st2)\<rparr> in
              (case take_matching G (\<lambda>b. uncompressed_len (b_writer b) \<ge> bc_flush_bytes c) (bm_buffers st3) of
                 (due, m) \<Rightarrow> (st3\<lparr>bm_buffers := m\<rparr>, Inr due))))"

definition replay_wal ::
    "('s, 'dt) buffer_env \<Rightarrow> buffer_config \<Rightarrow> 's buffer_manager \<Rightarrow> 's buffer_manager \<times> (buffer_error + nat)" where
  "replay_wal G c st =
     (case bc_wal_dir c of
        None \<Rightarrow> (st, Inr 0)
      | Some _ \<Rightarrow>
         (case scan_dir (g_wjson G) (bm_fs st) of
            (fs', Inl e) \<Rightarrow> (st\<lparr>bm_fs := fs'\<rparr>, Inl (BWal e))
          | (fs', Inr []) \<Rightarrow> (st\<lparr>bm_fs := fs'\<rparr>, Inr 0)
          | (fs', Inr segs) \<Rightarrow>
             (case replay_section G c segs (st\<lparr>bm_fs := fs'\<rparr>) of
                (st1, Inl e) \<Rightarrow> (st1, Inl e)
              | (st1, Inr due) \<Rightarrow>
                 (case flush_taken G c due st1 of
                    (st2, Inl e) \<Rightarrow> (st2, Inl e)
                  | (st2, Inr _) \<Rightarrow> (st2, Inr (length (replay_records segs)))))))"

section \<open>What a buffer holds\<close>

lemma cut_frame_Inl:
  assumes "snd (cut_frame E w) = Inl e"
  shows "fst (cut_frame E w) = w"
proof (cases "pending w = [] \<or> (\<exists>m. compress_frame E (pending w) (zstd_level (cfg w)) = Inl m)")
  case True
  then show ?thesis by (auto simp: cut_frame_def)
next
  case False
  then obtain z where "compress_frame E (pending w) (zstd_level (cfg w)) = Inr z"
    by (cases "compress_frame E (pending w) (zstd_level (cfg w))") auto
  then have "snd (cut_frame E w) = Inr ()" using False by (simp add: cut_frame_def)
  then show ?thesis using assms by simp
qed

lemma writer_has_push_any:
  assumes "writer_has E w rs" and "json_faithful (json E) r"
  shows "writer_has E (fst (cw_push E r w)) (rs @ [r])"
proof (cases "snd (cw_push E r w)")
  case (Inr u)
  then show ?thesis using writer_has_push [OF assms(1)] by (metis prod.collapse)
next
  case (Inl e)
  obtain fs zs pd where h: "writer_holds E w fs zs pd" "concat fs @ pd = rs"
    using assms(1) by (auto simp: writer_has_def)
  define w1 where "w1 = w\<lparr>pending := pending w @ jsonl_line (json E) r,
     pending_min_ts := min (pending_min_ts w) (timestamp r),
     pending_max_ts := max (pending_max_ts w) (timestamp r), pending_records := pending_records w + 1\<rparr>"
  have p: "cw_push E r w = (if length (pending w1) \<ge> frame_target_bytes (cfg w1) then cut_frame E w1 else (w1, Inr ()))"
    unfolding cw_push_def append_jsonl_faithful [OF assms(2)] sum.case Let_def w1_def ..
  have "fst (cw_push E r w) = w1"
    using Inl cut_frame_Inl [of E w1 e] unfolding p by (simp split: if_splits)
  moreover have "writer_holds E w1 fs zs (pd @ [r])"
    using h(1) faithful_encodable [OF assms(2)] by (auto simp: writer_holds_def w1_def)
  ultimately show ?thesis using h(2) by (auto simp: writer_has_def intro!: exI [of _ fs] exI [of _ zs] exI [of _ "pd @ [r]"])
qed

lemma merge_records_has:
  assumes "writer_has E w rs" and "jsonl_faithful (json E) ss"
  shows "writer_has E (merge_records E (map Inr ss) w) (rs @ ss)"
  using assms
proof (induction ss arbitrary: w rs)
  case (Cons r ss)
  then show ?case using writer_has_push_any [of E w rs r] Cons.IH [of "fst (cw_push E r w)" "rs @ [r]"] by simp
qed simp

text \<open>
  \<open>okr g r\<close>: a record the JSON codecs carry faithfully, in a group whose name is a Rust string.
  \<open>buf_has\<close>: the records of a buffer, all of them of the buffer's group and date.
\<close>

definition buf_has ::
    "('s, 'dt) buffer_env \<Rightarrow> (string \<Rightarrow> log_record \<Rightarrow> bool) \<Rightarrow> buf_key \<Rightarrow> buf \<Rightarrow> log_record list \<Rightarrow> bool" where
  "buf_has G okr k b rs \<longleftrightarrow> writer_has (g_chunk G) (b_writer b) rs
     \<and> (\<forall>r \<in> set rs. rec_key G (fst k) r = k \<and> okr (fst k) r)"

definition epath :: "buf_key \<times> buf \<Rightarrow> string option" where
  "epath e = map_option seg_path (b_wal (snd e))"

definition paths :: "(buf_key \<times> buf) list \<Rightarrow> string list" where
  "paths es = List.map_filter epath es"

definition live_ok ::
    "('s, 'dt) buffer_env \<Rightarrow> buffer_config \<Rightarrow> (string \<Rightarrow> log_record \<Rightarrow> bool) \<Rightarrow> wal_fs \<Rightarrow> buf_key \<times> buf \<Rightarrow> bool" where
  "live_ok G c okr fs e \<longleftrightarrow> (\<exists>rs. buf_has G okr (fst e) (snd e) rs)
     \<and> (case b_wal (snd e) of None \<Rightarrow> bc_wal_dir c = None | Some seg \<Rightarrow> bc_wal_dir c \<noteq> None \<and> seg_ok fs seg)"

text \<open>The record \<open>r\<close> of group \<open>g\<close> is in the buffer \<open>e\<close> and, with a WAL, among the entries \<open>D\<close> of its segment.\<close>

definition in_buf ::
    "('s, 'dt) buffer_env \<Rightarrow> (string \<Rightarrow> log_record \<Rightarrow> bool) \<Rightarrow> (string \<Rightarrow> wal_entry set) \<Rightarrow> buf_key \<times> buf
     \<Rightarrow> string \<times> log_record \<Rightarrow> bool" where
  "in_buf G okr D e x \<longleftrightarrow> fst (fst e) = fst x \<and> (\<exists>rs. buf_has G okr (fst e) (snd e) rs \<and> snd x \<in> set rs)
     \<and> (case epath e of None \<Rightarrow> True | Some p \<Rightarrow> wal_entry_of (fst x) (snd x) \<in> D p)"

lemma paths_simps [simp]:
  "paths [] = []" "paths (e # es) = (case epath e of None \<Rightarrow> [] | Some p \<Rightarrow> [p]) @ paths es"
  "paths (es @ fs) = paths es @ paths fs"
  by (auto simp: paths_def map_filter_def split: option.splits)

lemma paths_mset: "mset es = mset es' \<Longrightarrow> mset (paths es) = mset (paths es')"
  by (simp add: paths_def map_filter_def flip: mset_filter mset_map)
    (metis (no_types, lifting) mset_filter mset_map)

lemma paths_set: "set (paths es) = {p. \<exists>e \<in> set es. epath e = Some p}"
  by (auto simp: paths_def map_filter_def image_iff) force

lemma live_ok_frame:
  assumes "live_ok G c okr fs e" and "fs_frame p fs fs'" and "epath e \<noteq> Some p"
  shows "live_ok G c okr fs' e"
  using assms fs_frame_seg_ok [OF assms(2)] by (auto simp: live_ok_def epath_def split: option.splits)

lemma live_ok_files: "live_ok G c okr fs e \<Longrightarrow> epath e = Some p \<Longrightarrow> fs_files fs p \<noteq> None"
  by (auto simp: live_ok_def epath_def seg_ok_def split: option.splits)

lemma in_buf_mono:
  "in_buf G okr D e x \<Longrightarrow> (\<And>p. epath e = Some p \<Longrightarrow> D p \<subseteq> D' p) \<Longrightarrow> in_buf G okr D' e x"
  by (auto simp: in_buf_def split: option.splits)

section \<open>The map of buffers\<close>

lemma buf_set_Some:
  assumes "distinct (map fst m)" and "map_of m k = Some b"
  shows "mset m = mset ((k, b) # buf_remove k m)"
  using assms
proof (induction m)
  case (Cons e m)
  show ?case
  proof (cases "fst e = k")
    case True
    then have "filter (\<lambda>x. fst x \<noteq> k) m = m" using Cons.prems(1) by (auto simp: filter_id_conv rev_image_eqI)
    then show ?thesis using True Cons.prems by (cases e) (auto simp: buf_remove_def)
  next
    case False
    then show ?thesis using Cons by (cases e) (auto simp: buf_remove_def)
  qed
qed simp

lemma buf_remove_None: "map_of m k = None \<Longrightarrow> buf_remove k m = m"
  by (auto simp: buf_remove_def filter_id_conv map_of_eq_None_iff rev_image_eqI)

lemma buf_set_keys: "distinct (map fst m) \<Longrightarrow> distinct (map fst (buf_set k b m))"
  by (auto simp: buf_set_def distinct_map inj_on_def)

lemma buf_remove_keys: "distinct (map fst m) \<Longrightarrow> distinct (map fst (buf_remove k m))"
  by (auto simp: buf_remove_def distinct_map inj_on_def)

lemma map_of_buf_set [simp]: "map_of (buf_set k b m) k' = (if k' = k then Some b else map_of m k')"
  by (induction m) (auto simp: buf_set_def)

lemma buf_set_eq: "buf_set k b m = (k, b) # buf_remove k m"
  by (simp add: buf_set_def buf_remove_def)

lemma buf_set_twice [simp]: "buf_set k b (buf_set k b' m) = buf_set k b m"
  by (simp add: buf_set_def)

lemma remove_entries_mset:
  assumes "distinct (map fst m)" and "remove_entries ks m = (taken, m')"
  shows "mset m = mset taken + mset m' \<and> distinct (map fst m')"
  using assms
proof (induction ks m arbitrary: taken m' rule: remove_entries.induct)
  case (2 k ks m)
  show ?case
  proof (cases "map_of m k")
    case None
    then show ?thesis using 2 by simp
  next
    case (Some b)
    obtain t where t: "remove_entries ks (buf_remove k m) = (t, m')" "taken = (k, b) # t"
      using 2(4) Some by (auto split: prod.splits)
    from 2(2) [OF Some buf_remove_keys [OF 2(3)] t(1)] buf_set_Some [OF 2(3) Some] t(2)
    show ?thesis by simp
  qed
qed simp

lemma cap_loop_mset:
  assumes "distinct (map fst m)" and "cap_loop G cap due m = (due', m')"
  shows "mset due + mset m = mset due' + mset m' \<and> distinct (map fst m')"
  using assms
proof (induction G cap due m rule: cap_loop.induct)
  case (1 G cap due m)
  show ?case
  proof (cases "cap < buffered_total m \<and> largest_key G m \<noteq> None \<and> map_of m (the (largest_key G m)) \<noteq> None")
    case False
    then show ?thesis using 1(2,3) by (subst (asm) cap_loop.simps) (auto split: if_splits option.splits)
  next
    case True
    then obtain k b where k: "largest_key G m = Some k" "map_of m k = Some b" by auto
    then have "cap_loop G cap (due @ [(k, b)]) (buf_remove k m) = (due', m')"
      using 1(3) True by (subst (asm) cap_loop.simps) simp
    from 1(1) [OF _ k buf_remove_keys [OF 1(2)] this] True buf_set_Some [OF 1(2) k(2)]
    show ?thesis by simp
  qed
qed

lemma max_by_key_in: "max_by_key f xs = Some x \<Longrightarrow> x \<in> set xs"
proof (induction xs arbitrary: x rule: rev_induct)
  case (snoc y ys)
  then show ?case by (cases ys) (auto split: if_splits)
qed simp

text \<open>The loop ends with the cap respected, for any iteration order of the map.\<close>

lemma cap_loop_cap:
  assumes "\<And>m. mset (g_iter G m) = mset m" and "cap_loop G cap due m = (due', m')"
  shows "buffered_total m' \<le> cap"
  using assms
proof (induction G cap due m rule: cap_loop.induct)
  case (1 G cap due m)
  show ?case
  proof (cases "cap < buffered_total m")
    case False
    then show ?thesis using 1(3) by (subst (asm) cap_loop.simps) auto
  next
    case True
    have it: "set (g_iter G m) = set m" using 1(2) by (metis set_mset_mset)
    have "m \<noteq> []" using True by (auto simp: buffered_total_def)
    then have "g_iter G m \<noteq> []" using it by auto
    then obtain e where e: "max_by_key buf_len (g_iter G m) = Some e" by (cases "g_iter G m") auto
    then have "e \<in> set m" using max_by_key_in [OF e] it by simp
    then obtain b where b: "map_of m (fst e) = Some b"
      by (cases "map_of m (fst e)") (auto simp: map_of_eq_None_iff)
    have k: "largest_key G m = Some (fst e)" using e by (simp add: largest_key_def)
    have "cap_loop G cap (due @ [(fst e, b)]) (buf_remove (fst e) m) = (due', m')"
      using 1(3) True k b by (subst (asm) cap_loop.simps) simp
    from 1(1) [OF True k b 1(2) this] show ?thesis .
  qed
qed

end
