(* ===== verification/S4_Accept.thy ===== *)
theory S4_Accept
  imports S4_Buffer
begin

text \<open>
  The accepting half of the buffer manager: the state of the gateway with its buffers in flight, its
  well-formedness, and what appending a batch and syncing the WAL keep (\<^verbatim>\<open>push_one\<close>, \<^verbatim>\<open>sync_wal\<close> and the
  locked section of \<^verbatim>\<open>push_events\<close> of \<^verbatim>\<open>s4logs-gateway/src/buffer.rs\<close>).
\<close>

section \<open>The state of the gateway\<close>

text \<open>The buffers on their way out, and those whose records have not been stored.\<close>

fun fl_entry :: "flight \<Rightarrow> buf_key \<times> buf" where
  "fl_entry (Taken k b) = (k, b)"
| "fl_entry (Stored k b) = (k, b)"
| "fl_entry (Failed k b ch e) = (k, b)"

fun is_stored :: "flight \<Rightarrow> bool" where
  "is_stored (Stored k b) = True"
| "is_stored _ = False"

definition live :: "'s buffer_manager \<Rightarrow> flight list \<Rightarrow> (buf_key \<times> buf) list" where
  "live bm fls = bm_buffers bm @ map fl_entry fls"

definition pool :: "'s buffer_manager \<Rightarrow> flight list \<Rightarrow> (buf_key \<times> buf) list" where
  "pool bm fls = bm_buffers bm @ map fl_entry (filter (\<lambda>f. \<not> is_stored f) fls)"

definition failed_ok :: "('s, 'dt) buffer_env \<Rightarrow> flight \<Rightarrow> bool" where
  "failed_ok G f \<longleftrightarrow> (\<forall>k b ch e. f = Failed k b (Some ch) e \<longrightarrow> cw_encode (g_chunk G) (b_writer b) = Inr (Some ch))"

definition gw_wf ::
    "('s, 'dt) buffer_env \<Rightarrow> buffer_config \<Rightarrow> (string \<Rightarrow> log_record \<Rightarrow> bool) \<Rightarrow> 's buffer_manager \<Rightarrow> flight list \<Rightarrow> bool" where
  "gw_wf G c okr bm fls \<longleftrightarrow> fs_ok (g_wjson G) (bm_fs bm) \<and> distinct (map fst (bm_buffers bm))
     \<and> distinct (paths (live bm fls)) \<and> (\<forall>e \<in> set (live bm fls). live_ok G c okr (bm_fs bm) e)
     \<and> (\<forall>f \<in> set fls. failed_ok G f)"

text \<open>In memory (and, with a WAL, among the entries \<open>D\<close>), or in a segment no buffer owns any more.\<close>

definition in_memory ::
    "('s, 'dt) buffer_env \<Rightarrow> (string \<Rightarrow> log_record \<Rightarrow> bool) \<Rightarrow> (wal_entry serde \<Rightarrow> wal_fs \<Rightarrow> string \<Rightarrow> wal_entry set)
     \<Rightarrow> 's buffer_manager \<Rightarrow> flight list \<Rightarrow> string \<times> log_record \<Rightarrow> bool" where
  "in_memory G okr D bm fls x \<longleftrightarrow> (\<exists>e \<in> set (pool bm fls). in_buf G okr (D (g_wjson G) (bm_fs bm)) e x)"

definition orphaned ::
    "('s, 'dt) buffer_env \<Rightarrow> 's buffer_manager \<Rightarrow> flight list \<Rightarrow> string \<times> log_record \<Rightarrow> bool" where
  "orphaned G bm fls x \<longleftrightarrow> (\<exists>p. fs_files (bm_fs bm) p \<noteq> None \<and> p \<notin> set (paths (live bm fls))
     \<and> wal_entry_of (fst x) (snd x) \<in> dur_entries (g_wjson G) (bm_fs bm) p)"

text \<open>A file that belongs to no buffer.\<close>

definition unowned :: "'s buffer_manager \<Rightarrow> flight list \<Rightarrow> string \<Rightarrow> bool" where
  "unowned bm fls p \<longleftrightarrow> fs_files (bm_fs bm) p \<noteq> None \<and> p \<notin> set (paths (live bm fls))"

lemma pool_live: "e \<in> set (pool bm fls) \<Longrightarrow> e \<in> set (live bm fls)"
  by (auto simp: pool_def live_def)

text \<open>The records a law-abiding environment carries.\<close>

definition gw_laws :: "('s, 'dt) buffer_env \<Rightarrow> buffer_config \<Rightarrow> (string \<Rightarrow> log_record \<Rightarrow> bool) \<Rightarrow> bool" where
  "gw_laws G c okr \<longleftrightarrow> zstd_faithful (g_chunk G) \<and> (\<forall>m. mset (g_iter G m) = mset m)
     \<and> (\<forall>g r. okr g r \<longrightarrow> json_faithful (json (g_chunk G)) r \<and> json_faithful (g_wjson G) (wal_entry_of g r) \<and> utf8_ok g)
     \<and> CHR ''/'' \<notin> set (bc_account c) \<and> (\<forall>t. CHR ''/'' \<notin> set (date_from_ts_ms (g_chrono G) t))
     \<and> (\<forall>n. CHR ''/'' \<notin> set (g_uuid G n) \<and> CHR ''-'' \<notin> set (g_uuid G n))"

section \<open>Replacing one buffer\<close>

text \<open>
  One lemma for all sections that rewrite the buffer of one key: the buffer keeps its records and its
  segment, and the operation on the segment leaves the other files alone.
\<close>

definition same_or_none :: "string option \<Rightarrow> wal_fs \<Rightarrow> wal_fs \<Rightarrow> bool" where
  "same_or_none po fs fs' \<longleftrightarrow> (case po of None \<Rightarrow> fs' = fs | Some p \<Rightarrow> fs_frame p fs fs')"

lemma live_buf_set:
  assumes "distinct (map fst (bm_buffers bm))" and "map_of (bm_buffers bm) k = Some b"
  shows "mset (live bm fls) = mset ((k, b) # buf_remove k (bm_buffers bm) @ map fl_entry fls)"
  using buf_set_Some [OF assms] by (simp add: live_def)

lemma distinct_mset: "mset xs = mset ys \<Longrightarrow> distinct xs = distinct ys"
  by (rule mset_eq_imp_distinct_iff)

lemma others_frame:
  assumes "same_or_none po fs fs'" and "live_ok G c okr fs e" and "\<And>p. po = Some p \<Longrightarrow> epath e \<noteq> Some p"
  shows "live_ok G c okr fs' e"
    and "in_buf G okr (dur_entries J fs) e x \<Longrightarrow> in_buf G okr (dur_entries J fs') e x"
    and "in_buf G okr (cur_entries J fs) e x \<Longrightarrow> in_buf G okr (cur_entries J fs') e x"
proof -
  have "live_ok G c okr fs' e \<and> (in_buf G okr (dur_entries J fs) e x \<longrightarrow> in_buf G okr (dur_entries J fs') e x)
    \<and> (in_buf G okr (cur_entries J fs) e x \<longrightarrow> in_buf G okr (cur_entries J fs') e x)"
  proof (cases po)
    case (Some p)
    then have f: "fs_frame p fs fs'" and ne: "epath e \<noteq> Some p" using assms by (auto simp: same_or_none_def)
    have q: "cur_entries J fs q \<subseteq> cur_entries J fs' q \<and> dur_entries J fs q \<subseteq> dur_entries J fs' q"
      if "epath e = Some q" for q
    proof -
      have "q \<noteq> p" "fs_files fs q \<noteq> None" using that ne live_ok_files [OF assms(2) that] by auto
      then show ?thesis using fs_frame_entries [OF f, of q J] by blast
    qed
    show ?thesis using live_ok_frame [OF assms(2) f ne] in_buf_mono q by blast
  qed (use assms in \<open>auto simp: same_or_none_def\<close>)
  then show "live_ok G c okr fs' e"
    and "in_buf G okr (dur_entries J fs) e x \<Longrightarrow> in_buf G okr (dur_entries J fs') e x"
    and "in_buf G okr (cur_entries J fs) e x \<Longrightarrow> in_buf G okr (cur_entries J fs') e x" by blast+
qed

lemma gw_wf_paths:
  assumes "gw_wf G c okr bm fls" and "map_of (bm_buffers bm) k = Some b" and "epath (k, b) = Some p"
    and "e \<in> set (buf_remove k (bm_buffers bm) @ map fl_entry fls)"
  shows "epath e \<noteq> Some p"
proof -
  have "distinct (paths ((k, b) # buf_remove k (bm_buffers bm) @ map fl_entry fls))"
    using assms(1) distinct_mset [OF paths_mset [OF live_buf_set [OF _ assms(2)]]]
    by (simp add: gw_wf_def del: paths_simps)
  then have "p \<notin> set (paths (buf_remove k (bm_buffers bm) @ map fl_entry fls))" using assms(3) by simp
  then show ?thesis using assms(4) unfolding paths_set by blast
qed

lemma replace_buf:
  assumes wf: "gw_wf G c okr bm fls" and b: "map_of (bm_buffers bm) k = Some b"
    and bm': "bm' = bm\<lparr>bm_fs := fs', bm_buffers := buf_set k b' (bm_buffers bm)\<rparr>"
    and ep: "epath (k, b') = epath (k, b)" and fr: "same_or_none (epath (k, b)) (bm_fs bm) fs'"
    and ok: "fs_ok (g_wjson G) fs'" and lok: "live_ok G c okr fs' (k, b')"
    and grow: "\<And>rs. buf_has G okr k b rs \<Longrightarrow> \<exists>rs'. buf_has G okr k b' rs' \<and> set rs \<subseteq> set rs'"
    and D: "D = dur_entries \<or> D = cur_entries"
    and Dgrow: "\<And>p. epath (k, b) = Some p \<Longrightarrow> D (g_wjson G) (bm_fs bm) p \<subseteq> D (g_wjson G) fs' p"
  shows "gw_wf G c okr bm' fls" and "in_memory G okr D bm fls x \<Longrightarrow> in_memory G okr D bm' fls x"
    and "unowned bm fls q \<Longrightarrow> unowned bm' fls q \<and> dur_entries (g_wjson G) (bm_fs bm) q \<subseteq> dur_entries (g_wjson G) fs' q"
proof -
  let ?rest = "buf_remove k (bm_buffers bm) @ map fl_entry fls"
  have dk: "distinct (map fst (bm_buffers bm))" using wf by (simp add: gw_wf_def)
  note ms = live_buf_set [OF dk b, of fls]
  have liv: "set (live bm fls) = insert (k, b) (set ?rest)" using arg_cong [OF ms, of set_mset] by simp
  have pl: "set (pool bm fls) = insert (k, b) (set (buf_remove k (bm_buffers bm) @ map fl_entry (filter (\<lambda>f. \<not> is_stored f) fls)))"
    using arg_cong [OF buf_set_Some [OF dk b], of set_mset] by (simp add: pool_def)
  have liv': "live bm' fls = (k, b') # ?rest" by (simp add: bm' live_def buf_set_eq)
  have pl': "pool bm' fls = (k, b') # buf_remove k (bm_buffers bm) @ map fl_entry (filter (\<lambda>f. \<not> is_stored f) fls)"
    by (simp add: bm' pool_def buf_set_eq)
  have bf: "bm_fs bm' = fs'" by (simp add: bm')
  have ne: "epath e \<noteq> Some p" if "e \<in> set ?rest" "epath (k, b) = Some p" for e p
    using gw_wf_paths [OF wf b] that by blast
  have lo: "live_ok G c okr (bm_fs bm) e" if "e \<in> set ?rest" for e
    using wf liv that by (simp add: gw_wf_def)
  have pe: "mset (paths (live bm' fls)) = mset (paths (live bm fls))"
    using paths_mset [OF ms] ep by (simp add: liv')
  have lr: "live_ok G c okr fs' e" if "e \<in> set ?rest" for e
    using others_frame(1) [OF fr lo [OF that] ne [OF that]] .
  have "\<forall>e \<in> set (live bm' fls). live_ok G c okr fs' e"
    unfolding liv' list.set using lr lok by blast
  then show "gw_wf G c okr bm' fls"
    using wf ok buf_set_keys [OF dk, of k b'] distinct_mset [OF pe] by (simp add: gw_wf_def bm')
  show "in_memory G okr D bm' fls x" if "in_memory G okr D bm fls x"
  proof -
    from that obtain e where e: "e \<in> set (pool bm fls)" "in_buf G okr (D (g_wjson G) (bm_fs bm)) e x"
      by (auto simp: in_memory_def)
    show ?thesis
    proof (cases "e = (k, b)")
      case True
      then have "in_buf G okr (D (g_wjson G) (bm_fs bm)) (k, b') x"
        using e(2) grow ep by (fastforce simp: in_buf_def)
      then have "in_buf G okr (D (g_wjson G) fs') (k, b') x"
        by (rule in_buf_mono) (use Dgrow ep in auto)
      then show ?thesis unfolding in_memory_def pl' bf by simp
    next
      case False
      then have r: "e \<in> set (buf_remove k (bm_buffers bm) @ map fl_entry (filter (\<lambda>f. \<not> is_stored f) fls))"
        using e(1) pl by auto
      then have r': "e \<in> set ?rest" by auto
      have "in_buf G okr (D (g_wjson G) fs') e x"
        using D others_frame(2,3) [OF fr lo [OF r'] ne [OF r'], of "g_wjson G" x] e(2) by auto
      then show ?thesis using r unfolding in_memory_def pl' bf by auto
    qed
  qed
  show "unowned bm' fls q \<and> dur_entries (g_wjson G) (bm_fs bm) q \<subseteq> dur_entries (g_wjson G) fs' q" if "unowned bm fls q"
  proof -
    from that have p: "fs_files (bm_fs bm) q \<noteq> None" "q \<notin> set (paths (live bm fls))" by (auto simp: unowned_def)
    have "epath (k, b) \<noteq> Some q" using p(2) liv unfolding paths_set by auto
    then have "fs_files fs' q \<noteq> None \<and> dur_entries (g_wjson G) (bm_fs bm) q \<subseteq> dur_entries (g_wjson G) fs' q"
      using fr p(1) fs_frame_entries(2) [of _ "bm_fs bm" fs' q "g_wjson G"]
      by (auto simp: same_or_none_def fs_frame_def split: option.splits)
    moreover have "q \<notin> set (paths (live bm' fls))" using p(2) arg_cong [OF pe, of set_mset] by simp
    ultimately show ?thesis by (auto simp: unowned_def bm')
  qed
qed

section \<open>Appending\<close>

text \<open>A locked section keeps what is held: the state stays well formed and no record disappears.\<close>

definition keeps ::
    "('s, 'dt) buffer_env \<Rightarrow> buffer_config \<Rightarrow> (string \<Rightarrow> log_record \<Rightarrow> bool) \<Rightarrow> flight list
     \<Rightarrow> 's buffer_manager \<Rightarrow> 's buffer_manager \<Rightarrow> bool" where
  "keeps G c okr fls bm bm' \<longleftrightarrow> gw_wf G c okr bm' fls \<and> bm_store bm' = bm_store bm \<and> bm_rng bm \<le> bm_rng bm'
     \<and> bm_dropped bm' = bm_dropped bm
     \<and> (\<forall>x. in_memory G okr dur_entries bm fls x \<longrightarrow> in_memory G okr dur_entries bm' fls x)
     \<and> (\<forall>x. in_memory G okr cur_entries bm [] x \<longrightarrow> in_memory G okr cur_entries bm' [] x)
     \<and> (\<forall>p. unowned bm fls p \<longrightarrow> unowned bm' fls p
           \<and> dur_entries (g_wjson G) (bm_fs bm) p \<subseteq> dur_entries (g_wjson G) (bm_fs bm') p)"

lemma keeps_refl: "gw_wf G c okr bm fls \<Longrightarrow> keeps G c okr fls bm bm"
  by (simp add: keeps_def)

lemma keeps_trans: "keeps G c okr fls bm bm1 \<Longrightarrow> keeps G c okr fls bm1 bm2 \<Longrightarrow> keeps G c okr fls bm bm2"
  unfolding keeps_def by (elim conjE, intro conjI allI impI) (simp_all del: split_paired_All, blast)

lemma keeps_wf: "keeps G c okr fls bm bm' \<Longrightarrow> gw_wf G c okr bm' fls"
  by (simp add: keeps_def)

lemma keepsD:
  assumes "keeps G c okr fls bm bm'"
  shows "in_memory G okr cur_entries bm [] x \<Longrightarrow> in_memory G okr cur_entries bm' [] x"
    "in_memory G okr dur_entries bm fls x \<Longrightarrow> in_memory G okr dur_entries bm' fls x"
    "unowned bm fls p \<Longrightarrow> unowned bm' fls p"
    "bm_store bm' = bm_store bm" "bm_rng bm \<le> bm_rng bm'" "bm_dropped bm' = bm_dropped bm"
  using assms by (simp_all add: keeps_def del: split_paired_All)

lemma orphaned_unowned:
  "orphaned G bm fls x \<longleftrightarrow> (\<exists>p. unowned bm fls p \<and> wal_entry_of (fst x) (snd x) \<in> dur_entries (g_wjson G) (bm_fs bm) p)"
  by (auto simp: orphaned_def unowned_def)

lemma keeps_orphaned: "keeps G c okr fls bm bm' \<Longrightarrow> orphaned G bm fls x \<Longrightarrow> orphaned G bm' fls x"
  unfolding keeps_def orphaned_unowned by blast

lemma gw_wf_Nil: "gw_wf G c okr bm fls \<Longrightarrow> gw_wf G c okr bm []"
  by (simp add: gw_wf_def live_def)

lemma pool_Nil: "e \<in> set (pool bm []) \<Longrightarrow> e \<in> set (pool bm fls)"
  by (simp add: pool_def)

lemma replace_keeps:
  assumes "gw_wf G c okr bm fls" and "map_of (bm_buffers bm) k = Some b"
    and "bm' = bm\<lparr>bm_fs := fs', bm_buffers := buf_set k b' (bm_buffers bm)\<rparr>"
    and "epath (k, b') = epath (k, b)" and "same_or_none (epath (k, b)) (bm_fs bm) fs'"
    and "fs_ok (g_wjson G) fs'" and "live_ok G c okr fs' (k, b')"
    and "\<And>rs. buf_has G okr k b rs \<Longrightarrow> \<exists>rs'. buf_has G okr k b' rs' \<and> set rs \<subseteq> set rs'"
    and dur: "\<And>p. epath (k, b) = Some p \<Longrightarrow> dur_entries (g_wjson G) (bm_fs bm) p \<subseteq> dur_entries (g_wjson G) fs' p"
    and cur: "\<And>p. epath (k, b) = Some p \<Longrightarrow> cur_entries (g_wjson G) (bm_fs bm) p \<subseteq> cur_entries (g_wjson G) fs' p"
  shows "keeps G c okr fls bm bm'"
proof -
  note d = replace_buf [OF assms(1-8) disjI1 [OF refl] dur] 
    and e = replace_buf(2) [OF gw_wf_Nil [OF assms(1)] assms(2-8) disjI2 [OF refl] cur]
  have "bm_store bm' = bm_store bm" "bm_rng bm' = bm_rng bm" "bm_dropped bm' = bm_dropped bm"
    "bm_fs bm' = fs'" by (simp_all add: assms(3))
  then show ?thesis unfolding keeps_def using d e by (simp del: split_paired_All)
qed

lemma fresh_path:
  assumes "gw_wf G c okr bm fls" and "fs_files (bm_fs bm) p = None"
  shows "p \<notin> set (paths (live bm fls))"
  using assms live_ok_files unfolding paths_set gw_wf_def by blast

lemma add_keeps:
  assumes wf: "gw_wf G c okr bm fls" and n: "map_of (bm_buffers bm) k = None"
    and bm': "bm' = bm\<lparr>bm_fs := fs', bm_rng := n', bm_buffers := buf_set k b (bm_buffers bm)\<rparr>" and n': "bm_rng bm \<le> n'"
    and ep: "\<And>p. epath (k, b) = Some p \<Longrightarrow> fs_files (bm_fs bm) p = None"
    and fr: "same_or_none (epath (k, b)) (bm_fs bm) fs'"
    and ok: "fs_ok (g_wjson G) fs'" and lok: "live_ok G c okr fs' (k, b)"
  shows "keeps G c okr fls bm bm'"
proof -
  have liv: "live bm' fls = (k, b) # live bm fls"
    using buf_remove_None [OF n] by (simp add: bm' live_def buf_set_eq)
  have pl: "pool bm' F = (k, b) # pool bm F" for F
    using buf_remove_None [OF n] by (simp add: bm' pool_def buf_set_eq)
  have ne: "epath e \<noteq> Some p" if "e \<in> set (live bm fls)" "epath (k, b) = Some p" for e p
    using fresh_path [OF wf ep [OF that(2)]] that(1) unfolding paths_set by blast
  have lo: "live_ok G c okr (bm_fs bm) e" if "e \<in> set (live bm fls)" for e
    using wf that by (simp add: gw_wf_def)
  have bf: "bm_fs bm' = fs'" by (simp add: bm')
  have lr: "live_ok G c okr fs' e" if "e \<in> set (live bm fls)" for e
    using others_frame(1) [OF fr lo [OF that] ne [OF that]] .
  have "distinct (paths (live bm' fls))"
    using wf fresh_path [OF wf ep] by (auto simp: liv gw_wf_def split: option.splits)
  moreover have "\<forall>e \<in> set (live bm' fls). live_ok G c okr (bm_fs bm') e"
    unfolding liv list.set bf using lr lok by blast
  ultimately have "gw_wf G c okr bm' fls"
    using wf ok buf_set_keys [of "bm_buffers bm" k b] unfolding gw_wf_def bf by (simp add: bm')
  moreover have "in_memory G okr D bm' F x" if "in_memory G okr D bm F x"
    and D: "D = dur_entries \<or> D = cur_entries" and F: "F = fls \<or> F = []" for x D F
  proof -
    from that obtain e where e: "e \<in> set (pool bm F)" "in_buf G okr (D (g_wjson G) (bm_fs bm)) e x"
      by (auto simp: in_memory_def)
    have el: "e \<in> set (live bm fls)" using pool_live pool_Nil e(1) F by blast
    have "in_buf G okr (D (g_wjson G) fs') e x"
      using D others_frame(2,3) [OF fr lo [OF el] ne [OF el], of "g_wjson G" x] e(2) by auto
    then show ?thesis using e(1) unfolding in_memory_def pl bf by auto
  qed
  moreover have "unowned bm' fls p \<and> dur_entries (g_wjson G) (bm_fs bm) p \<subseteq> dur_entries (g_wjson G) fs' p"
    if "unowned bm fls p" for p
  proof -
    from that have p: "fs_files (bm_fs bm) p \<noteq> None" "p \<notin> set (paths (live bm fls))" by (auto simp: unowned_def)
    have ne: "epath (k, b) \<noteq> Some p" using p(1) ep by auto
    then have "fs_files fs' p \<noteq> None \<and> dur_entries (g_wjson G) (bm_fs bm) p \<subseteq> dur_entries (g_wjson G) fs' p"
      using fr p(1) fs_frame_entries(2) [of _ "bm_fs bm" fs' p "g_wjson G"]
      by (auto simp: same_or_none_def fs_frame_def split: option.splits)
    then show ?thesis using p(2) ne unfolding unowned_def liv bf by (auto split: option.splits)
  qed
  ultimately show ?thesis unfolding keeps_def bf using n' by (simp add: bm' del: split_paired_All)
qed

lemma fs_keeps:
  assumes wf: "gw_wf G c okr bm fls" and bm': "bm' = bm\<lparr>bm_fs := fs', bm_rng := n'\<rparr>" "bm_rng bm \<le> n'"
    and fr: "\<And>p. fs_frame p (bm_fs bm) fs'" and ok: "fs_ok (g_wjson G) fs'"
  shows "keeps G c okr fls bm bm'"
proof -
  obtain p :: string where "p \<notin> set (paths (live bm fls))"
    using ex_new_if_finite [OF infinite_UNIV_listI, of "set (paths (live bm fls))"] by blast
  then have p: "epath e \<noteq> Some p" if "e \<in> set (live bm fls)" for e
    using that unfolding paths_set by blast
  have fr0: "same_or_none (Some p) (bm_fs bm) fs'" using fr by (simp add: same_or_none_def)
  have liv: "live bm' fls = live bm fls" "pool bm' F = pool bm F" "bm_fs bm' = fs'" for F
    by (simp_all add: bm' live_def pool_def)
  have lo: "live_ok G c okr (bm_fs bm) e" if "e \<in> set (live bm fls)" for e using wf that by (simp add: gw_wf_def)
  have ne: "epath e \<noteq> Some q" if "e \<in> set (live bm fls)" "Some p = Some q" for e q using p that by simp
  note of = others_frame [OF fr0 lo ne]
  have "gw_wf G c okr bm' fls"
    using wf ok of(1) unfolding gw_wf_def liv by (simp add: bm')
  moreover have "in_memory G okr dur_entries bm fls x \<longrightarrow> in_memory G okr dur_entries bm' fls x" for x
    using of(2) pool_live unfolding in_memory_def liv by blast
  moreover have "in_memory G okr cur_entries bm [] x \<longrightarrow> in_memory G okr cur_entries bm' [] x" for x
    using of(3) pool_live pool_Nil unfolding in_memory_def liv by blast
  moreover have "unowned bm' fls q \<and> dur_entries (g_wjson G) (bm_fs bm) q \<subseteq> dur_entries (g_wjson G) fs' q"
    if "unowned bm fls q" for q
  proof -
    from that have q: "fs_files (bm_fs bm) q \<noteq> None" "q \<notin> set (paths (live bm fls))" by (auto simp: unowned_def)
    have f: "fs_frame (CHR ''x'' # q) (bm_fs bm) fs'" by (rule fr)
    then have "fs_files fs' q \<noteq> None \<and> dur_entries (g_wjson G) (bm_fs bm) q \<subseteq> dur_entries (g_wjson G) fs' q"
      using q fs_frame_entries(2) [OF f] by (auto simp: fs_frame_def)
    then show ?thesis using q(2) unfolding unowned_def liv by blast
  qed
  ultimately show ?thesis unfolding keeps_def liv using bm' by (simp del: split_paired_All)
qed

lemma open_buf_keeps:
  assumes wf: "gw_wf G c okr bm fls" and o: "open_buf G c k r bm = (bm', res)"
  shows "keeps G c okr fls bm bm' \<and> (\<forall>b. res = Inr b \<longrightarrow> map_of (bm_buffers bm') k = Some b)"
proof (cases "map_of (bm_buffers bm) k")
  case (Some b)
  then show ?thesis using o wf by (auto simp: open_buf_def keeps_refl)
next
  case None
  define mk where "mk w = \<lparr>b_writer = cw_new (bc_chunk c), b_first_event_ts_ms = timestamp r,
                         b_opened_at = bm_now bm, b_wal = w\<rparr>" for w
  have bh: "\<exists>rs. buf_has G okr k (mk w) rs" for w
    by (rule exI [of _ "[]"]) (simp add: buf_has_def mk_def)
  show ?thesis
  proof (cases "bc_wal_dir c")
    case nw: None
    then have r: "bm' = bm\<lparr>bm_fs := bm_fs bm, bm_rng := bm_rng bm, bm_buffers := buf_set k (mk None) (bm_buffers bm)\<rparr>" "res = Inr (mk None)"
      using o None by (auto simp: open_buf_def mk_def Let_def)
    have "keeps G c okr fls bm bm'"
    proof (rule add_keeps [OF wf None r(1)])
      show "fs_ok (g_wjson G) (bm_fs bm)" using wf by (simp add: gw_wf_def)
      show "live_ok G c okr (bm_fs bm) (k, mk None)" using bh nw by (simp add: live_ok_def mk_def)
    qed (simp_all add: epath_def mk_def same_or_none_def)
    then show ?thesis using r by (simp del: buffer_manager.update_convs)
  next
    case (Some d)
    obtain fs' cr where cr: "wal_create (fst k) (snd k) (g_uuid G (bm_rng bm)) (bm_fs bm) = (fs', cr)"
      by (cases "wal_create (fst k) (snd k) (g_uuid G (bm_rng bm)) (bm_fs bm)")
    have fok: "fs_ok (g_wjson G) (bm_fs bm)" using wf by (simp add: gw_wf_def)
    note cok = wal_create_ok [OF fok cr]
    show ?thesis
    proof (cases cr)
      case (Inl e)
      then have r: "bm' = bm\<lparr>bm_fs := fs', bm_rng := bm_rng bm + 1\<rparr>" "res = Inl (BWal e)"
        using o None Some cr by (auto simp: open_buf_def)
      have "keeps G c okr fls bm bm'" by (rule fs_keeps [OF wf r(1)]) (use cok(1,4) Inl in auto)
      then show ?thesis using r by simp
    next
      case (Inr seg)
      then have r: "bm' = bm\<lparr>bm_fs := fs', bm_rng := bm_rng bm + 1, bm_buffers := buf_set k (mk (Some seg)) (bm_buffers bm)\<rparr>"
        "res = Inr (mk (Some seg))"
        using o None Some cr by (auto simp: open_buf_def mk_def Let_def)
      note s = cok(3) [OF Inr]
      have ep: "epath (k, mk (Some seg)) = Some (seg_path seg)" by (simp add: epath_def mk_def)
      have "keeps G c okr fls bm bm'"
      proof (rule add_keeps [OF wf None r(1)])
        show "same_or_none (epath (k, mk (Some seg))) (bm_fs bm) fs'"
          using cok(2) s by (simp add: ep same_or_none_def)
        show "live_ok G c okr fs' (k, mk (Some seg))" using bh s Some by (simp add: live_ok_def mk_def)
      qed (use s cok(1) ep in auto)
      then show ?thesis using r by (simp del: buffer_manager.update_convs)
    qed
  qed
qed


lemma log_append_keeps:
  assumes wf: "gw_wf G c okr bm fls" and b: "map_of (bm_buffers bm) k = Some b"
    and j: "json_faithful (g_wjson G) (wal_entry_of (fst k) r)"
    and o: "log_append G k r b bm = (bm', res)"
  shows "keeps G c okr fls bm bm'
    \<and> (\<forall>b'. res = Inr b' \<longrightarrow> map_of (bm_buffers bm') k = Some b' \<and> b_writer b' = b_writer b
         \<and> (\<forall>p. epath (k, b') = Some p \<longrightarrow> wal_entry_of (fst k) r \<in> cur_entries (g_wjson G) (bm_fs bm') p))"
proof (cases "b_wal b")
  case None
  then show ?thesis using o wf b by (auto simp: log_append_def keeps_refl epath_def)
next
  case (Some seg)
  obtain seg' fs' w where a: "wal_append (g_wjson G) (wal_entry_of (fst k) r) seg (bm_fs bm) = (seg', fs', w)"
    by (cases "wal_append (g_wjson G) (wal_entry_of (fst k) r) seg (bm_fs bm)")
  define b' where "b' = b\<lparr>b_wal := Some seg'\<rparr>"
  have r: "bm' = bm\<lparr>bm_fs := fs', bm_buffers := buf_set k b' (bm_buffers bm)\<rparr>"
    "res = (case w of Inl e \<Rightarrow> Inl (BWal e) | Inr _ \<Rightarrow> Inr b')"
    using o Some a unfolding b'_def by (auto simp: log_append_def Let_def split: sum.splits)
  have "(k, b) \<in> set (live bm fls)" using map_of_SomeD [OF b] by (simp add: live_def)
  then have lo: "live_ok G c okr (bm_fs bm) (k, b)" and fok: "fs_ok (g_wjson G) (bm_fs bm)"
    using wf by (simp_all add: gw_wf_def)
  then have sok: "seg_ok (bm_fs bm) seg" and wd: "bc_wal_dir c \<noteq> None" and bh: "\<exists>rs. buf_has G okr k b rs"
    using Some by (auto simp: live_ok_def)
  note ap = wal_append_ok [OF fok sok a j]
  have ep: "epath (k, b) = Some (seg_path seg)" "epath (k, b') = Some (seg_path seg)"
    using Some ap(3) by (simp_all add: epath_def b'_def)
  have same: "buf_has G okr k b' rs = buf_has G okr k b rs" for rs by (simp add: buf_has_def b'_def)
  have "keeps G c okr fls bm bm'"
  proof (rule replace_keeps [OF wf b r(1)])
    show "live_ok G c okr fs' (k, b')" using bh same ap(4) wd by (simp add: live_ok_def b'_def)
  qed (use ep ap same in \<open>auto simp: same_or_none_def dur_entries_def\<close>)
  moreover have "wal_entry_of (fst k) r \<in> cur_entries (g_wjson G) fs' (seg_path seg)" if "res = Inr b'"
    using that r(2) ap(6) by (cases w) auto
  ultimately show ?thesis using r ep by (cases w) (auto simp: b'_def)
qed

lemma push_one_keeps:
  assumes wf: "gw_wf G c okr bm fls" and L: "gw_laws G c okr" and ok: "okr g r"
    and o: "push_one G c g r bm = (bm', res)"
  shows "keeps G c okr fls bm bm' \<and> (is_ok res \<longrightarrow> in_memory G okr cur_entries bm' [] (g, r))"
proof -
  let ?k = "rec_key G g r"
  have g: "fst ?k = g" by (simp add: rec_key_def)
  have jr: "json_faithful (json (g_chunk G)) r" and jw: "json_faithful (g_wjson G) (wal_entry_of g r)"
    using L ok by (auto simp: gw_laws_def)
  obtain bm1 r1 where s1: "open_buf G c ?k r bm = (bm1, r1)" by (cases "open_buf G c ?k r bm")
  note 1 = open_buf_keeps [OF wf s1]
  note wf1 = keeps_wf [OF conjunct1 [OF 1]]
  show ?thesis
  proof (cases r1)
    case (Inl e)
    then show ?thesis using o s1 1 by (auto simp: push_one_def)
  next
    case (Inr b)
    then have b: "map_of (bm_buffers bm1) ?k = Some b" using 1 by blast
    obtain bm2 r2 where s2: "log_append G ?k r b bm1 = (bm2, r2)" by (cases "log_append G ?k r b bm1")
    note 2 = log_append_keeps [OF wf1 b _ s2, unfolded g, OF jw]
    note k2 = keeps_trans [OF conjunct1 [OF 1] conjunct1 [OF 2]] and wf2 = keeps_wf [OF conjunct1 [OF 2]]
    show ?thesis
    proof (cases r2)
      case (Inl e)
      then show ?thesis using o s1 s2 Inr k2 by (auto simp: push_one_def)
    next
      case b1: (Inr b1)
      have m: "map_of (bm_buffers bm2) ?k = Some b1"
        and en: "\<And>p. epath (?k, b1) = Some p \<Longrightarrow> wal_entry_of g r \<in> cur_entries (g_wjson G) (bm_fs bm2) p"
        using 2 b1 by auto
      define b' where "b' = b1\<lparr>b_writer := fst (cw_push (g_chunk G) r (b_writer b1))\<rparr>"
      have r: "bm' = bm2\<lparr>bm_fs := bm_fs bm2, bm_buffers := buf_set ?k b' (bm_buffers bm2)\<rparr>"
        using o s1 s2 Inr b1 by (auto simp: push_one_def b'_def split: prod.splits)
      have ep: "epath (?k, b') = epath (?k, b1)" by (simp add: epath_def b'_def)
      have bh: "buf_has G okr ?k b' (rs @ [r])" if "buf_has G okr ?k b1 rs" for rs
        using that writer_has_push_any [OF _ jr] ok g by (auto simp: buf_has_def b'_def)
      have "(?k, b1) \<in> set (live bm2 fls)" using map_of_SomeD [OF m] by (simp add: live_def)
      then have lo: "live_ok G c okr (bm_fs bm2) (?k, b1)" and fok: "fs_ok (g_wjson G) (bm_fs bm2)"
        using wf2 by (simp_all add: gw_wf_def)
      then have lo': "live_ok G c okr (bm_fs bm2) (?k, b')" using bh by (auto simp: live_ok_def b'_def)
      have "keeps G c okr fls bm2 bm'"
      proof (rule replace_keeps [OF wf2 m r ep _ fok lo'])
        show "\<exists>rs'. buf_has G okr ?k b' rs' \<and> set rs \<subseteq> set rs'" if "buf_has G okr ?k b1 rs" for rs
          using bh [OF that] by fastforce
      qed (auto simp: same_or_none_def split: option.splits)
      moreover have "in_memory G okr cur_entries bm' [] (g, r)"
      proof -
        from lo obtain rs where "buf_has G okr ?k b1 rs" by (auto simp: live_ok_def)
        from bh [OF this] have "in_buf G okr (cur_entries (g_wjson G) (bm_fs bm2)) (?k, b') (g, r)"
          using en g ep by (fastforce simp: in_buf_def split: option.splits)
        moreover have "(?k, b') \<in> set (pool bm' [])" by (simp add: r pool_def buf_set_def)
        ultimately show ?thesis unfolding in_memory_def by (force simp: r)
      qed
      ultimately show ?thesis using keeps_trans [OF k2] by blast
    qed
  qed
qed

lemma push_loop_keeps:
  assumes "gw_wf G c okr bm fls" and "gw_laws G c okr" and "\<forall>(g, r) \<in> set xs. okr g r"
    and "push_loop G c xs bm = (bm', res)"
  shows "keeps G c okr fls bm bm' \<and> (is_ok res \<longrightarrow> (\<forall>x \<in> set xs. in_memory G okr cur_entries bm' [] x))"
  using assms
proof (induction xs arbitrary: bm)
  case (Cons x xs)
  obtain g r where x: "x = (g, r)" by (cases x)
  obtain bm1 r1 where s1: "push_one G c g r bm = (bm1, r1)" by (cases "push_one G c g r bm")
  have "okr g r" using Cons.prems(3) x by auto
  note 1 = push_one_keeps [OF Cons.prems(1,2) this s1]
  show ?case
  proof (cases r1)
    case (Inl e)
    then show ?thesis using Cons.prems(4) x s1 1 by auto
  next
    case (Inr u)
    then have "push_loop G c xs bm1 = (bm', res)" using Cons.prems(4) x s1 by simp
    from Cons.IH [OF keeps_wf [OF conjunct1 [OF 1]] Cons.prems(2) _ this] Cons.prems(3)
    have 2: "keeps G c okr fls bm1 bm'" "is_ok res \<longrightarrow> (\<forall>x \<in> set xs. in_memory G okr cur_entries bm' [] x)" by auto
    have "in_memory G okr cur_entries bm' [] x" using 1 2(1) Inr x by (auto simp: keeps_def)
    then show ?thesis using keeps_trans [OF conjunct1 [OF 1] 2(1)] 2(2) by simp
  qed
qed (simp add: keeps_refl)

section \<open>Syncing and taking\<close>

definition synced :: "('s, 'dt) buffer_env \<Rightarrow> 's buffer_manager \<Rightarrow> buf_key \<Rightarrow> bool" where
  "synced G bm k \<longleftrightarrow> (\<forall>b p. map_of (bm_buffers bm) k = Some b \<longrightarrow> epath (k, b) = Some p \<longrightarrow>
     cur_entries (g_wjson G) (bm_fs bm) p \<subseteq> dur_entries (g_wjson G) (bm_fs bm) p)"

lemma sync_step_keeps:
  assumes wf: "gw_wf G c okr bm fls" and b: "map_of (bm_buffers bm) k = Some b" and w: "b_wal b = Some seg"
    and s: "wal_sync seg (bm_fs bm) = (seg', fs', res)"
    and bm': "bm' = bm\<lparr>bm_fs := fs', bm_buffers := buf_set k (b\<lparr>b_wal := Some seg'\<rparr>) (bm_buffers bm)\<rparr>"
  shows "keeps G c okr fls bm bm'" and "is_ok res \<Longrightarrow> synced G bm' k" and "synced G bm k' \<Longrightarrow> k' \<noteq> k \<Longrightarrow> synced G bm' k'"
proof -
  have "(k, b) \<in> set (live bm fls)" using map_of_SomeD [OF b] by (simp add: live_def)
  then have lo: "live_ok G c okr (bm_fs bm) (k, b)" and fok: "fs_ok (g_wjson G) (bm_fs bm)"
    using wf by (simp_all add: gw_wf_def)
  then have sok: "seg_ok (bm_fs bm) seg" and wd: "bc_wal_dir c \<noteq> None" and bh: "\<exists>rs. buf_has G okr k b rs"
    using w by (auto simp: live_ok_def)
  note sy = wal_sync_ok [OF fok sok s]
  let ?b' = "b\<lparr>b_wal := Some seg'\<rparr>"
  have ep: "epath (k, b) = Some (seg_path seg)" "epath (k, ?b') = Some (seg_path seg)"
    using w sy(3) by (simp_all add: epath_def)
  have same: "buf_has G okr k ?b' rs = buf_has G okr k b rs" for rs by (simp add: buf_has_def)
  have cur: "cur_entries (g_wjson G) fs' p = cur_entries (g_wjson G) (bm_fs bm) p" for p
    using sy(5) by (simp add: cur_entries_def)
  show "keeps G c okr fls bm bm'"
  proof (rule replace_keeps [OF wf b bm'])
    show "live_ok G c okr fs' (k, ?b')" using bh same sy(4) wd by (simp add: live_ok_def)
  qed (use ep sy same cur in \<open>auto simp: same_or_none_def\<close>)
  show "synced G bm' k" if "is_ok res"
    using sy(6) [OF that] cur ep(2) by (auto simp: synced_def bm')
  show "synced G bm' k'" if k': "synced G bm k'" "k' \<noteq> k"
  proof -
    have "cur_entries (g_wjson G) fs' p \<subseteq> dur_entries (g_wjson G) fs' p"
      if c: "map_of (bm_buffers bm) k' = Some c'" "epath (k', c') = Some p" for c' p
    proof -
      have e: "(k', c') \<in> set (buf_remove k (bm_buffers bm) @ map fl_entry fls)"
        using map_of_SomeD [OF c(1)] k'(2) by (simp add: buf_remove_def)
      then have "p \<noteq> seg_path seg" using gw_wf_paths [OF wf b ep(1) e] c(2) by auto
      moreover have "(k', c') \<in> set (live bm fls)" using map_of_SomeD [OF c(1)] by (simp add: live_def)
      then have "live_ok G c okr (bm_fs bm) (k', c')" using wf by (simp add: gw_wf_def)
      then have "fs_files (bm_fs bm) p \<noteq> None" using c(2) by (rule live_ok_files)
      ultimately have "dur_entries (g_wjson G) (bm_fs bm) p \<subseteq> dur_entries (g_wjson G) fs' p"
        using fs_frame_entries(2) [OF sy(2)] by blast
      then show ?thesis using k'(1) c cur by (auto simp: synced_def)
    qed
    then show ?thesis using k'(2) by (auto simp: synced_def bm')
  qed
qed

lemma sync_loop_keeps:
  assumes "gw_wf G c okr bm fls" and "sync_loop ks bm = (bm', res)"
  shows "keeps G c okr fls bm bm' \<and> fst ` set (bm_buffers bm') = fst ` set (bm_buffers bm)
    \<and> (is_ok res \<longrightarrow> (\<forall>k. k \<in> set ks \<or> synced G bm k \<longrightarrow> synced G bm' k))"
  using assms
proof (induction ks arbitrary: bm)
  case (Cons k ks)
  show ?case
  proof (cases "\<exists>b seg. map_of (bm_buffers bm) k = Some b \<and> b_wal b = Some seg")
    case False
    then have "sync_loop ks bm = (bm', res)" using Cons.prems(2) by (auto split: option.splits)
    moreover have "synced G bm k" using False by (auto simp: synced_def epath_def)
    ultimately show ?thesis using Cons.IH [OF Cons.prems(1)] by auto
  next
    case True
    then obtain b seg where b: "map_of (bm_buffers bm) k = Some b" "b_wal b = Some seg" by blast
    obtain seg' fs' w where s: "wal_sync seg (bm_fs bm) = (seg', fs', w)" by (cases "wal_sync seg (bm_fs bm)")
    define bm1 where "bm1 = bm\<lparr>bm_fs := fs', bm_buffers := buf_set k (b\<lparr>b_wal := Some seg'\<rparr>) (bm_buffers bm)\<rparr>"
    note 1 = sync_step_keeps [OF Cons.prems(1) b s bm1_def]
    have keys: "fst ` set (bm_buffers bm1) = fst ` set (bm_buffers bm)"
      using map_of_SomeD [OF b(1)] by (force simp: bm1_def buf_set_def)
    show ?thesis
    proof (cases w)
      case (Inl e)
      then have "bm' = bm1" "res = Inl (BWal e)" using Cons.prems(2) b s by (auto simp: bm1_def Let_def)
      then show ?thesis using 1(1) keys by simp
    next
      case (Inr u)
      then have "sync_loop ks bm1 = (bm', res)" using Cons.prems(2) b s by (simp add: bm1_def Let_def)
      note 2 = Cons.IH [OF keeps_wf [OF 1(1)] this]
      have "synced G bm1 k'" if "k' = k \<or> synced G bm k'" for k' using 1(2,3) Inr that by (cases "k' = k") auto
      then have "is_ok res \<longrightarrow> (\<forall>k'. k' \<in> set (k # ks) \<or> synced G bm k' \<longrightarrow> synced G bm' k')"
        using conjunct2 [OF conjunct2 [OF 2]] by (auto simp del: split_paired_All)
      moreover have "fst ` set (bm_buffers bm') = fst ` set (bm_buffers bm)"
        using conjunct1 [OF conjunct2 [OF 2]] keys by (rule trans)
      ultimately show ?thesis using keeps_trans [OF 1(1) conjunct1 [OF 2]] by (intro conjI)
    qed
  qed
qed (simp add: keeps_refl)

lemma sync_wal_keeps:
  assumes wf: "gw_wf G c okr bm fls" and L: "gw_laws G c okr" and s: "sync_wal G bm = (bm', res)"
  shows "keeps G c okr fls bm bm'
    \<and> (is_ok res \<longrightarrow> (\<forall>x. in_memory G okr cur_entries bm [] x \<longrightarrow> in_memory G okr dur_entries bm' fls x))"
proof -
  note 1 = sync_loop_keeps [OF wf s [unfolded sync_wal_def]]
  note wf' = keeps_wf [OF conjunct1 [OF 1]]
  have it: "set (g_iter G (bm_buffers bm)) = set (bm_buffers bm)" using L by (metis gw_laws_def set_mset_mset)
  have "in_memory G okr dur_entries bm' fls x" if "is_ok res" "in_memory G okr cur_entries bm [] x" for x
  proof -
    have "in_memory G okr cur_entries bm' [] x" using conjunct1 [OF 1] that(2) by (rule keepsD)
    then obtain k b where e: "(k, b) \<in> set (bm_buffers bm')"
      "in_buf G okr (cur_entries (g_wjson G) (bm_fs bm')) (k, b) x"
      by (auto simp: in_memory_def pool_def)
    have m: "map_of (bm_buffers bm') k = Some b" using e(1) wf' by (simp add: gw_wf_def)
    have "k \<in> fst ` set (bm_buffers bm')" using e(1) by force
    then have "k \<in> set (map fst (g_iter G (bm_buffers bm)))" using 1 it by auto
    then have "synced G bm' k" using conjunct2 [OF conjunct2 [OF 1]] that(1) by (simp del: split_paired_All)
    then have "in_buf G okr (dur_entries (g_wjson G) (bm_fs bm')) (k, b) x"
      using in_buf_mono [OF e(2)] m by (auto simp: synced_def)
    then show ?thesis using e(1) by (auto simp: in_memory_def pool_def)
  qed
  then show ?thesis using conjunct1 [OF 1] by simp
qed

definition taken_of :: "buf_key \<times> buf \<Rightarrow> flight" where
  "taken_of e = Taken (fst e) (snd e)"

lemma fl_entry_taken [simp]: "fl_entry (taken_of e) = e" "\<not> is_stored (taken_of e)" "failed_ok G (taken_of e)"
  by (simp_all add: taken_of_def failed_ok_def)

lemma moved:
  assumes wf: "gw_wf G c okr bm fls" and m: "mset (bm_buffers bm) = mset t + mset m'"
    and d: "distinct (map fst m')" and bm': "bm' = bm\<lparr>bm_buffers := m'\<rparr>"
  shows "gw_wf G c okr bm' (fls @ map taken_of t)"
    and "in_memory G okr D bm' (fls @ map taken_of t) x = in_memory G okr D bm fls x"
    and "orphaned G bm' (fls @ map taken_of t) x = orphaned G bm fls x"
proof -
  let ?fls = "fls @ map taken_of t"
  have comp: "fl_entry \<circ> taken_of = id" by (simp add: fun_eq_iff)
  have l: "mset (live bm' ?fls) = mset (live bm fls)"
    using m by (simp add: live_def bm' comp)
  have sl: "set (live bm' ?fls) = set (live bm fls)" using arg_cong [OF l, of set_mset] by simp
  have sp: "set (pool bm' ?fls) = set (pool bm fls)"
    using arg_cong [OF m, of set_mset] by (auto simp: pool_def bm' image_image filter_map comp_def)
  have pp: "mset (paths (live bm' ?fls)) = mset (paths (live bm fls))" by (rule paths_mset [OF l])
  have fs: "bm_fs bm' = bm_fs bm" by (simp add: bm')
  show "gw_wf G c okr bm' ?fls"
    using wf d distinct_mset [OF pp] unfolding gw_wf_def sl fs by (auto simp: bm')
  show "in_memory G okr D bm' ?fls x = in_memory G okr D bm fls x" unfolding in_memory_def sp fs ..
  show "orphaned G bm' ?fls x = orphaned G bm fls x"
    using arg_cong [OF pp, of set_mset] unfolding orphaned_def fs by simp
qed

lemma accept_batch_keeps:
  assumes wf: "gw_wf G c okr bm fls" and L: "gw_laws G c okr" and xs: "\<forall>(g, r) \<in> set xs. okr g r"
    and a: "accept_batch G c xs bm = (bm', res)"
  shows "case res of Inl _ \<Rightarrow> keeps G c okr fls bm bm'
    | Inr due \<Rightarrow> \<exists>bm1. keeps G c okr fls bm bm1 \<and> (\<forall>x \<in> set xs. in_memory G okr dur_entries bm1 fls x)
        \<and> mset (bm_buffers bm1) = mset due + mset (bm_buffers bm') \<and> distinct (map fst (bm_buffers bm'))
        \<and> bm' = bm1\<lparr>bm_buffers := bm_buffers bm'\<rparr> \<and> buffered_total (bm_buffers bm') \<le> bc_max_buffered_bytes c"
proof -
  obtain bm1 r1 where s1: "push_loop G c xs bm = (bm1, r1)" by (cases "push_loop G c xs bm")
  note 1 = push_loop_keeps [OF wf L xs s1]
  show ?thesis
  proof (cases r1)
    case (Inl e)
    then show ?thesis using a s1 1 by (auto simp: accept_batch_def)
  next
    case (Inr u)
    obtain bm2 r2 where s2: "sync_wal G bm1 = (bm2, r2)" by (cases "sync_wal G bm1")
    note 2 = sync_wal_keeps [OF keeps_wf [OF conjunct1 [OF 1]] L s2]
    note k = keeps_trans [OF conjunct1 [OF 1] conjunct1 [OF 2]]
    show ?thesis
    proof (cases r2)
      case (Inl e)
      then show ?thesis using a s1 s2 Inr k by (auto simp: accept_batch_def)
    next
      case v: (Inr v)
      obtain due m where t: "take_matching G (\<lambda>b. uncompressed_len (b_writer b) \<ge> bc_flush_bytes c) (bm_buffers bm2) = (due, m)"
        by (cases "take_matching G (\<lambda>b. uncompressed_len (b_writer b) \<ge> bc_flush_bytes c) (bm_buffers bm2)")
      obtain due' m' where cl: "cap_loop G (bc_max_buffered_bytes c) due m = (due', m')"
        by (cases "cap_loop G (bc_max_buffered_bytes c) due m")
      have r: "bm' = bm2\<lparr>bm_buffers := m'\<rparr>" "res = Inr due'"
        using a s1 s2 Inr v t cl by (auto simp: accept_batch_def)
      have d: "distinct (map fst (bm_buffers bm2))" using keeps_wf [OF k] by (simp add: gw_wf_def)
      note rm = remove_entries_mset [OF d t [unfolded take_matching_def]]
      note cm = cap_loop_mset [OF conjunct2 [OF rm] cl]
      have it: "mset (g_iter G m) = mset m" for m using L by (simp add: gw_laws_def)
      have "\<forall>x \<in> set xs. in_memory G okr dur_entries bm2 fls x" using 1 2 Inr v by auto
      moreover have "mset (bm_buffers bm2) = mset due' + mset (bm_buffers bm')" using rm cm r by simp
      moreover have "distinct (map fst (bm_buffers bm'))" using cm r by simp
      moreover have "bm' = bm2\<lparr>bm_buffers := bm_buffers bm'\<rparr>" using r(1) by simp
      moreover have "buffered_total (bm_buffers bm') \<le> bc_max_buffered_bytes c"
        using cap_loop_cap [OF it cl] r by simp
      ultimately show ?thesis unfolding r(2) sum.case using k by (intro exI [of _ bm2] conjI)
    qed
  qed
qed

end
