(* ===== verification/S4_Durability.thy ===== *)
theory S4_Durability
  imports S4_Accept
begin

text \<open>
  The storing half of the buffer manager: a flush moves records from a buffer into an object of the
  sink, a failed flush puts them back. The interleaved runs of requests, sweeps, flushes and the
  shutdown are a step relation, and the invariant of its reachable states is proved in the locale of
  the sinks.
\<close>

section \<open>Storing\<close>

text \<open>
  The record is in a data object of its group and date, under one of the first \<open>n\<close> random suffixes, and
  the lines of that object parse back to its records.
\<close>

definition stored_rec ::
    "('s, 'dt) buffer_env \<Rightarrow> buffer_config \<Rightarrow> string \<Rightarrow> nat \<Rightarrow> (string \<rightharpoonup> bytes) \<Rightarrow> string \<times> log_record \<Rightarrow> bool" where
  "stored_rec G c pre n os x \<longleftrightarrow>
     (\<exists>i ts rs body. i < n \<and> snd x \<in> set rs \<and> utf8_ok (fst x) \<and> jsonl_faithful (json (g_chunk G)) rs
        \<and> os (data_key \<lparr>account = bc_account c, log_group = fst x,
                date = date_from_ts_ms (g_chrono G) (timestamp (snd x)),
                obj_name = show_int ts @ ''-'' @ g_uuid G i\<rparr> pre) = Some body
        \<and> zstd_decode (g_chunk G) body = Inr (jsonl_text (json (g_chunk G)) rs, None))"

definition fresh_suffix :: "('s, 'dt) buffer_env \<Rightarrow> nat \<Rightarrow> bool" where
  "fresh_suffix G n \<longleftrightarrow> (\<forall>i < n. g_uuid G i \<noteq> g_uuid G n)"

lemma show_int_no_slash: "CHR ''/'' \<notin> set (show_int x)"
  by (rule show_int_free) simp_all

lemma gw_location_wf:
  assumes "gw_laws G c okr" and "utf8_ok g"
  shows "wf_location \<lparr>account = bc_account c, log_group = g, date = date_from_ts_ms (g_chrono G) t,
     obj_name = show_int ts @ ''-'' @ g_uuid G i\<rparr>"
  using assms show_int_no_slash by (auto simp: gw_laws_def wf_location_def)

lemma suffix_names_differ:
  assumes "gw_laws G c okr" and "show_int ts @ ''-'' @ g_uuid G i = show_int us @ ''-'' @ g_uuid G j"
  shows "g_uuid G i = g_uuid G j"
proof -
  have "CHR ''-'' \<notin> set (g_uuid G k)" for k using assms(1) by (simp add: gw_laws_def)
  then have "rsplit_once (CHR ''-'') (show_int ts @ ''-'' @ g_uuid G i) = Some (show_int ts, g_uuid G i)"
    and "rsplit_once (CHR ''-'') (show_int us @ ''-'' @ g_uuid G j) = Some (show_int us, g_uuid G j)"
    by (simp_all add: rsplit_once_append)
  then show ?thesis unfolding assms(2) by (metis option.inject prod.inject)
qed

locale buffer_sink =
  sink: chunk_sink X "g_put G" objs pre inv
  for X :: s4_codec and G :: "('s, 'dt) buffer_env" and objs :: "'s \<Rightarrow> string \<rightharpoonup> bytes"
    and pre :: string and inv :: "'s \<Rightarrow> bool"
begin

lemma put_keeps_stored:
  assumes "inv s" and L: "gw_laws G c okr" and "fresh_suffix G n" and u: "utf8_ok (fst k)" and d: "snd k = date_from_ts_ms (g_chrono G) t"
    and p: "g_put G (flush_location G c k b n) ch s = (s', res)" and st: "stored_rec G c pre n (objs s) x"
  shows "stored_rec G c pre (n + 1) (objs s') x"
proof -
  from st obtain i ts rs body where i: "i < n" and x: "snd x \<in> set rs" "utf8_ok (fst x)"
    and o: "objs s (data_key \<lparr>account = bc_account c, log_group = fst x,
                date = date_from_ts_ms (g_chrono G) (timestamp (snd x)),
                obj_name = show_int ts @ ''-'' @ g_uuid G i\<rparr> pre) = Some body"
    and z: "zstd_decode (g_chunk G) body = Inr (jsonl_text (json (g_chunk G)) rs, None)" "jsonl_faithful (json (g_chunk G)) rs"
    unfolding stored_rec_def by blast
  have "g_uuid G i \<noteq> g_uuid G n" using assms(3) i by (simp add: fresh_suffix_def)
  then have ne: "\<lparr>account = bc_account c, log_group = fst x, date = date_from_ts_ms (g_chrono G) (timestamp (snd x)),
      obj_name = show_int ts @ ''-'' @ g_uuid G i\<rparr> \<noteq> flush_location G c k b n"
    using suffix_names_differ [OF L, of ts i] by (auto simp: flush_location_def)
  have w: "wf_location (flush_location G c k b n)"
    using gw_location_wf [OF L u] d by (simp add: flush_location_def)
  note keep = sink.put_keeps_data [OF assms(1) p gw_location_wf [OF L x(2)] w ne]
  show ?thesis unfolding stored_rec_def
    by (rule exI [of _ i], rule exI [of _ ts], rule exI [of _ rs], rule exI [of _ body])
      (use i x z o keep in simp)
qed

lemma put_stores:
  assumes "inv s" and L: "gw_laws G c okr" and p: "g_put G (flush_location G c k b n) ch s = (s', Inr rc)"
    and bh: "buf_has G okr k b rs" and e: "cw_encode (g_chunk G) (b_writer b) = Inr (Some ch)" and r: "r \<in> set rs"
  shows "stored_rec G c pre (n + 1) (objs s') (fst k, r)"
proof -
  have z: "zstd_faithful (g_chunk G)" using L by (simp add: gw_laws_def)
  have "chunk_has (g_chunk G) ch rs"
    using writer_has_finish [OF z _ e] bh by (simp add: buf_has_def)
  then have "zstd_decode (g_chunk G) (chunk_body ch) = Inr (jsonl_text (json (g_chunk G)) rs, None)"
    by (simp add: chunk_has_def)
  moreover have "objs s' (data_key (flush_location G c k b n) pre) = Some (chunk_body ch)"
    using sink.put_stored [OF assms(1) p] by blast
  moreover have k: "rec_key G (fst k) r = k" "okr (fst k) r" using bh r by (auto simp: buf_has_def)
  then have "snd k = date_from_ts_ms (g_chrono G) (timestamp r)" by (metis rec_key_def snd_conv)
  moreover have "utf8_ok (fst k)" using L k(2) by (auto simp: gw_laws_def)
  moreover have "jsonl_faithful (json (g_chunk G)) rs" using bh L by (auto simp: buf_has_def gw_laws_def jsonl_faithful_def)
  ultimately show ?thesis
    unfolding stored_rec_def fst_conv snd_conv
    by (intro exI [of _ n] exI [of _ "b_first_event_ts_ms b"] exI [of _ rs] exI [of _ "chunk_body ch"])
      (use r in \<open>auto simp: flush_location_def\<close>)
qed

text \<open>Where an accepted record is: in the store, in memory (durable with a WAL) or in an orphaned segment.\<close>

definition held :: "buffer_config \<Rightarrow> (string \<Rightarrow> log_record \<Rightarrow> bool) \<Rightarrow> 's buffer_manager \<Rightarrow> flight list \<Rightarrow> string \<times> log_record \<Rightarrow> bool" where
  "held c okr bm fls x \<longleftrightarrow> stored_rec G c pre (bm_rng bm) (objs (bm_store bm)) x
     \<or> in_memory G okr dur_entries bm fls x \<or> orphaned G bm fls x"

lemma stored_mono: "stored_rec G c pre n os x \<Longrightarrow> n \<le> m \<Longrightarrow> stored_rec G c pre m os x"
  unfolding stored_rec_def by (meson order_less_le_trans)

lemma keeps_held: "keeps G c okr fls bm bm' \<Longrightarrow> held c okr bm fls x \<Longrightarrow> held c okr bm' fls x"
  unfolding held_def using keepsD(2,4,5) keeps_orphaned stored_mono by metis

end

section \<open>Flights\<close>

lemma swap_flight:
  assumes "fl_entry f' = fl_entry f"
  shows "live bm (f1 @ f' # f2) = live bm (f1 @ f # f2)"
  using assms by (simp add: live_def)

lemma pool_split:
  "set (pool bm (f1 @ f # f2)) = (if is_stored f then {} else {fl_entry f}) \<union> set (pool bm (f1 @ f2))"
  by (auto simp: pool_def)

lemma live_split: "mset (live bm (f1 @ f # f2)) = add_mset (fl_entry f) (mset (live bm (f1 @ f2)))"
  by (simp add: live_def)

context buffer_sink
begin

lemma send_held:
  assumes wf: "gw_wf G c okr bm (f1 @ Taken k b # f2)" and L: "gw_laws G c okr" and i: "inv (bm_store bm)"
    and fr: "bm_rng bm < bm_rng bm' \<longrightarrow> fresh_suffix G (bm_rng bm)" and s: "flush_send G c k b bm = (bm', f)"
  shows "gw_wf G c okr bm' (f1 @ f # f2) \<and> inv (bm_store bm') \<and> bm_dropped bm' = bm_dropped bm
    \<and> (\<forall>x. held c okr bm (f1 @ Taken k b # f2) x \<longrightarrow> held c okr bm' (f1 @ f # f2) x)"
proof -
  have fe: "fl_entry f = (k, b)" and fo: "failed_ok G f" and bf: "bm_buffers bm' = bm_buffers bm" "bm_fs bm' = bm_fs bm"
    "bm_dropped bm' = bm_dropped bm"
    using s by (auto simp: flush_send_def failed_ok_def split: sum.splits option.splits prod.splits)
  have lv: "live bm' (f1 @ f # f2) = live bm (f1 @ Taken k b # f2)" using fe by (simp add: live_def bf)
  have wf': "gw_wf G c okr bm' (f1 @ f # f2)" using wf fo unfolding gw_wf_def lv bf by simp
  have op: "orphaned G bm' (f1 @ f # f2) x = orphaned G bm (f1 @ Taken k b # f2) x" for x
    unfolding orphaned_def lv bf ..
  have pf: "in_memory G okr dur_entries bm (f1 @ Taken k b # f2) x =
      (in_buf G okr (dur_entries (g_wjson G) (bm_fs bm)) (k, b) x \<or> in_memory G okr dur_entries bm (f1 @ f2) x)" for x
    unfolding in_memory_def pool_split by auto
  have pf': "in_memory G okr dur_entries bm' (f1 @ f # f2) x =
      (\<not> is_stored f \<and> in_buf G okr (dur_entries (g_wjson G) (bm_fs bm)) (k, b) x \<or> in_memory G okr dur_entries bm (f1 @ f2) x)" for x
    unfolding in_memory_def pool_split bf fe by (auto simp: pool_def bf)
  have lo: "live_ok G c okr (bm_fs bm) (k, b)" using wf by (simp add: gw_wf_def live_def)
  show ?thesis
  proof (cases "cw_encode (g_chunk G) (b_writer b)")
    case (Inl e)
    then have "bm' = bm" "\<not> is_stored f" using s by (auto simp: flush_send_def)
    then show ?thesis using wf' i op pf pf' by (auto simp: held_def)
  next
    case enc: (Inr o')
    show ?thesis
    proof (cases o')
      case None
      then have r: "bm' = bm" using s enc by (auto simp: flush_send_def)
      have "writer_has (g_chunk G) (b_writer b) rs \<Longrightarrow> rs = []" for rs
        using writer_has_finish [of "g_chunk G" "b_writer b" rs None] L enc None by (simp add: gw_laws_def)
      then have "\<not> in_buf G okr D (k, b) x" for D x by (fastforce simp: in_buf_def buf_has_def)
      then show ?thesis using wf' i op pf pf' r by (auto simp: held_def)
    next
      case (Some ch)
      obtain s' pr where p: "g_put G (flush_location G c k b (bm_rng bm)) ch (bm_store bm) = (s', pr)"
        by (cases "g_put G (flush_location G c k b (bm_rng bm)) ch (bm_store bm)")
      have st: "bm_store bm' = s'" "bm_rng bm' = bm_rng bm + 1" "is_stored f = is_ok pr"
        using s enc Some p by (auto simp: flush_send_def split: sum.splits)
      have fresh: "fresh_suffix G (bm_rng bm)" using fr st(2) by simp
      have i': "inv s'" using sink.put_inv [OF i p] .
      have keep: "stored_rec G c pre (bm_rng bm + 1) (objs s') x" if "stored_rec G c pre (bm_rng bm) (objs (bm_store bm)) x" for x
      proof -
        from lo obtain rs where bh: "buf_has G okr k b rs" by (auto simp: live_ok_def)
        have "chunk_has (g_chunk G) ch rs"
          using writer_has_finish [of "g_chunk G" "b_writer b" rs] bh enc Some L by (auto simp: buf_has_def gw_laws_def)
        then have "rs \<noteq> []" by (simp add: chunk_has_def)
        then obtain r where "r \<in> set rs" using hd_in_set by blast
        then have "rec_key G (fst k) r = k" "okr (fst k) r" using bh by (auto simp: buf_has_def)
        then have "snd k = date_from_ts_ms (g_chrono G) (timestamp r)" "utf8_ok (fst k)"
          using L by (metis rec_key_def snd_conv, auto simp: gw_laws_def)
        then show ?thesis using put_keeps_stored [OF i L fresh _ _ p that] by blast
      qed
      have new: "stored_rec G c pre (bm_rng bm + 1) (objs s') x" if ok: "is_ok pr" and ib: "in_buf G okr D (k, b) x" for x D
      proof -
        obtain rc where "pr = Inr rc" using ok by (cases pr) auto
        then have p': "g_put G (flush_location G c k b (bm_rng bm)) ch (bm_store bm) = (s', Inr rc)" using p by simp
        obtain rs where rs: "buf_has G okr k b rs" "snd x \<in> set rs" "fst k = fst x"
          using ib by (auto simp: in_buf_def)
        have e: "cw_encode (g_chunk G) (b_writer b) = Inr (Some ch)" using enc Some by simp
        show ?thesis using put_stores [OF i L p' rs(1) e rs(2)] rs(3) by simp
      qed
      have "held c okr bm' (f1 @ f # f2) x" if "held c okr bm (f1 @ Taken k b # f2) x" for x
        using that op [of x] keep [of x] new [of "dur_entries (g_wjson G) (bm_fs bm)" x]
        unfolding held_def pf pf' st by blast
      then show ?thesis using wf' i' bf(3) unfolding st by blast
    qed
  qed
qed

lemma settle_stored_held:
  assumes wf: "gw_wf G c okr bm (f1 @ Stored k b # f2)"
    and bm': "bm' = delete_segment b bm"
  shows "gw_wf G c okr bm' (f1 @ f2) \<and> bm_store bm' = bm_store bm \<and> bm_dropped bm' = bm_dropped bm
    \<and> (\<forall>x. held c okr bm (f1 @ Stored k b # f2) x \<longrightarrow> held c okr bm' (f1 @ f2) x)"
proof -
  have lo: "live_ok G c okr (bm_fs bm) e" if "e \<in> set (live bm (f1 @ f2))" for e
    using wf that by (auto simp: gw_wf_def live_def)
  have d: "distinct (paths (live bm (f1 @ f2)))" and np: "p \<notin> set (paths (live bm (f1 @ f2)))" if "epath (k, b) = Some p" for p
    using wf distinct_mset [OF paths_mset [of "live bm (f1 @ Stored k b # f2)" "(k, b) # live bm (f1 @ f2)"]] that
    by (simp_all add: gw_wf_def live_split)
  have d': "distinct (paths (live bm (f1 @ f2)))"
    using wf distinct_mset [OF paths_mset [of "live bm (f1 @ Stored k b # f2)" "(k, b) # live bm (f1 @ f2)"]]
    by (cases "epath (k, b)") (simp_all add: gw_wf_def live_split)
  have fok: "fs_ok (g_wjson G) (bm_fs bm)" using wf by (simp add: gw_wf_def)
  have fr: "same_or_none (epath (k, b)) (bm_fs bm) (bm_fs bm')" and fok': "fs_ok (g_wjson G) (bm_fs bm')"
    and bf: "bm_buffers bm' = bm_buffers bm" "bm_store bm' = bm_store bm" "bm_rng bm' = bm_rng bm" "bm_dropped bm' = bm_dropped bm"
    using wal_delete_ok [OF fok] fok
    by (auto simp: bm' delete_segment_def same_or_none_def epath_def split: option.splits)
  have lv: "live bm' (f1 @ f2) = live bm (f1 @ f2)" "pool bm' (f1 @ f2) = pool bm (f1 @ f2)"
    by (simp_all add: live_def pool_def bf)
  have ne: "epath e \<noteq> Some p" if "e \<in> set (live bm (f1 @ f2))" "epath (k, b) = Some p" for e p
    using np [OF that(2)] that(1) unfolding paths_set by blast
  note of = others_frame [OF fr lo ne]
  have "gw_wf G c okr bm' (f1 @ f2)"
    using wf d' fok' of(1) unfolding gw_wf_def lv bf by simp
  moreover have "in_memory G okr dur_entries bm' (f1 @ f2) x" if "in_memory G okr dur_entries bm (f1 @ Stored k b # f2) x" for x
  proof -
    from that obtain e where e: "e \<in> set (pool bm (f1 @ f2))" "in_buf G okr (dur_entries (g_wjson G) (bm_fs bm)) e x"
      unfolding in_memory_def pool_split by auto
    then have "in_buf G okr (dur_entries (g_wjson G) (bm_fs bm')) e x"
      using of(2) [OF pool_live [OF e(1)] pool_live [OF e(1)] _ e(2)] by blast
    then show ?thesis using e(1) unfolding in_memory_def lv by blast
  qed
  moreover have "orphaned G bm' (f1 @ f2) x" if "orphaned G bm (f1 @ Stored k b # f2) x" for x
  proof -
    from that obtain p where p: "fs_files (bm_fs bm) p \<noteq> None" "p \<notin> set (paths (live bm (f1 @ Stored k b # f2)))"
      "wal_entry_of (fst x) (snd x) \<in> dur_entries (g_wjson G) (bm_fs bm) p" by (auto simp: orphaned_def)
    have q: "epath (k, b) \<noteq> Some p" "p \<notin> set (paths (live bm (f1 @ f2)))"
      using p(2) unfolding paths_set live_def by auto
    then have "fs_files (bm_fs bm') p \<noteq> None \<and> wal_entry_of (fst x) (snd x) \<in> dur_entries (g_wjson G) (bm_fs bm') p"
      using fr p(1,3) fs_frame_entries(2) [of _ "bm_fs bm" "bm_fs bm'" p "g_wjson G"]
      by (auto simp: same_or_none_def fs_frame_def split: option.splits)
    then show ?thesis using q(2) unfolding orphaned_def lv by blast
  qed
  ultimately show ?thesis unfolding held_def bf by blast
qed


lemma settle_failed_held:
  assumes wf: "gw_wf G c okr bm (f1 @ Failed k b ch e # f2)" and L: "gw_laws G c okr"
    and bm': "bm' = reinsert G k b ch bm"
  shows "gw_wf G c okr bm' (f1 @ f2) \<and> bm_store bm' = bm_store bm \<and> bm_dropped bm \<le> bm_dropped bm'
    \<and> (bm_dropped bm' = bm_dropped bm \<longrightarrow>
        (\<forall>x. held c okr bm (f1 @ Failed k b ch e # f2) x \<longrightarrow> held c okr bm' (f1 @ f2) x))"
proof -
  let ?fls = "f1 @ Failed k b ch e # f2"
  have dk: "distinct (map fst (bm_buffers bm))" and fo: "failed_ok G (Failed k b ch e)" using wf by (auto simp: gw_wf_def)
  have lo: "live_ok G c okr (bm_fs bm) (k, b)" using wf by (simp add: gw_wf_def live_def)
  have pp: "mset (paths (live bm ?fls)) = mset (paths ((k, b) # live bm (f1 @ f2)))"
    by (rule paths_mset) (simp add: live_split)
  have pl: "in_memory G okr dur_entries bm ?fls x \<longleftrightarrow>
      in_buf G okr (dur_entries (g_wjson G) (bm_fs bm)) (k, b) x \<or> in_memory G okr dur_entries bm (f1 @ f2) x" for x
    unfolding in_memory_def pool_split by auto
  have wf2: "gw_wf G c okr bm (f1 @ f2)"
    using wf distinct_mset [OF pp] by (cases "epath (k, b)") (auto simp: gw_wf_def live_def)
  have orp: "orphaned G bm ?fls x \<Longrightarrow> orphaned G bm (f1 @ f2) x" for x
    unfolding orphaned_def paths_set live_def by fastforce
  show ?thesis
  proof (cases "map_of (bm_buffers bm) k")
    case None
    then have r: "bm' = bm\<lparr>bm_buffers := (k, b) # bm_buffers bm\<rparr>"
      by (simp add: bm' reinsert_def buf_set_eq buf_remove_None)
    have lv: "live bm' (f1 @ f2) = (k, b) # live bm (f1 @ f2)" "pool bm' (f1 @ f2) = (k, b) # pool bm (f1 @ f2)"
      by (simp_all add: r live_def pool_def)
    have "distinct (map fst (bm_buffers bm'))"
      using dk buf_set_keys [OF dk, of k b] None by (simp add: r buf_set_eq buf_remove_None)
    then have "gw_wf G c okr bm' (f1 @ f2)"
      using wf2 lo distinct_mset [OF pp] wf unfolding gw_wf_def lv by (auto simp: r)
    moreover have "in_memory G okr dur_entries bm' (f1 @ f2) x = in_memory G okr dur_entries bm ?fls x" for x
      unfolding pl unfolding in_memory_def lv by (simp add: r)
    moreover have "orphaned G bm' (f1 @ f2) x = orphaned G bm ?fls x" for x
      using arg_cong [OF pp, of set_mset] unfolding orphaned_def lv by (simp add: r)
    ultimately show ?thesis by (simp add: held_def r)
  next
    case (Some dst)
    show ?thesis
    proof (cases "b_wal b")
      case w: (Some seg)
      then have r: "bm' = bm" using Some by (simp add: bm' reinsert_def)
      have ep: "epath (k, b) = Some (seg_path seg)" using w by (simp add: epath_def)
      have np: "seg_path seg \<notin> set (paths (live bm (f1 @ f2)))"
        using wf distinct_mset [OF pp] ep by (simp add: gw_wf_def)
      have "orphaned G bm (f1 @ f2) x" if "in_buf G okr (dur_entries (g_wjson G) (bm_fs bm)) (k, b) x" for x
        using that np live_ok_files [OF lo ep] ep by (auto simp: orphaned_def in_buf_def)
      then show ?thesis using wf2 orp pl by (auto simp: held_def r)
    next
      case w: None
      define dst1 where "dst1 = dst\<lparr>b_opened_at := min (b_opened_at dst) (b_opened_at b),
           b_first_event_ts_ms := min (b_first_event_ts_ms dst) (b_first_event_ts_ms b)\<rparr>"
      define E where "E = g_chunk G"
      define merged where "merged = (case ch of None \<Rightarrow> None
         | Some h \<Rightarrow> ok_of (decompress_frames E (chunk_body h) (uncompressed_bytes h)))"
      have re: "bm' = (case merged of
          Some plain \<Rightarrow> bm\<lparr>bm_buffers := buf_set k
            (dst1\<lparr>b_writer := merge_records E (record_lines (json E) plain) (b_writer dst1)\<rparr>) (bm_buffers bm)\<rparr>
        | None \<Rightarrow> bm\<lparr>bm_buffers := buf_set k dst1 (bm_buffers bm),
            bm_dropped := bm_dropped bm + (case ch of None \<Rightarrow> cw_record_count (b_writer b) | Some h \<Rightarrow> chunk_record_count h)\<rparr>)"
        unfolding bm' reinsert_def merged_def dst1_def E_def Let_def Some option.case w by simp
      have ld: "live_ok G c okr (bm_fs bm) (k, dst)"
        using wf map_of_SomeD [OF Some] by (simp add: gw_wf_def live_def)
      have wd: "b_wal dst = None" using ld lo w by (auto simp: live_ok_def split: option.splits)
      have fok: "fs_ok (g_wjson G) (bm_fs bm)" using wf by (simp add: gw_wf_def)
      show ?thesis
      proof (cases merged)
        case None
        define lost where "lost = (case ch of None \<Rightarrow> cw_record_count (b_writer b) | Some h \<Rightarrow> chunk_record_count h)"
        have r: "bm' = bm\<lparr>bm_buffers := buf_set k dst1 (bm_buffers bm), bm_dropped := bm_dropped bm + lost\<rparr>"
          unfolding re None option.case lost_def ..
        define bm1 where "bm1 = bm\<lparr>bm_fs := bm_fs bm, bm_buffers := buf_set k dst1 (bm_buffers bm)\<rparr>"
        have same: "buf_has G okr k dst1 rs = buf_has G okr k dst rs" for rs by (simp add: buf_has_def dst1_def)
        have k1: "keeps G c okr (f1 @ f2) bm bm1"
          by (rule replace_keeps [OF wf2 Some bm1_def])
            (use fok ld same in \<open>auto simp: epath_def dst1_def same_or_none_def wd live_ok_def\<close>)
        have e1: "gw_wf G c okr bm' F = gw_wf G c okr bm1 F" "held c okr bm' F x = held c okr bm1 F x" for F x
          by (simp_all add: r bm1_def gw_wf_def held_def in_memory_def orphaned_def live_def pool_def)
        have "\<not> in_buf G okr D (k, b) x" if "lost = 0" for D x
        proof -
          have "rs = []" if "buf_has G okr k b rs" for rs
          proof (cases ch)
            case None
            then show ?thesis using \<open>lost = 0\<close> that writer_has_length(2) by (auto simp: lost_def buf_has_def)
          next
            case (Some h)
            then have "cw_encode E (b_writer b) = Inr (Some h)" using fo by (simp add: failed_ok_def E_def)
            then have "chunk_has E h rs"
              using writer_has_finish [of E "b_writer b" rs] that L by (auto simp: buf_has_def gw_laws_def E_def)
            then show ?thesis using \<open>lost = 0\<close> Some by (simp add: lost_def chunk_has_def)
          qed
          then show ?thesis by (fastforce simp: in_buf_def)
        qed
        then have "held c okr bm1 (f1 @ f2) x" if "lost = 0" "held c okr bm ?fls x" for x
          using that keeps_held [OF k1, of x] orp [of x] pl [of x] by (auto simp: held_def)
        then show ?thesis using keeps_wf [OF k1] unfolding e1 by (auto simp: r)
      next
        case m: (Some plain)
        define b' where "b' = dst1\<lparr>b_writer := merge_records E (record_lines (json E) plain) (b_writer dst)\<rparr>"
        have r: "bm' = bm\<lparr>bm_fs := bm_fs bm, bm_buffers := buf_set k b' (bm_buffers bm)\<rparr>"
          unfolding re m option.case b'_def by (simp add: dst1_def)
        obtain h where h: "ch = Some h" "decompress_frames E (chunk_body h) (uncompressed_bytes h) = Inr plain"
          using m by (auto simp: merged_def split: option.splits)
        have enc: "cw_encode E (b_writer b) = Inr (Some h)" using fo h(1) by (simp add: failed_ok_def E_def)
        have merge: "buf_has G okr k b' (ds @ rs)" if "buf_has G okr k dst ds" "buf_has G okr k b rs" for ds rs
        proof -
          have "chunk_has E h rs"
            using writer_has_finish [OF _ _ enc, of rs] that(2) L by (auto simp: buf_has_def gw_laws_def E_def)
          then have "plain = jsonl_text (json E) rs"
            using decompress_frames_Inr [OF h(2)] by (simp add: chunk_has_def)
          moreover have "jsonl_faithful (json E) rs"
            using that(2) L by (auto simp: jsonl_faithful_def buf_has_def gw_laws_def E_def)
          ultimately have "writer_has E (b_writer b') (ds @ rs)"
            using merge_records_has [of E "b_writer dst" ds rs] that(1)
            by (simp add: b'_def record_lines_text buf_has_def E_def)
          then show ?thesis using that by (auto simp: buf_has_def E_def)
        qed
        obtain rs where rs: "buf_has G okr k b rs" using lo by (auto simp: live_ok_def)
        obtain ds where ds: "buf_has G okr k dst ds" using ld by (auto simp: live_ok_def)
        have wb: "b_wal b' = None" by (simp add: b'_def dst1_def wd)
        have k1: "keeps G c okr (f1 @ f2) bm bm'"
        proof (rule replace_keeps [OF wf2 Some r])
          show "live_ok G c okr (bm_fs bm) (k, b')"
            using merge [OF ds rs] wb ld wd by (auto simp: live_ok_def)
          show "\<exists>rs'. buf_has G okr k b' rs' \<and> set rsa \<subseteq> set rs'" if "buf_has G okr k dst rsa" for rsa
            using merge [OF that rs] by fastforce
        qed (use fok wb wd in \<open>auto simp: epath_def same_or_none_def\<close>)
        have "in_memory G okr dur_entries bm' (f1 @ f2) x" if "in_buf G okr D (k, b) x" for x D
        proof -
          from that obtain rs' where "buf_has G okr k b rs'" "snd x \<in> set rs'" "fst k = fst x" by (auto simp: in_buf_def)
          then have "in_buf G okr D' (k, b') x" for D'
            using merge [OF ds] wb by (fastforce simp: in_buf_def epath_def)
          then show ?thesis by (auto simp: in_memory_def r pool_def buf_set_def)
        qed
        then have "held c okr bm' (f1 @ f2) x" if "held c okr bm ?fls x" for x
          using that keeps_held [OF k1, of x] orp [of x] pl [of x] unfolding held_def by blast
        then show ?thesis using keeps_wf [OF k1] keepsD(4,6) [OF k1] by auto
      qed
    qed
  qed
qed

end

section \<open>Interleaved runs\<close>

text \<open>
  The gateway as a transition system. A state is the manager, the buffers in flight and the records
  acknowledged so far. Requests, the sweep and the shutdown interleave between their locked
  sections, between taking a buffer and storing its chunk, and between that and settling the
  outcome. A suffix drawn for a new object name is not one drawn before.
\<close>

type_synonym 's gw_state = "'s buffer_manager \<times> flight list \<times> (string \<times> log_record) list"

inductive gw_step ::
    "('s, 'dt) buffer_env \<Rightarrow> buffer_config \<Rightarrow> (string \<Rightarrow> log_record \<Rightarrow> bool) \<Rightarrow> 's gw_state \<Rightarrow> 's gw_state \<Rightarrow> bool"
  for G c okr where
  accept: "\<forall>(g, r) \<in> set xs. okr g r \<Longrightarrow> accept_batch G c xs bm = (bm', Inr due) \<Longrightarrow>
     gw_step G c okr (bm, fls, ak) (bm', fls @ map taken_of due, ak @ xs)"
| reject: "\<forall>(g, r) \<in> set xs. okr g r \<Longrightarrow> accept_batch G c xs bm = (bm', Inl e) \<Longrightarrow>
     gw_step G c okr (bm, fls, ak) (bm', fls, ak)"
| take: "remove_entries ks (bm_buffers bm) = (t, m) \<Longrightarrow>
     gw_step G c okr (bm, fls, ak) (bm\<lparr>bm_buffers := m\<rparr>, fls @ map taken_of t, ak)"
| send: "flush_send G c k b bm = (bm', f) \<Longrightarrow> bm_rng bm < bm_rng bm' \<longrightarrow> fresh_suffix G (bm_rng bm) \<Longrightarrow>
     gw_step G c okr (bm, f1 @ Taken k b # f2, ak) (bm', f1 @ f # f2, ak)"
| settle: "(\<forall>k b. f \<noteq> Taken k b) \<Longrightarrow> flush_settle G f bm = (bm', res) \<Longrightarrow>
     gw_step G c okr (bm, f1 @ f # f2, ak) (bm', f1 @ f2, ak)"
| bookkeeping: "gw_step G c okr (bm, fls, ak)
     (bm\<lparr>bm_now := t, bm_last_flush_ok := flush_ok, bm_backpressure := n\<rparr>, fls, ak)"

inductive_cases gw_stepE: "gw_step G c okr s s'"

abbreviation gw_run :: "('s, 'dt) buffer_env \<Rightarrow> buffer_config \<Rightarrow> (string \<Rightarrow> log_record \<Rightarrow> bool) \<Rightarrow> 's gw_state \<Rightarrow> 's gw_state \<Rightarrow> bool" where
  "gw_run G c okr \<equiv> (gw_step G c okr)\<^sup>*\<^sup>*"

context buffer_sink
begin

definition gw_inv :: "buffer_config \<Rightarrow> (string \<Rightarrow> log_record \<Rightarrow> bool) \<Rightarrow> 's gw_state \<Rightarrow> bool" where
  "gw_inv c okr s \<longleftrightarrow> (case s of (bm, fls, ak) \<Rightarrow> gw_wf G c okr bm fls \<and> inv (bm_store bm)
     \<and> (bc_wal_dir c \<noteq> None \<longrightarrow> bm_dropped bm = 0)
     \<and> (bm_dropped bm = 0 \<longrightarrow> (\<forall>x \<in> set ak. held c okr bm fls x)))"

lemma reinsert_wal_dropped:
  assumes "gw_wf G c okr bm (f1 @ Failed k b ch e # f2)" and "bc_wal_dir c \<noteq> None"
  shows "bm_dropped (reinsert G k b ch bm) = bm_dropped bm"
proof -
  have "live_ok G c okr (bm_fs bm) (k, b)" using assms(1) by (simp add: gw_wf_def live_def)
  then have "b_wal b \<noteq> None" using assms(2) by (auto simp: live_ok_def split: option.splits)
  then show ?thesis by (auto simp: reinsert_def split: option.splits)
qed

lemma moved_held:
  assumes "gw_wf G c okr bm fls" and "mset (bm_buffers bm) = mset t + mset m'"
    and "distinct (map fst m')" and "bm' = bm\<lparr>bm_buffers := m'\<rparr>"
  shows "gw_wf G c okr bm' (fls @ map taken_of t) \<and> held c okr bm' (fls @ map taken_of t) x = held c okr bm fls x"
  unfolding held_def using moved [OF assms] by (simp add: assms(4))

lemma gw_step_inv:
  assumes st: "gw_step G c okr s s'" and L: "gw_laws G c okr" and I: "gw_inv c okr s"
  shows "gw_inv c okr s'"
  using st
proof (cases rule: gw_step.cases)
  case (accept xs bm bm' due fls ak)
  from I have wf: "gw_wf G c okr bm fls" by (simp add: gw_inv_def accept)
  from accept_batch_keeps [OF wf L accept(3,4)] obtain bm1 where
    k: "keeps G c okr fls bm bm1" and x: "\<forall>x \<in> set xs. in_memory G okr dur_entries bm1 fls x"
    and m: "mset (bm_buffers bm1) = mset due + mset (bm_buffers bm')" "distinct (map fst (bm_buffers bm'))"
      "bm' = bm1\<lparr>bm_buffers := bm_buffers bm'\<rparr>" by auto
  note mv = moved_held [OF keeps_wf [OF k] m]
  have "bm_store bm' = bm_store bm1" "bm_dropped bm' = bm_dropped bm1" by (subst m(3), simp)+
  moreover have "held c okr bm1 fls x" if "x \<in> set xs" for x using x that by (simp add: held_def)
  ultimately show ?thesis
    using I mv keepsD(4,6) [OF k] keeps_held [OF k] unfolding gw_inv_def accept(1,2) by auto
next
  case (reject xs bm bm' e fls ak)
  from I have wf: "gw_wf G c okr bm fls" by (simp add: gw_inv_def reject)
  from accept_batch_keeps [OF wf L reject(3,4)] have k: "keeps G c okr fls bm bm'" by simp
  then show ?thesis
    using I keeps_wf [OF k] keepsD(4,6) [OF k] keeps_held [OF k] unfolding gw_inv_def reject(1,2) by auto
next
  case (take ks bm t m fls ak)
  from I have wf: "gw_wf G c okr bm fls" by (simp add: gw_inv_def take)
  then have "distinct (map fst (bm_buffers bm))" by (simp add: gw_wf_def)
  from remove_entries_mset [OF this take(3)] moved_held [OF wf, of t m "bm\<lparr>bm_buffers := m\<rparr>"]
  show ?thesis using I unfolding gw_inv_def take(1,2) by simp
next
  case (send k b bm bm' f f1 f2 ak)
  from I have wf: "gw_wf G c okr bm (f1 @ Taken k b # f2)" and i: "inv (bm_store bm)" by (simp_all add: gw_inv_def send)
  from send_held [OF wf L i send(4,3)] show ?thesis using I unfolding gw_inv_def send(1,2) by auto
next
  case (settle f bm bm' res f1 f2 ak)
  from I have wf: "gw_wf G c okr bm (f1 @ f # f2)" and i: "inv (bm_store bm)" by (simp_all add: gw_inv_def settle)
  show ?thesis
  proof (cases f)
    case (Taken k b)
    then show ?thesis using settle(3) by simp
  next
    case (Stored k b)
    then have "bm' = delete_segment b bm" using settle(4) by simp
    from settle_stored_held [OF wf [unfolded Stored] this] show ?thesis
      using I Stored unfolding gw_inv_def settle(1,2) by auto
  next
    case (Failed k b ch e)
    then have r: "bm' = reinsert G k b ch bm" using settle(4) by simp
    from settle_failed_held [OF wf [unfolded Failed] L r] reinsert_wal_dropped [OF wf [unfolded Failed]]
    show ?thesis using I Failed unfolding gw_inv_def settle(1,2) by (auto simp: r)
  qed
next
  case (bookkeeping bm fls ak n flush_ok t)
  let ?bm = "bm\<lparr>bm_now := t, bm_last_flush_ok := flush_ok, bm_backpressure := n\<rparr>"
  have "gw_wf G c okr ?bm fls = gw_wf G c okr bm fls" "held c okr ?bm fls x = held c okr bm fls x" for x
    by (simp_all add: gw_wf_def held_def in_memory_def orphaned_def live_def pool_def)
  then show ?thesis using I by (simp add: gw_inv_def bookkeeping)
qed

lemma gw_run_inv:
  assumes "gw_run G c okr s s'" and "gw_laws G c okr" and "gw_inv c okr s"
  shows "gw_inv c okr s'"
  using assms by (induction rule: rtranclp_induct) (auto intro: gw_step_inv)

lemma gw_inv_start:
  assumes "fs_ok (g_wjson G) fs" and "inv s"
  shows "gw_inv c okr (bm_new s fs, [], [])"
  using assms by (simp add: gw_inv_def gw_wf_def bm_new_def live_def)

lemma held_durable:
  assumes "held c okr bm fls x" and "gw_wf G c okr bm fls" and "bc_wal_dir c \<noteq> None"
  shows "stored_rec G c pre (bm_rng bm) (objs (bm_store bm)) x
    \<or> (\<exists>p. wal_entry_of (fst x) (snd x) \<in> dur_entries (g_wjson G) (bm_fs bm) p)"
proof -
  have "\<exists>p. wal_entry_of (fst x) (snd x) \<in> dur_entries (g_wjson G) (bm_fs bm) p"
    if "e \<in> set (pool bm fls)" "in_buf G okr (dur_entries (g_wjson G) (bm_fs bm)) e x" for e
  proof -
    have "live_ok G c okr (bm_fs bm) e" using assms(2) pool_live [OF that(1)] by (simp add: gw_wf_def)
    then obtain seg where "b_wal (snd e) = Some seg" using assms(3) by (auto simp: live_ok_def split: option.splits)
    then show ?thesis using that(2) by (auto simp: in_buf_def epath_def)
  qed
  then show ?thesis using assms(1) unfolding held_def in_memory_def orphaned_def by blast
qed

end

text \<open>The two sinks of the source.\<close>

interpretation mem_gateway: buffer_sink X "G\<lparr>g_put := ms_put_chunk X\<rparr>" ms_objects pre "\<lambda>m. ms_prefix m = pre" for X G pre
  by (simp add: buffer_sink_def mem.chunk_sink_axioms)

definition s3_gateway_env :: "s4_codec \<Rightarrow> 's s3_client \<Rightarrow> object_store \<Rightarrow> ('s, 'dt) buffer_env \<Rightarrow> ('s, 'dt) buffer_env" where
  "s3_gateway_env X cl st G = G\<lparr>g_put := os_put_chunk X cl st\<rparr>"

lemma s3_buffer_sink:
  assumes "put_law cl (os_bucket st) objs"
  shows "buffer_sink X (s3_gateway_env X cl st G) objs (os_prefix st) (\<lambda>_. True)"
  unfolding buffer_sink_def using object_store_sink [OF assms, of X] by (simp add: s3_gateway_env_def)

section \<open>The entry points are such runs\<close>

lemma taken_step:
  assumes "flush_one G c k b bm = (bm', res)" and "\<forall>n < N. fresh_suffix G n" and "bm_rng bm' \<le> N"
  shows "gw_run G c okr (bm, fls @ taken_of (k, b) # f2, ak) (bm', fls @ f2, ak)"
proof -
  obtain bm1 f where s: "flush_send G c k b bm = (bm1, f)" by (cases "flush_send G c k b bm")
  have nt: "\<forall>k b. f \<noteq> Taken k b" and rng: "bm_rng bm1 = bm_rng bm \<or> bm_rng bm1 = bm_rng bm + 1"
    using s by (auto simp: flush_send_def split: sum.splits option.splits prod.splits)
  have e: "flush_settle G f bm1 = (bm', res)" using assms(1) s by (simp add: flush_one_def)
  have "bm_rng bm' = bm_rng bm1"
    using e nt by (cases f) (auto simp: delete_segment_def reinsert_def Let_def split: option.splits)
  then have "bm_rng bm < bm_rng bm1 \<longrightarrow> fresh_suffix G (bm_rng bm)" using assms(2,3) by auto
  then have "gw_step G c okr (bm, fls @ Taken k b # f2, ak) (bm1, fls @ f # f2, ak)"
    by (rule gw_step.send [OF s])
  moreover have "gw_step G c okr (bm1, fls @ f # f2, ak) (bm', fls @ f2, ak)" by (rule gw_step.settle [OF nt e])
  ultimately show ?thesis by (simp add: taken_of_def)
qed

lemma flush_one_rng: "flush_one G c k b bm = (bm', res) \<Longrightarrow> bm_rng bm \<le> bm_rng bm'"
  by (auto simp: flush_one_def flush_send_def delete_segment_def reinsert_def Let_def
      split: sum.splits option.splits prod.splits if_splits)

lemma set_ok_step: "gw_step G c okr (bm, fls, ak) (bm\<lparr>bm_last_flush_ok := ok\<rparr>, fls, ak)"
  using gw_step.bookkeeping [of G c okr bm fls ak "bm_backpressure bm" ok "bm_now bm"] by simp

lemma flush_loop_rng: "flush_loop G c bs e0 bm = (bm', e1) \<Longrightarrow> bm_rng bm \<le> bm_rng bm'"
proof (induction bs arbitrary: e0 bm)
  case (Cons x bs)
  obtain k b where x: "x = (k, b)" by (cases x)
  obtain bm1 r where s: "flush_one G c k b bm = (bm1, r)" by (cases "flush_one G c k b bm")
  obtain e2 ok where "flush_loop G c bs e2 (bm1\<lparr>bm_last_flush_ok := ok\<rparr>) = (bm', e1)"
    using Cons.prems by (auto simp: x s split: sum.splits)
  from Cons.IH [OF this] flush_one_rng [OF s] show ?case by simp
qed simp

lemma flush_loop_run:
  assumes "flush_loop G c bs e0 bm = (bm', e1)" and "\<forall>n < N. fresh_suffix G n" and "bm_rng bm' \<le> N"
  shows "gw_run G c okr (bm, fls @ map taken_of bs, ak) (bm', fls, ak)"
  using assms
proof (induction bs arbitrary: e0 bm)
  case (Cons x bs)
  obtain k b where x: "x = (k, b)" by (cases x)
  obtain bm1 r where s: "flush_one G c k b bm = (bm1, r)" by (cases "flush_one G c k b bm")
  obtain e2 ok where l: "flush_loop G c bs e2 (bm1\<lparr>bm_last_flush_ok := ok\<rparr>) = (bm', e1)"
    using Cons.prems(1) by (auto simp: x s split: sum.splits)
  have "bm_rng bm1 \<le> N" using flush_loop_rng [OF l] Cons.prems(3) by simp
  from taken_step [OF s Cons.prems(2) this, of okr fls "map taken_of bs" ak]
  have "gw_run G c okr (bm, fls @ map taken_of (x # bs), ak) (bm1, fls @ map taken_of bs, ak)" by (simp add: x)
  moreover have "gw_step G c okr (bm1, fls @ map taken_of bs, ak) (bm1\<lparr>bm_last_flush_ok := ok\<rparr>, fls @ map taken_of bs, ak)"
    by (rule set_ok_step)
  ultimately show ?case
    using Cons.IH [OF l Cons.prems(2,3)] by (meson rtranclp.rtrancl_into_rtrancl rtranclp_trans)
qed simp

lemma flush_taken_run:
  assumes "flush_taken G c bs bm = (bm', res)" and "\<forall>n < N. fresh_suffix G n" and "bm_rng bm' \<le> N"
  shows "gw_run G c okr (bm, fls @ map taken_of bs, ak) (bm', fls, ak)" and "bm_rng bm \<le> bm_rng bm'"
proof -
  obtain e where "flush_loop G c bs None bm = (bm', e)"
    using assms(1) by (auto simp: flush_taken_def split: prod.splits option.splits)
  then show "gw_run G c okr (bm, fls @ map taken_of bs, ak) (bm', fls, ak)" and "bm_rng bm \<le> bm_rng bm'"
    using flush_loop_run [OF _ assms(2,3)] flush_loop_rng by blast+
qed

lemma take_flush_run:
  assumes "remove_entries ks (bm_buffers bm) = (t, m)" and "flush_taken G c t (bm\<lparr>bm_buffers := m\<rparr>) = (bm', res)"
    and "\<forall>n < N. fresh_suffix G n" and "bm_rng bm' \<le> N"
  shows "gw_run G c okr (bm, fls, ak) (bm', fls, ak)"
  using gw_step.take [OF assms(1), of G c okr fls ak] flush_taken_run(1) [OF assms(2,3,4), of okr fls ak]
  by (rule converse_rtranclp_into_rtranclp)

lemma reserve_run:
  assumes "reserve G c n bm = (bm', res)" and "\<forall>n < N. fresh_suffix G n" and "bm_rng bm' \<le> N"
  shows "gw_run G c okr (bm, fls, ak) (bm', fls, ak)"
proof -
  have chk: "gw_step G c okr (bm1, fls, ak) (bm2, fls, ak) \<and> bm_rng bm2 = bm_rng bm1" if "reserve_check c n bm1 = (bm2, r)" for bm1 bm2 r
  proof -
    have "bm2 = bm1\<lparr>bm_now := bm_now bm1, bm_last_flush_ok := bm_last_flush_ok bm1, bm_backpressure := bm_backpressure bm2\<rparr>"
      using that by (auto simp: reserve_check_def split: if_splits)
    moreover have "bm_rng bm2 = bm_rng bm1" using that by (auto simp: reserve_check_def split: if_splits)
    ultimately show ?thesis by (metis gw_step.bookkeeping)
  qed
  obtain bm1 t where s: "reserve_take G c n bm = (bm1, t)" by (cases "reserve_take G c n bm")
  show ?thesis
  proof (cases "\<exists>k b. t = Some (Some (k, b))")
    case False
    then have "bm1 = bm" using s by (auto simp: reserve_take_def split: if_splits option.splits)
    then show ?thesis
      using False assms(1) s chk by (cases t) (auto simp: reserve_def split: option.splits)
  next
    case True
    then obtain k b where t: "t = Some (Some (k, b))" by blast
    then have r: "remove_entries [k] (bm_buffers bm) = ([(k, b)], buf_remove k (bm_buffers bm))"
      and b1: "bm1 = bm\<lparr>bm_buffers := buf_remove k (bm_buffers bm)\<rparr>"
      using s by (auto simp: reserve_take_def split: if_splits option.splits)
    obtain bm2 e where f: "flush_taken G c [(k, b)] bm1 = (bm2, e)" by (cases "flush_taken G c [(k, b)] bm1")
    have c2: "reserve_check c n bm2 = (bm', res)" using assms(1) s t f by (simp add: reserve_def)
    then have "bm_rng bm2 \<le> N" using chk assms(3) by metis
    from take_flush_run [OF r f [unfolded b1] assms(2) this] chk [OF c2]
    show ?thesis by (meson rtranclp.rtrancl_into_rtrancl)
  qed
qed


lemma push_one_rng: "push_one G c g r bm = (bm', res) \<Longrightarrow> bm_rng bm \<le> bm_rng bm'"
  by (auto simp: push_one_def open_buf_def log_append_def Let_def split: prod.splits sum.splits option.splits)

lemma push_loop_rng: "push_loop G c xs bm = (bm', res) \<Longrightarrow> bm_rng bm \<le> bm_rng bm'"
proof (induction xs arbitrary: bm)
  case (Cons x xs)
  obtain g r where x: "x = (g, r)" by (cases x)
  obtain bm1 r1 where s: "push_one G c g r bm = (bm1, r1)" by (cases "push_one G c g r bm")
  show ?case
  proof (cases r1)
    case (Inl e)
    then show ?thesis using Cons.prems x s push_one_rng [OF s] by auto
  next
    case (Inr u)
    then have "push_loop G c xs bm1 = (bm', res)" using Cons.prems x s by simp
    then show ?thesis using Cons.IH push_one_rng [OF s] by (meson order_trans)
  qed
qed simp

lemma sync_loop_rng: "sync_loop ks bm = (bm', res) \<Longrightarrow> bm_rng bm' = bm_rng bm"
  by (induction ks arbitrary: bm) (auto simp: Let_def split: option.splits prod.splits sum.splits)

lemma accept_batch_rng: "accept_batch G c xs bm = (bm', res) \<Longrightarrow> bm_rng bm \<le> bm_rng bm'"
  by (auto simp: accept_batch_def sync_wal_def dest!: push_loop_rng sync_loop_rng split: prod.splits sum.splits)

lemma push_events_run:
  assumes p: "push_events G c g strm events bm = (bm', res)" and N: "\<forall>n < N. fresh_suffix G n" "bm_rng bm' \<le> N"
    and okr: "\<forall>ev \<in> set events. okr g (record_of_input strm ev)"
  shows "gw_run G c okr (bm, [], ak) (bm', [], ak @ (if is_ok res then map (\<lambda>ev. (g, record_of_input strm ev)) events else []))"
proof -
  let ?xs = "map (\<lambda>ev. (g, record_of_input strm ev)) events"
  have okx: "\<forall>(g, r) \<in> set ?xs. okr g r" using okr by auto
  obtain bm1 r1 where s1: "reserve G c (batch_size strm events) bm = (bm1, r1)" by (cases "reserve G c (batch_size strm events) bm")
  show ?thesis
  proof (cases r1)
    case (Inl e)
    then have "bm' = bm1" "res = Inl e" using p s1 by (simp_all add: push_events_def)
    then show ?thesis using reserve_run [OF s1 N(1), of okr "[]" ak] N(2) by simp
  next
    case (Inr u)
    obtain bm2 r2 where s2: "accept_batch G c ?xs bm1 = (bm2, r2)" by (cases "accept_batch G c ?xs bm1")
    show ?thesis
    proof (cases r2)
      case (Inl e)
      then have r: "bm' = bm2" "res = Inl e" using p s1 s2 Inr by (simp_all add: push_events_def)
      have "bm_rng bm1 \<le> N" using accept_batch_rng [OF s2] N(2) r by simp
      from reserve_run [OF s1 N(1) this, of okr "[]" ak] gw_step.reject [OF okx s2 [unfolded Inl], of "[]" ak]
      show ?thesis using r by (simp add: rtranclp.rtrancl_into_rtrancl)
    next
      case due: (Inr due)
      obtain e where f: "flush_taken G c due bm2 = (bm', e)" and r: "res = Inr ()"
        using p s1 s2 Inr due by (cases "flush_taken G c due bm2") (auto simp: push_events_def)
      note fr = flush_taken_run [OF f N]
      have "bm_rng bm1 \<le> N" using accept_batch_rng [OF s2] fr(2) N(2) by simp
      from reserve_run [OF s1 N(1) this, of okr "[]" ak] gw_step.accept [OF okx s2 [unfolded due], of "[]" ak]
      have "gw_run G c okr (bm, [], ak) (bm2, map taken_of due, ak @ ?xs)" by (simp add: rtranclp.rtrancl_into_rtrancl)
      with fr(1) [of okr "[]" "ak @ ?xs"] show ?thesis using r by (auto intro: rtranclp_trans)
    qed
  qed
qed

lemma sweep_expired_run:
  assumes "sweep_expired G c bm = bm'" and "\<forall>n < N. fresh_suffix G n" and "bm_rng bm' \<le> N"
  shows "gw_run G c okr (bm, fls, ak) (bm', fls, ak)"
proof -
  obtain t m where t: "take_matching G (\<lambda>b. bm_now bm - b_opened_at b \<ge> bc_flush_interval c) (bm_buffers bm) = (t, m)"
    by (cases "take_matching G (\<lambda>b. bm_now bm - b_opened_at b \<ge> bc_flush_interval c) (bm_buffers bm)")
  obtain r where "flush_taken G c t (bm\<lparr>bm_buffers := m\<rparr>) = (bm', r)"
    using assms(1) t by (cases "flush_taken G c t (bm\<lparr>bm_buffers := m\<rparr>)") (simp add: sweep_expired_def)
  from take_flush_run [OF t [unfolded take_matching_def] this assms(2,3)] show ?thesis .
qed

lemma flush_all_run:
  assumes "flush_all G c bm = (bm', res)" and "\<forall>n < N. fresh_suffix G n" and "bm_rng bm' \<le> N"
  shows "gw_run G c okr (bm, fls, ak) (bm', fls, ak)"
proof -
  obtain t m where t: "take_matching G (\<lambda>_. True) (bm_buffers bm) = (t, m)" by (cases "take_matching G (\<lambda>_. True) (bm_buffers bm)")
  then have "flush_taken G c t (bm\<lparr>bm_buffers := m\<rparr>) = (bm', res)" using assms(1) by (simp add: flush_all_def)
  from take_flush_run [OF t [unfolded take_matching_def] this assms(2,3)] show ?thesis .
qed

end
