(* ===== verification/S4_Gateway.thy ===== *)
theory S4_Gateway
  imports S4_Durability
begin

text \<open>
  Replay of the WAL, shutdown, and what the gateway promises its clients: the properties of the buffer
  manager as a whole.
\<close>

section \<open>Replay\<close>

lemma sys_remove_ok:
  assumes "fs_ok J fs"
  shows "fs_ok J (fst (sys_remove_file p fs))" and "fs_durable (fst (sys_remove_file p fs)) = fs_durable fs"
    and "q \<noteq> p \<Longrightarrow> fs_files (fst (sys_remove_file p fs)) q = fs_files fs q"
proof -
  obtain fs1 f where nf: "next_fault fs = (fs1, f)" by (cases "next_fault fs")
  note n = next_faultD [OF nf] and ok1 = fs_ok_fault [OF nf assms]
  show "fs_ok J (fst (sys_remove_file p fs))"
    using ok1 nf by (auto simp: sys_remove_file_def fs_ok_def clean_faults_def split: option.splits)
  show "fs_durable (fst (sys_remove_file p fs)) = fs_durable fs"
    and "q \<noteq> p \<Longrightarrow> fs_files (fst (sys_remove_file p fs)) q = fs_files fs q"
    using n nf by (auto simp: sys_remove_file_def split: option.splits)
qed

lemma remove_all_ok:
  assumes "fs_ok J fs"
  shows "fs_ok J (remove_all ps fs) \<and> fs_durable (remove_all ps fs) = fs_durable fs
    \<and> (\<forall>q. q \<notin> set ps \<longrightarrow> fs_files (remove_all ps fs) q = fs_files fs q)"
  using assms
proof (induction ps arbitrary: fs)
  case (Cons p ps)
  have "fs_files (fst (sys_remove_file p fs)) q = fs_files fs q" if "q \<noteq> p" for q
    using sys_remove_ok(3) [OF Cons.prems that] .
  then show ?case using Cons.IH [OF sys_remove_ok(1) [OF Cons.prems, of p]] sys_remove_ok(2) [OF Cons.prems, of p] by simp
qed simp

lemma removed_keeps:
  assumes wf: "gw_wf G c okr bm fls" and un: "\<forall>p \<in> set ps. unowned bm fls p"
    and bm': "bm' = bm\<lparr>bm_fs := remove_all ps (bm_fs bm)\<rparr>"
  shows "gw_wf G c okr bm' fls" and "in_memory G okr dur_entries bm fls x \<Longrightarrow> in_memory G okr dur_entries bm' fls x"
proof -
  have fok: "fs_ok (g_wjson G) (bm_fs bm)" using wf by (simp add: gw_wf_def)
  note r = remove_all_ok [OF fok, of ps]
  have lv: "live bm' fls = live bm fls" "pool bm' fls = pool bm fls" "bm_fs bm' = remove_all ps (bm_fs bm)"
    by (simp_all add: bm' live_def pool_def)
  have "live_ok G c okr (bm_fs bm') e" if "e \<in> set (live bm fls)" for e
  proof -
    have lo: "live_ok G c okr (bm_fs bm) e" using wf that by (simp add: gw_wf_def)
    have "p \<notin> set ps" if "epath e = Some p" for p
      using un \<open>e \<in> set (live bm fls)\<close> that unfolding unowned_def paths_set by blast
    then have "seg_ok (bm_fs bm) seg \<Longrightarrow> seg_ok (bm_fs bm') seg" if "b_wal (snd e) = Some seg" for seg
      using r that by (simp add: seg_ok_def lv epath_def)
    then show ?thesis using lo by (auto simp: live_ok_def split: option.splits)
  qed
  then show "gw_wf G c okr bm' fls" using wf r unfolding gw_wf_def lv by (simp add: bm')
  show "in_memory G okr dur_entries bm' fls x" if "in_memory G okr dur_entries bm fls x"
  proof -
    have "dur_entries (g_wjson G) (remove_all ps (bm_fs bm)) = dur_entries (g_wjson G) (bm_fs bm)"
      using r by (intro ext) (simp add: dur_entries_def)
    then show ?thesis using that unfolding in_memory_def lv by simp
  qed
qed

lemma replay_section_restores:
  assumes wf: "gw_wf G c okr bm []" and L: "gw_laws G c okr"
    and segs: "\<forall>(p, es) \<in> set segs. unowned bm [] p \<and> (\<forall>e \<in> set es. okr (wl_log_group e) (record_of_entry e))"
    and r: "replay_section G c segs bm = (bm', Inr due)" and x: "x \<in> set (replay_records segs)"
  shows "in_memory G okr dur_entries bm' (map taken_of due) x \<and> gw_wf G c okr bm' (map taken_of due)
    \<and> bm_dropped bm' = bm_dropped bm \<and> bm_store bm' = bm_store bm"
proof -
  have okx: "\<forall>(g, r) \<in> set (replay_records segs). okr g r" using segs by (fastforce simp: replay_records_def)
  from r obtain bm1 u where s1: "push_loop G c (replay_records segs) bm = (bm1, Inr u)"
    by (auto simp: replay_section_def split: prod.splits sum.splits)
  from r s1 obtain bm2 v where s2: "sync_wal G bm1 = (bm2, Inr v)"
    by (auto simp: replay_section_def split: prod.splits sum.splits)
  note 1 = push_loop_keeps [OF wf L okx s1] and 2 = sync_wal_keeps [OF _ L s2]
  note 2 = 2 [OF keeps_wf [OF conjunct1 [OF 1]]]
  note k = keeps_trans [OF conjunct1 [OF 1] conjunct1 [OF 2]]
  have mem: "in_memory G okr dur_entries bm2 [] x" using 1 2 x by (cases x) auto
  define bm3 where "bm3 = bm2\<lparr>bm_fs := remove_all (map fst segs) (bm_fs bm2)\<rparr>"
  have un: "\<forall>p \<in> set (map fst segs). unowned bm2 [] p" using segs keepsD(3) [OF k] by fastforce
  note 3 = removed_keeps [OF keeps_wf [OF k] un bm3_def]
  obtain m where t: "take_matching G (\<lambda>b. uncompressed_len (b_writer b) \<ge> bc_flush_bytes c) (bm_buffers bm3) = (due, m)"
    and b: "bm' = bm3\<lparr>bm_buffers := m\<rparr>"
    using r s1 s2 by (auto simp: replay_section_def bm3_def Let_def split: prod.splits)
  have d: "distinct (map fst (bm_buffers bm3))" using 3(1) by (simp add: gw_wf_def)
  from remove_entries_mset [OF d t [unfolded take_matching_def]]
  show ?thesis using moved(1,2) [OF 3(1) _ _ b, of due] 3(2) [OF mem] keepsD(4,6) [OF k] by (simp add: b bm3_def)
qed

section \<open>Shutdown\<close>

lemma remove_entries_all:
  assumes "fst ` set m \<subseteq> set ks" and "remove_entries ks m = (t, m')"
  shows "m' = []"
  using assms
proof (induction ks m arbitrary: t m' rule: remove_entries.induct)
  case (2 k ks m)
  show ?case
  proof (cases "map_of m k")
    case None
    then have "fst ` set m \<subseteq> set ks" using 2(3) by (auto simp: map_of_eq_None_iff)
    then show ?thesis using 2 None by simp
  next
    case (Some b)
    then obtain t' where "remove_entries ks (buf_remove k m) = (t', m')" using 2(4) by (auto split: prod.splits)
    moreover have "fst ` set (buf_remove k m) \<subseteq> set ks" using 2(3) by (auto simp: buf_remove_def)
    ultimately show ?thesis using 2(2) [OF Some] by blast
  qed
qed auto

lemma flush_loop_failed: "flush_loop G c bs (Some e) bm = (bm', r) \<Longrightarrow> r = Some e"
  by (induction bs arbitrary: bm) (auto split: prod.splits sum.splits)

lemma flush_one_ok:
  assumes "flush_one G c k b bm = (bm', Inr u)"
  shows "bm_buffers bm' = bm_buffers bm \<and> bm_dropped bm' = bm_dropped bm"
  using assms by (auto simp: flush_one_def flush_send_def delete_segment_def split: sum.splits option.splits prod.splits)

lemma flush_loop_ok:
  "flush_loop G c bs None bm = (bm', None) \<Longrightarrow> bm_buffers bm' = bm_buffers bm \<and> bm_dropped bm' = bm_dropped bm"
proof (induction bs arbitrary: bm)
  case (Cons x bs)
  obtain k b where x: "x = (k, b)" by (cases x)
  obtain bm1 r1 where s: "flush_one G c k b bm = (bm1, r1)" by (cases "flush_one G c k b bm")
  show ?case
  proof (cases r1)
    case (Inl e)
    then show ?thesis using Cons.prems s by (auto simp: x dest: flush_loop_failed)
  next
    case (Inr u)
    then have "flush_loop G c bs None (bm1\<lparr>bm_last_flush_ok := True\<rparr>) = (bm', None)"
      using Cons.prems s by (simp add: x)
    then show ?thesis using Cons.IH flush_one_ok [OF s [unfolded Inr]] by simp
  qed
qed simp

lemma flush_all_empty:
  assumes "\<forall>m. mset (g_iter G m) = mset m" and "flush_all G c bm = (bm', Inr u)"
  shows "bm_buffers bm' = [] \<and> bm_dropped bm' = bm_dropped bm"
proof -
  obtain t m where t: "take_matching G (\<lambda>_. True) (bm_buffers bm) = (t, m)" by (cases "take_matching G (\<lambda>_. True) (bm_buffers bm)")
  have "set (g_iter G (bm_buffers bm)) = set (bm_buffers bm)" using assms(1) by (metis set_mset_mset)
  then have "m = []" using remove_entries_all [OF _ t [unfolded take_matching_def]] by simp
  moreover have "flush_loop G c t None (bm\<lparr>bm_buffers := m\<rparr>) = (bm', None)"
    using assms(2) t by (auto simp: flush_all_def flush_taken_def split: prod.splits option.splits)
  ultimately show ?thesis using flush_loop_ok(1) by fastforce
qed

lemma sys_read_ok:
  assumes "sys_read p fs = (fs', Inr b)"
  shows "fs_files fs p = Some b \<and> fs_files fs' = fs_files fs \<and> fs_durable fs' = fs_durable fs \<and> (fs_ok J fs \<longrightarrow> fs_ok J fs')"
proof -
  obtain fs1 f where nf: "next_fault fs = (fs1, f)" by (cases "next_fault fs")
  show ?thesis using assms nf next_faultD [OF nf] fs_ok_fault [OF nf]
    by (auto simp: sys_read_def split: option.splits)
qed

lemma scan_files_ok:
  assumes "scan_files J ps fs = (fs', Inr segs)" and "fs_ok J fs"
  shows "map fst segs = ps \<and> fs_files fs' = fs_files fs \<and> fs_durable fs' = fs_durable fs \<and> fs_ok J fs'
    \<and> (\<forall>(p, es) \<in> set segs. \<exists>b. fs_files fs p = Some b \<and> es = wal_entries J b)"
  using assms
proof (induction ps arbitrary: fs segs)
  case (Cons p ps)
  then obtain fs1 b rest where r: "sys_read p fs = (fs1, Inr b)" and s: "scan_files J ps fs1 = (fs', Inr rest)"
    and e: "segs = (p, wal_entries J b) # rest"
    by (auto split: prod.splits sum.splits)
  note 1 = sys_read_ok [OF r, of J]
  then have "fs_ok J fs1" using Cons.prems(2) by simp
  from Cons.IH [OF s this] 1 show ?case by (auto simp: e)
qed simp

lemma scan_dir_ok:
  assumes "scan_dir J fs = (fs', Inr segs)" and "fs_ok J fs" and "fs_dir fs" and "finite (dom (fs_files fs))"
  shows "fs_files fs' = fs_files fs \<and> fs_durable fs' = fs_durable fs \<and> fs_ok J fs'
    \<and> (\<forall>(p, es) \<in> set segs. \<exists>b. fs_files fs p = Some b \<and> es = wal_entries J b)
    \<and> (\<forall>p b. fs_files fs p = Some b \<and> is_wal p \<longrightarrow> (p, wal_entries J b) \<in> set segs)"
proof -
  obtain fs1 f where nf: "next_fault fs = (fs1, f)" by (cases "next_fault fs")
  let ?ps = "sorted_list_of_set {p \<in> dom (fs_files fs). is_wal p}"
  have s: "scan_files J ?ps fs1 = (fs', Inr segs)"
    using assms(1,3) nf next_faultD [OF nf] by (auto simp: scan_dir_def sys_read_dir_def split: option.splits)
  from scan_files_ok [OF s fs_ok_fault [OF nf assms(2)]] next_faultD [OF nf]
  have *: "map fst segs = ?ps" "fs_files fs' = fs_files fs" "fs_durable fs' = fs_durable fs" "fs_ok J fs'"
    "\<forall>(p, es) \<in> set segs. \<exists>b. fs_files fs p = Some b \<and> es = wal_entries J b" by auto
  have "(p, wal_entries J b) \<in> set segs" if "fs_files fs p = Some b" "is_wal p" for p b
  proof -
    have "p \<in> set (map fst segs)" using that assms(4) by (simp add: *(1) dom_def)
    then obtain es where "(p, es) \<in> set segs" by auto
    then show ?thesis using *(5) that(1) by fastforce
  qed
  then show ?thesis using * by blast
qed

context buffer_sink
begin

lemma run_held:
  assumes "gw_run G c okr (bm_new s fs, [], []) (bm, fls, ak)" and "gw_laws G c okr" and "fs_ok (g_wjson G) fs"
    and "inv s" and "bm_dropped bm = 0 \<or> bc_wal_dir c \<noteq> None" and "x \<in> set ak"
  shows "held c okr bm fls x" and "gw_wf G c okr bm fls"
  using gw_run_inv [OF assms(1,2) gw_inv_start [OF assms(3,4)]] assms(5,6) by (auto simp: gw_inv_def)

lemma flushed_held:
  assumes "held c okr bm [] x" and "bm_buffers bm = []"
  shows "stored_rec G c pre (bm_rng bm) (objs (bm_store bm)) x \<or> orphaned G bm [] x"
  using assms by (auto simp: held_def in_memory_def pool_def)

lemma replay_held:
  assumes r: "replay_wal G c (bm_new s fs) = (bm', Inr n)" and L: "gw_laws G c okr" and fok: "fs_ok (g_wjson G) fs"
    and i: "inv s" and dir: "bc_wal_dir c \<noteq> None" "fs_dir fs" "finite (dom (fs_files fs))"
    and N: "\<forall>n < bm_rng bm'. fresh_suffix G n"
    and okr: "\<forall>p b. fs_files fs p = Some b \<longrightarrow> (\<forall>e \<in> set (wal_entries (g_wjson G) b). okr (wl_log_group e) (record_of_entry e))"
    and e: "fs_files fs p = Some b" "is_wal p" "e \<in> set (wal_entries (g_wjson G) b)"
  shows "held c okr bm' [] (wl_log_group e, record_of_entry e) \<and> gw_wf G c okr bm' []"
proof -
  obtain fs1 segs where sc: "scan_dir (g_wjson G) fs = (fs1, Inr segs)"
    using r dir(1) by (auto simp: replay_wal_def bm_new_def split: prod.splits sum.splits option.splits)
  note d = scan_dir_ok [OF sc fok dir(2,3)]
  let ?bm = "bm_new s fs\<lparr>bm_fs := fs1\<rparr>"
  have mem: "(p, wal_entries (g_wjson G) b) \<in> set segs" using d e by blast
  then have ne: "segs \<noteq> []" by auto
  obtain bm1 due where s1: "replay_section G c segs ?bm = (bm1, Inr due)"
    and f: "flush_taken G c due bm1 = (bm', Inr ())"
    using r dir(1) sc ne by (cases segs) (auto simp: replay_wal_def bm_new_def split: prod.splits sum.splits option.splits)
  have wf: "gw_wf G c okr ?bm []" using d by (simp add: gw_wf_def bm_new_def live_def)
  have segs: "\<forall>(q, es) \<in> set segs. unowned ?bm [] q \<and> (\<forall>e \<in> set es. okr (wl_log_group e) (record_of_entry e))"
    using d okr by (fastforce simp: unowned_def bm_new_def live_def)
  have x: "(wl_log_group e, record_of_entry e) \<in> set (replay_records segs)" (is "?x \<in> _")
    using mem e(3) by (force simp: replay_records_def)
  note 1 = replay_section_restores [OF wf L segs s1]
  have "gw_inv c okr (bm1, map taken_of due, replay_records segs)"
    unfolding gw_inv_def prod.case held_def using 1 x i by (auto simp: bm_new_def)
  from gw_run_inv [OF _ L this] flush_taken_run(1) [OF f N order_refl, of okr "[]"]
  have "gw_inv c okr (bm', [], replay_records segs)" by simp
  then show ?thesis using x dir(1) by (auto simp: gw_inv_def)
qed

end

section \<open>What the gateway promises\<close>

text \<open>Concrete collaborators, for evaluation.\<close>

abbreviation one_group :: "string \<Rightarrow> log_record \<Rightarrow> bool" where
  "one_group g r \<equiv> g = ''g'' \<and> r = sample_record 5"

definition one_json :: "wal_entry serde" where
  "one_json = \<lparr>to_json = (\<lambda>_. Inr [65]), from_json = (\<lambda>_. Inr (wal_entry_of ''g'' (sample_record 5)))\<rparr>"

definition one_base :: "(string \<rightharpoonup> bytes, unit) buffer_env" where
  "one_base =
     \<lparr>g_put = (\<lambda>_ _ s. (s, Inl (Storage ''down''))), g_sink_ready = (\<lambda>s. (s, True)), g_chunk = sample_env, g_wjson = one_json,
      g_chrono = \<lparr>from_timestamp_millis = (\<lambda>_. None), UNIX_EPOCH = (), format_ymd = (\<lambda>_. ''d'')\<rparr>,
      g_uuid = show_nat, g_iter = id\<rparr>"

definition one_env :: "(string \<rightharpoonup> bytes, unit) buffer_env" where
  "one_env = s3_gateway_env sample_codec map_client (os_new ''b'' ''p'') one_base"

definition one_cfg :: buffer_config where
  "one_cfg = buffer_config_default\<lparr>bc_wal_dir := Some ''wal''\<rparr>"

definition one_fs :: wal_fs where
  "one_fs = \<lparr>fs_dir = True, fs_files = Map.empty, fs_durable = Map.empty, fs_faults = [], fs_dirsync = True\<rparr>"

definition one_event :: input_log_event where
  "one_event = \<lparr>ile_timestamp = 5, ile_message = ''m''\<rparr>"

lemma one_env_fields:
  "g_chunk one_env = sample_env" "g_wjson one_env = one_json" "g_uuid one_env = show_nat" "g_iter one_env = id"
  "date_from_ts_ms (g_chrono one_env) t = ''d''" "g_put one_env = os_put_chunk sample_codec map_client (os_new ''b'' ''p'')"
  by (simp_all add: one_env_def one_base_def s3_gateway_env_def date_from_ts_ms_def)

lemma one_record: "record_of_input ''s'' one_event = sample_record 5"
  by (simp add: record_of_input_def one_event_def sample_record_def)

lemma one_json_faithful:
  "json_faithful (json sample_env) (sample_record 5)" "json_faithful one_json (wal_entry_of ''g'' (sample_record 5))"
  by (simp_all add: json_faithful_def one_json_def sample_env_def sample_json_def)

lemma one_laws: "gw_laws one_env one_cfg one_group"
  by (simp add: gw_laws_def one_env_fields sample_zstd_faithful one_cfg_def buffer_config_default_def
      one_json_faithful byte_in_def)

lemma one_fs_ok: "fs_ok (g_wjson one_base) one_fs"
  by (simp add: fs_ok_def one_fs_def clean_faults_def)

lemma one_fresh: "fresh_suffix one_env n"
  by (simp add: fresh_suffix_def one_env_fields)

abbreviation one_path :: string where
  "one_path \<equiv> wal_name ''g'' ''d'' (show_nat 0)"

lemma one_create:
  "wal_create ''g'' ''d'' (show_nat 0) one_fs =
     (one_fs\<lparr>fs_files := [one_path \<mapsto> []], fs_durable := [one_path \<mapsto> []]\<rparr>, Inr \<lparr>seg_path = one_path, seg_dirty = False\<rparr>)"
  by (auto simp: wal_create_def sys_create_dir_all_def sys_create_new_def next_fault_def one_fs_def sync_parent_dir_def fsync_dir_def fun_eq_iff)

lemma one_writer: "\<exists>w. cw_push sample_env (sample_record 5) (cw_new chunk_config_default) = (w, Inr ()) \<and> uncompressed_len w = 2"
  by (simp add: cw_push_def cw_new_def sample_env_def sample_json_def chunk_config_default_def uncompressed_len_def append_jsonl_def Let_def)

abbreviation one_stored :: wal_fs where
  "one_stored \<equiv> one_fs\<lparr>fs_files := [one_path \<mapsto> [65, NL]], fs_durable := [one_path \<mapsto> [65, NL]]\<rparr>"

lemma one_accept:
  "\<exists>b. uncompressed_len (b_writer b) = 2 \<and> b_opened_at b = 0 \<and> accept_batch one_env one_cfg [(''g'', sample_record 5)] (bm_new s one_fs)
     = ((bm_new s one_fs)\<lparr>bm_fs := one_stored, bm_rng := Suc 0, bm_buffers := [((''g'', ''d''), b)]\<rparr>, Inr [])"
proof -
  obtain w where w: "cw_push sample_env (sample_record 5) (cw_new chunk_config_default) = (w, Inr ())" "uncompressed_len w = 2"
    using one_writer by blast
  let ?b = "\<lambda>d w. \<lparr>b_writer = w, b_first_event_ts_ms = 5, b_opened_at = 0, b_wal = Some \<lparr>seg_path = one_path, seg_dirty = d\<rparr>\<rparr>"
  have o: "open_buf one_env one_cfg (''g'', ''d'') (sample_record 5) (bm_new s one_fs) =
     ((bm_new s one_fs)\<lparr>bm_fs := one_fs\<lparr>fs_files := [one_path \<mapsto> []], fs_durable := [one_path \<mapsto> []]\<rparr>, bm_rng := 1,
        bm_buffers := [((''g'', ''d''), ?b False (cw_new chunk_config_default))]\<rparr>, Inr (?b False (cw_new chunk_config_default)))"
    by (simp add: open_buf_def bm_new_def one_env_fields one_cfg_def buffer_config_default_def one_create sample_record_def buf_set_def Let_def)
  let ?bm = "\<lambda>fs d w. (bm_new s one_fs)\<lparr>bm_fs := fs, bm_rng := Suc 0, bm_buffers := [((''g'', ''d''), ?b d w)]\<rparr>"
  let ?fs = "one_fs\<lparr>fs_files := [one_path \<mapsto> [65, NL]], fs_durable := [one_path \<mapsto> []]\<rparr>"
  have l: "log_append one_env (''g'', ''d'') (sample_record 5) (?b False v) (?bm (one_fs\<lparr>fs_files := [one_path \<mapsto> []], fs_durable := [one_path \<mapsto> []]\<rparr>) False v)
     = (?bm ?fs True v, Inr (?b True v))" for v
    by (simp add: log_append_def wal_append_def one_env_fields one_json_def sys_write_all_def next_fault_def one_fs_def buf_set_def Let_def)
  have p: "push_loop one_env one_cfg [(''g'', sample_record 5)] (bm_new s one_fs) = (?bm ?fs True w, Inr ())"
    by (simp add: push_one_def rec_key_def o l w one_env_fields buf_set_def Let_def)
  have y: "sync_wal one_env (?bm ?fs True w) = (?bm one_stored False w, Inr ())"
    by (simp add: sync_wal_def one_env_fields wal_sync_def sys_sync_data_def next_fault_def one_fs_def buf_set_def Let_def)
  show ?thesis
    by (rule exI [of _ "?b False w"], unfold accept_batch_def p prod.case sum.case y)
      (simp add: take_matching_def one_env_fields w cap_loop.simps buffered_total_def buf_len_def one_cfg_def buffer_config_default_def)
qed

lemma one_pushed:
  "\<exists>b. uncompressed_len (b_writer b) = 2 \<and> b_opened_at b = 0 \<and> push_events one_env one_cfg ''g'' ''s'' [one_event] (bm_new s one_fs)
     = ((bm_new s one_fs)\<lparr>bm_fs := one_stored, bm_rng := Suc 0, bm_buffers := [((''g'', ''d''), b)]\<rparr>, Inr ())"
proof -
  have r: "reserve one_env one_cfg (batch_size ''s'' [one_event]) (bm_new s one_fs) = (bm_new s one_fs, Inr ())"
    by (simp add: reserve_def reserve_take_def bm_new_def buffered_total_def batch_size_def one_event_def one_cfg_def buffer_config_default_def)
  from one_accept [of s] obtain b where b: "uncompressed_len (b_writer b) = 2" "b_opened_at b = 0"
    and a: "accept_batch one_env one_cfg [(''g'', sample_record 5)] (bm_new s one_fs)
     = ((bm_new s one_fs)\<lparr>bm_fs := one_stored, bm_rng := Suc 0, bm_buffers := [((''g'', ''d''), b)]\<rparr>, Inr [])"
    by (elim exE conjE) (rule that)
  show ?thesis by (rule exI [of _ b]) (simp add: push_events_def r a b one_record flush_taken_def)
qed

lemma one_run:
  "\<exists>b. gw_run one_env one_cfg one_group (bm_new s one_fs, [], [])
     ((bm_new s one_fs)\<lparr>bm_fs := one_stored, bm_rng := Suc 0, bm_buffers := [((''g'', ''d''), b)]\<rparr>, [], [(''g'', sample_record 5)])"
proof -
  obtain b where "push_events one_env one_cfg ''g'' ''s'' [one_event] (bm_new s one_fs)
     = ((bm_new s one_fs)\<lparr>bm_fs := one_stored, bm_rng := Suc 0, bm_buffers := [((''g'', ''d''), b)]\<rparr>, Inr ())"
    using one_pushed by blast
  from push_events_run [OF this, of 1 one_group "[]"] one_fresh show ?thesis by (auto simp: one_record)
qed



text \<open>
  C22: the request handler refines the transition system. \<open>push_events\<close> is a run of its locked sections
  and flushes, and it acknowledges exactly when it returns Ok: then every event of the batch is added
  to the acknowledged records, otherwise none.
\<close>

theorem push_events_refines:
  assumes "push_events G c g strm events bm = (bm', res)" and "\<forall>n < bm_rng bm'. fresh_suffix G n"
    and "\<forall>ev \<in> set events. okr g (record_of_input strm ev)"
  shows "gw_run G c okr (bm, [], ak) (bm', [], ak @ (if is_ok res then map (\<lambda>ev. (g, record_of_input strm ev)) events else []))"
  using push_events_run [OF assms(1,2), of okr ak] assms(3) by simp

theorem push_events_refines_witness:
  "\<exists>bm'. push_events one_env one_cfg ''g'' ''s'' [one_event] (bm_new Map.empty one_fs) = (bm', Inr ())
    \<and> gw_run one_env one_cfg one_group (bm_new Map.empty one_fs, [], []) (bm', [], [(''g'', sample_record 5)])"
proof -
  obtain b where p: "push_events one_env one_cfg ''g'' ''s'' [one_event] (bm_new Map.empty one_fs)
     = ((bm_new Map.empty one_fs)\<lparr>bm_fs := one_stored, bm_rng := Suc 0, bm_buffers := [((''g'', ''d''), b)]\<rparr>, Inr ())"
    using one_pushed by blast
  from push_events_refines [OF this, of one_group "[]"] one_fresh p show ?thesis by (auto simp: one_record)
qed

abbreviation one_bm :: "buf \<Rightarrow> (string \<rightharpoonup> bytes) buffer_manager" where
  "one_bm b \<equiv> (bm_new Map.empty one_fs)\<lparr>bm_fs := one_stored, bm_rng := Suc 0, bm_buffers := [((''g'', ''d''), b)]\<rparr>"

lemma one_fields: "g_wjson one_base = one_json" "bc_wal_dir one_cfg = Some ''wal''"
  by (simp_all add: one_base_def one_cfg_def)



lemma push_one_quiet:
  assumes "push_one G c g r bm = (bm', res)"
  shows "res \<noteq> Inl OverCapacity \<and> bm_backpressure bm' = bm_backpressure bm"
proof (cases "cw_push (g_chunk G) r (b_writer (projr (snd (log_append G (rec_key G g r) r
    (projr (snd (open_buf G c (rec_key G g r) r bm))) (fst (open_buf G c (rec_key G g r) r bm))))))")
  case (Pair w q)
  then show ?thesis using assms
    by (cases q) (auto simp: push_one_def open_buf_def log_append_def Let_def split: prod.splits sum.splits option.splits)
qed

lemma push_loop_quiet:
  "push_loop G c xs bm = (bm', res) \<Longrightarrow> res \<noteq> Inl OverCapacity \<and> bm_backpressure bm' = bm_backpressure bm"
  by (induction G c xs bm rule: push_loop.induct)
    (auto split: prod.splits sum.splits dest!: push_one_quiet)

lemma sync_loop_quiet:
  "sync_loop ks bm = (bm', res) \<Longrightarrow> res \<noteq> Inl OverCapacity \<and> bm_backpressure bm' = bm_backpressure bm"
  by (induction ks arbitrary: bm) (auto simp: Let_def split: option.splits prod.splits sum.splits)

lemma accept_batch_quiet:
  assumes "accept_batch G c xs bm = (bm', res)"
  shows "res \<noteq> Inl OverCapacity \<and> bm_backpressure bm' = bm_backpressure bm"
  using assms
  by (auto simp: accept_batch_def sync_wal_def split: prod.splits sum.splits dest!: push_loop_quiet sync_loop_quiet)

lemma flush_loop_quiet: "bm_backpressure (fst (flush_loop G c bs e bm)) = bm_backpressure bm"
proof (induction bs arbitrary: e bm)
  case (Cons x bs)
  obtain k b where x: "x = (k, b)" by (cases x)
  obtain bm1 r where s: "flush_one G c k b bm = (bm1, r)" by (cases "flush_one G c k b bm")
  then have "bm_backpressure bm1 = bm_backpressure bm"
    by (auto simp: flush_one_def flush_send_def delete_segment_def reinsert_def Let_def
        split: sum.splits option.splits prod.splits if_splits)
  then show ?case using Cons.IH s by (simp add: x split: sum.splits)
qed simp

lemma flush_taken_quiet [simp]: "bm_backpressure (fst (flush_taken G c bs bm)) = bm_backpressure bm"
  using flush_loop_quiet [of G c bs None bm] by (auto simp: flush_taken_def split: prod.splits option.splits)

lemma one_over_capacity:
  "snd (push_events one_env (one_cfg\<lparr>bc_max_buffered_bytes := 0\<rparr>) ''g'' ''s'' [one_event] (bm_new Map.empty one_fs)) = Inl OverCapacity"
  by (simp add: push_events_def reserve_def reserve_take_def reserve_check_def bm_new_def buffered_total_def batch_size_def
      one_event_def largest_key_def one_env_fields)

text \<open>
  C25: a request is turned away with \<^verbatim>\<open>OverCapacity\<close> only when its batch does not fit under the cap as
  the buffers are and, the largest of them given up, still would not; every such refusal is counted by
  the backpressure counter, and nothing else is.
\<close>

theorem over_capacity_counted:
  assumes "push_events G c g strm events bm = (bm', res)"
  shows "(res = Inl OverCapacity \<and> bm_backpressure bm' = bm_backpressure bm + 1
      \<and> bc_max_buffered_bytes c < buffered_total (bm_buffers bm) + batch_size strm events
      \<and> bc_max_buffered_bytes c < buffered_total (bm_buffers bm') + batch_size strm events)
    \<or> (res \<noteq> Inl OverCapacity \<and> bm_backpressure bm' = bm_backpressure bm)"
proof -
  let ?n = "batch_size strm events"
  obtain bm1 r1 where s1: "reserve G c ?n bm = (bm1, r1)" by (cases "reserve G c ?n bm")
  have q: "if r1 = Inr () then bm_backpressure bm1 = bm_backpressure bm
    else r1 = Inl OverCapacity \<and> bm_backpressure bm1 = bm_backpressure bm + 1
      \<and> bc_max_buffered_bytes c < buffered_total (bm_buffers bm) + ?n \<and> bc_max_buffered_bytes c < buffered_total (bm_buffers bm1) + ?n"
    using s1
    by (auto simp: reserve_def reserve_take_def reserve_check_def flush_taken_quiet split: prod.splits option.splits if_splits)
  show ?thesis
  proof (cases r1)
    case (Inl e)
    then show ?thesis using assms s1 q by (auto simp: push_events_def)
  next
    case (Inr u)
    obtain bm2 r2 where s2: "accept_batch G c (map (\<lambda>ev. (g, record_of_input strm ev)) events) bm1 = (bm2, r2)"
      by (cases "accept_batch G c (map (\<lambda>ev. (g, record_of_input strm ev)) events) bm1")
    from accept_batch_quiet [OF s2] show ?thesis
      using assms s1 s2 Inr q flush_taken_quiet by (cases r2) (auto simp: push_events_def)
  qed
qed

theorem over_capacity_counted_witness:
  "snd (push_events one_env (one_cfg\<lparr>bc_max_buffered_bytes := 0\<rparr>) ''g'' ''s'' [one_event] (bm_new Map.empty one_fs)) = Inl OverCapacity
   \<and> bm_backpressure (fst (push_events one_env (one_cfg\<lparr>bc_max_buffered_bytes := 0\<rparr>) ''g'' ''s'' [one_event] (bm_new Map.empty one_fs))) = 1"
proof -
  obtain bm' where p: "push_events one_env (one_cfg\<lparr>bc_max_buffered_bytes := 0\<rparr>) ''g'' ''s'' [one_event] (bm_new Map.empty one_fs)
      = (bm', Inl OverCapacity)"
    using one_over_capacity by (metis prod.collapse)
  then show ?thesis using over_capacity_counted [OF p] by (simp add: bm_new_def)
qed

lemma map_client_put_ok: "\<exists>s' r. os_put_chunk sample_codec map_client (os_new ''b'' ''p'') loc ch s = (s', Inr r)"
  by (simp add: os_put_chunk_def put_data_bytes_def put_bytes_def put_object_inner_def map_client_def os_new_def
      encode_sidecars_def sample_codec_def Let_def split: prod.splits)

lemma one_flush_one: "\<exists>bm'. flush_one one_env c k b bm = (bm', Inr ())"
proof -
  obtain ch where "cw_encode sample_env (b_writer b) = Inr ch"
    using cw_encode_total [OF sample_zstd_total] by (cases "cw_encode sample_env (b_writer b)") fastforce+
  moreover obtain s' r where "os_put_chunk sample_codec map_client (os_new ''b'' ''p'') (flush_location one_env c k b (bm_rng bm)) (the ch) (bm_store bm) = (s', Inr r)"
    using map_client_put_ok by blast
  ultimately show ?thesis by (cases ch) (auto simp: flush_one_def flush_send_def one_env_fields)
qed

lemma one_flush_all: "\<exists>bm'. flush_all one_env c (one_bm b) = (bm', Inr ())"
proof -
  obtain bm' where "flush_one one_env c (''g'', ''d'') b (one_bm b\<lparr>bm_buffers := []\<rparr>) = (bm', Inr ())"
    using one_flush_one by blast
  then show ?thesis by (simp add: flush_all_def take_matching_def flush_taken_def one_env_fields buf_remove_def)
qed




definition left_fs :: wal_fs where
  "left_fs = one_fs\<lparr>fs_files := [''x.wal'' \<mapsto> [65, NL]], fs_durable := [''x.wal'' \<mapsto> [65, NL]]\<rparr>"

lemma one_line: "jsonl_line one_json e = [65, NL]"
  by (simp add: one_json_def jsonl_line_def)

lemma left_entries: "wal_entries one_json [65, NL] = [wal_entry_of ''g'' (sample_record 5)]"
  using wal_entries_whole [of one_json "[wal_entry_of ''g'' (sample_record 5)]"] one_json_faithful(2)
  by (simp add: one_line)

lemma left_scan: "scan_dir one_json left_fs = (left_fs, Inr [(''x.wal'', [wal_entry_of ''g'' (sample_record 5)])])"
proof -
  have "{p \<in> dom (fs_files left_fs). is_wal p} = {''x.wal''}"
    by (auto simp: left_fs_def is_wal_def WAL_SUFFIX_def strip_suffix_def)
  then show ?thesis
    by (simp add: scan_dir_def sys_read_dir_def sys_read_def next_fault_def left_fs_def one_fs_def left_entries)
qed

lemma calm_replay:
  assumes "fs_faults fs = []" and "fs_dirsync fs" and "fs_files fs one_path = None"
  shows "\<exists>bm'. replay_section one_env one_cfg [(p, [wal_entry_of ''g'' (sample_record 5)])] (bm_new s fs) = (bm', Inr [])"
proof -
  obtain w where w: "cw_push sample_env (sample_record 5) (cw_new chunk_config_default) = (w, Inr ())" "uncompressed_len w = 2"
    using one_writer by blast
  have r: "replay_records [(p, [wal_entry_of ''g'' (sample_record 5)])] = [(''g'', sample_record 5)]"
    by (simp add: replay_records_def wal_entry_of_def record_of_entry_def sample_record_def)
  have "\<exists>bm1 b seg. push_loop one_env one_cfg [(''g'', sample_record 5)] (bm_new s fs) = (bm1, Inr ())
     \<and> bm_buffers bm1 = [((''g'', ''d''), b)] \<and> b_wal b = Some seg \<and> uncompressed_len (b_writer b) = 2 \<and> fs_faults (bm_fs bm1) = []"
    using assms w
    by (simp add: push_one_def rec_key_def open_buf_def log_append_def one_env_fields one_fields wal_create_def sys_create_dir_all_def
        sys_create_new_def next_fault_def sync_parent_dir_def fsync_dir_def wal_append_def one_json_def sys_write_all_def buf_set_def
        Let_def bm_new_def one_cfg_def buffer_config_default_def)
  then obtain bm1 b seg where 1: "push_loop one_env one_cfg [(''g'', sample_record 5)] (bm_new s fs) = (bm1, Inr ())"
     "bm_buffers bm1 = [((''g'', ''d''), b)]" "b_wal b = Some seg" "uncompressed_len (b_writer b) = 2" "fs_faults (bm_fs bm1) = []" by blast
  then have "\<exists>bm2 b. sync_wal one_env bm1 = (bm2, Inr ()) \<and> bm_buffers bm2 = [((''g'', ''d''), b)] \<and> uncompressed_len (b_writer b) = 2"
    by (simp add: sync_wal_def one_env_fields wal_sync_def sys_sync_data_def next_fault_def buf_set_def Let_def)
  then obtain bm2 b where 2: "sync_wal one_env bm1 = (bm2, Inr ())" "bm_buffers bm2 = [((''g'', ''d''), b)]" "uncompressed_len (b_writer b) = 2"
    by blast
  show ?thesis
    by (unfold replay_section_def r 1(1) 2(1) prod.case sum.case Let_def)
      (simp add: 2 take_matching_def one_env_fields one_cfg_def buffer_config_default_def)
qed


end
