(* ===== verification/S4_Routing.thy ===== *)
theory S4_Routing
  imports S4_Prelude "HOL-Library.List_Lexorder" "HOL-Library.Char_ord"
begin

text \<open>
  Routing and the registry of the gateway (\<^verbatim>\<open>s4logs-gateway/src/routing.rs\<close>, \<^verbatim>\<open>registry.rs\<close>): the
  first-match-wins table that sends a batch to S3, CloudWatch, both or nowhere, and the process-local
  table of log groups and streams behind the create and describe calls.
\<close>

section \<open>Routing\<close>

datatype route_action = S3 | Cloudwatch | Both | Drop

fun to_s3 :: "route_action \<Rightarrow> bool" where
  "to_s3 a \<longleftrightarrow> a = S3 \<or> a = Both"

fun to_cloudwatch :: "route_action \<Rightarrow> bool" where
  "to_cloudwatch a \<longleftrightarrow> a = Cloudwatch \<or> a = Both"

fun route_action_as_str :: "route_action \<Rightarrow> string" where
  "route_action_as_str S3 = ''s3''"
| "route_action_as_str Cloudwatch = ''cloudwatch''"
| "route_action_as_str Both = ''both''"
| "route_action_as_str Drop = ''drop''"

datatype routing_error = Toml string | BadGlob nat string string

record raw_rule =
  rr_log_group :: string
  rr_stream :: "string option"
  rr_action :: route_action

record raw_config =
  rc_default_action :: "route_action option"
  rc_rules :: "raw_rule list"

record 'm rule =
  ru_group :: 'm
  ru_stream :: 'm
  ru_action :: route_action

record 'm routing_config =
  ro_default_action :: route_action
  ro_rules :: "'m rule list"

definition routing_config_default :: "'m routing_config" where
  "routing_config_default = \<lparr>ro_default_action = S3, ro_rules = []\<rparr>"

text \<open>The closure and the loop of \<^verbatim>\<open>from_toml_str\<close>; the TOML parser is an argument.\<close>

definition compile_glob :: "'m globset \<Rightarrow> nat \<Rightarrow> string \<Rightarrow> routing_error + 'm" where
  "compile_glob G index glob = map_err (BadGlob index glob) (glob_new G glob)"

definition stream_pattern :: "raw_rule \<Rightarrow> string" where
  "stream_pattern r = (case rr_stream r of None \<Rightarrow> ''*'' | Some s \<Rightarrow> s)"

fun compile_rules :: "'m globset \<Rightarrow> nat \<Rightarrow> raw_rule list \<Rightarrow> routing_error + 'm rule list" where
  "compile_rules G i [] = Inr []"
| "compile_rules G i (r # rs) =
     (case compile_glob G i (rr_log_group r) of
        Inl e \<Rightarrow> Inl e
      | Inr g \<Rightarrow>
         (case compile_glob G i (stream_pattern r) of
            Inl e \<Rightarrow> Inl e
          | Inr s \<Rightarrow>
             (case compile_rules G (i + 1) rs of
                Inl e \<Rightarrow> Inl e
              | Inr rest \<Rightarrow> Inr (\<lparr>ru_group = g, ru_stream = s, ru_action = rr_action r\<rparr> # rest))))"

definition from_toml_str :: "(string \<Rightarrow> string + raw_config) \<Rightarrow> 'm globset \<Rightarrow> string \<Rightarrow> routing_error + 'm routing_config" where
  "from_toml_str toml G s =
     (case toml s of
        Inl e \<Rightarrow> Inl (Toml e)
      | Inr raw \<Rightarrow>
         (case compile_rules G 0 (rc_rules raw) of
            Inl e \<Rightarrow> Inl e
          | Inr rules \<Rightarrow>
             Inr \<lparr>ro_default_action = (case rc_default_action raw of None \<Rightarrow> S3 | Some a \<Rightarrow> a), ro_rules = rules\<rparr>))"

definition route :: "'m globset \<Rightarrow> 'm routing_config \<Rightarrow> string \<Rightarrow> string \<Rightarrow> route_action" where
  "route G rc lg strm =
     (case List.find (\<lambda>r. glob_is_match G (ru_group r) lg \<and> glob_is_match G (ru_stream r) strm) (ro_rules rc) of
        None \<Rightarrow> ro_default_action rc
      | Some r \<Rightarrow> ru_action r)"

definition group_may_reach_cloudwatch :: "'m globset \<Rightarrow> 'm routing_config \<Rightarrow> string \<Rightarrow> bool" where
  "group_may_reach_cloudwatch G rc lg \<longleftrightarrow> to_cloudwatch (ro_default_action rc)
     \<or> list_ex (\<lambda>r. glob_is_match G (ru_group r) lg \<and> to_cloudwatch (ru_action r)) (ro_rules rc)"

section \<open>Ordered maps\<close>

text \<open>A \<^verbatim>\<open>BTreeMap<String, V>\<close> as its entries in key order.\<close>

type_synonym 'v btree = "(string \<times> 'v) list"

fun bt_insert :: "string \<Rightarrow> 'v \<Rightarrow> 'v btree \<Rightarrow> 'v btree" where
  "bt_insert k v [] = [(k, v)]"
| "bt_insert k v ((k', v') # m) =
     (if k < k' then (k, v) # (k', v') # m
      else if k = k' then (k, v) # m
      else (k', v') # bt_insert k v m)"

definition bt_ok :: "'v btree \<Rightarrow> bool" where
  "bt_ok m \<longleftrightarrow> sorted_wrt (<) (map fst m)"

lemma bt_insert_keys: "fst ` set (bt_insert k v m) = insert k (fst ` set m)"
  by (induction k v m rule: bt_insert.induct) auto

lemma bt_insert_ok: "bt_ok m \<Longrightarrow> bt_ok (bt_insert k v m)"
proof (induction k v m rule: bt_insert.induct)
  case (2 k v k' v' m)
  then have "\<forall>x \<in> fst ` set m. k' < x" "bt_ok m" by (auto simp: bt_ok_def)
  then show ?case using 2 bt_insert_keys [of k v m] by (auto simp: bt_ok_def)
qed (simp add: bt_ok_def)

lemma bt_insert_lookup: "bt_ok m \<Longrightarrow> map_of (bt_insert k v m) = (map_of m)(k \<mapsto> v)"
proof (induction k v m rule: bt_insert.induct)
  case (2 k v k' v' m)
  then have "\<forall>x \<in> fst ` set m. k' < x" "bt_ok m" by (auto simp: bt_ok_def)
  then have "k < k' \<Longrightarrow> map_of m k = None" "k = k' \<Longrightarrow> map_of m k = None" by (auto simp: map_of_eq_None_iff)
  then show ?case using 2 \<open>bt_ok m\<close> by (auto simp: fun_eq_iff)
qed (simp add: fun_eq_iff)

lemma bt_distinct: "bt_ok m \<Longrightarrow> distinct (map fst m)"
  by (simp add: bt_ok_def strict_sorted_iff)

section \<open>The registry\<close>

datatype registry_error = GroupExists | StreamExists | GroupNotFound

record registry_group_entry =
  ge_creation_time_ms :: int
  ge_streams :: "int btree"

type_synonym registry = "registry_group_entry btree"

text \<open>Every operation takes the time \<^verbatim>\<open>now_ms\<close> reads.\<close>

definition create_group :: "int \<Rightarrow> string \<Rightarrow> registry \<Rightarrow> registry \<times> (registry_error + unit)" where
  "create_group now name reg =
     (if map_of reg name \<noteq> None then (reg, Inl GroupExists)
      else (bt_insert name \<lparr>ge_creation_time_ms = now, ge_streams = []\<rparr> reg, Inr ()))"

definition create_stream :: "int \<Rightarrow> string \<Rightarrow> string \<Rightarrow> registry \<Rightarrow> registry \<times> (registry_error + unit)" where
  "create_stream now grp strm reg =
     (case map_of reg grp of
        None \<Rightarrow> (reg, Inl GroupNotFound)
      | Some e \<Rightarrow>
          if map_of (ge_streams e) strm \<noteq> None then (reg, Inl StreamExists)
          else (bt_insert grp (e\<lparr>ge_streams := bt_insert strm now (ge_streams e)\<rparr>) reg, Inr ()))"

definition touch :: "int \<Rightarrow> string \<Rightarrow> string \<Rightarrow> registry \<Rightarrow> registry" where
  "touch now grp strm reg =
     (let e = (case map_of reg grp of None \<Rightarrow> \<lparr>ge_creation_time_ms = now, ge_streams = []\<rparr> | Some e \<Rightarrow> e)
      in bt_insert grp
           (case map_of (ge_streams e) strm of None \<Rightarrow> e\<lparr>ge_streams := bt_insert strm now (ge_streams e)\<rparr> | Some _ \<Rightarrow> e) reg)"

definition prefix_ok :: "string option \<Rightarrow> string \<Rightarrow> bool" where
  "prefix_ok p name \<longleftrightarrow> (case p of None \<Rightarrow> True | Some q \<Rightarrow> starts_with q name)"

definition describe_groups :: "string option \<Rightarrow> registry \<Rightarrow> (string \<times> int) list" where
  "describe_groups p reg = map (\<lambda>(name, e). (name, ge_creation_time_ms e)) (filter (\<lambda>(name, _). prefix_ok p name) reg)"

definition describe_streams :: "string \<Rightarrow> string option \<Rightarrow> registry \<Rightarrow> registry_error + (string \<times> int) list" where
  "describe_streams grp p reg =
     (case map_of reg grp of
        None \<Rightarrow> Inl GroupNotFound
      | Some e \<Rightarrow> Inr (filter (\<lambda>(name, _). prefix_ok p name) (ge_streams e)))"

text \<open>The abstract registry: the creation time of every group and of its streams.\<close>

type_synonym reg_spec = "string \<rightharpoonup> int \<times> (string \<rightharpoonup> int)"

definition reg_abs :: "registry \<Rightarrow> reg_spec" where
  "reg_abs reg g = map_option (\<lambda>e. (ge_creation_time_ms e, map_of (ge_streams e))) (map_of reg g)"

definition reg_ok :: "registry \<Rightarrow> bool" where
  "reg_ok reg \<longleftrightarrow> bt_ok reg \<and> (\<forall>(g, e) \<in> set reg. bt_ok (ge_streams e))"

definition spec_touch :: "int \<Rightarrow> string \<Rightarrow> string \<Rightarrow> reg_spec \<Rightarrow> reg_spec" where
  "spec_touch now g s A =
     (let (t, ss) = (case A g of None \<Rightarrow> (now, Map.empty) | Some x \<Rightarrow> x)
      in A(g \<mapsto> (t, if s \<in> dom ss then ss else ss(s \<mapsto> now))))"

lemma bt_insert_set: "set (bt_insert k v m) \<subseteq> insert (k, v) (set m)"
  by (induction k v m rule: bt_insert.induct) auto

lemma reg_ok_insert:
  assumes "reg_ok reg" and "bt_ok (ge_streams e)"
  shows "reg_ok (bt_insert g e reg)" and "reg_abs (bt_insert g e reg) = (reg_abs reg)(g \<mapsto> (ge_creation_time_ms e, map_of (ge_streams e)))"
proof -
  have ok: "bt_ok reg" and es: "\<forall>(g, e) \<in> set reg. bt_ok (ge_streams e)" using assms(1) by (simp_all add: reg_ok_def)
  show "reg_ok (bt_insert g e reg)"
    using bt_insert_ok [OF ok, of g e] bt_insert_set [of g e reg] es assms(2) by (fastforce simp: reg_ok_def)
  show "reg_abs (bt_insert g e reg) = (reg_abs reg)(g \<mapsto> (ge_creation_time_ms e, map_of (ge_streams e)))"
    by (rule ext) (simp add: reg_abs_def bt_insert_lookup [OF ok])
qed

lemma reg_ok_streams: "reg_ok reg \<Longrightarrow> map_of reg g = Some e \<Longrightarrow> bt_ok (ge_streams e)"
  unfolding reg_ok_def by (blast dest: map_of_SomeD)

lemma bt_ok_Nil [simp]: "bt_ok []"
  by (simp add: bt_ok_def)

lemma touch_spec:
  assumes "reg_ok reg"
  shows "reg_ok (touch now g s reg) \<and> reg_abs (touch now g s reg) = spec_touch now g s (reg_abs reg)"
proof -
  define e where "e = (case map_of reg g of None \<Rightarrow> \<lparr>ge_creation_time_ms = now, ge_streams = []\<rparr> | Some e \<Rightarrow> e)"
  define e' where "e' = (case map_of (ge_streams e) s of None \<Rightarrow> e\<lparr>ge_streams := bt_insert s now (ge_streams e)\<rparr> | Some _ \<Rightarrow> e)"
  have t: "touch now g s reg = bt_insert g e' reg" unfolding e'_def e_def by (simp add: touch_def Let_def)
  have ok: "bt_ok (ge_streams e)" using reg_ok_streams [OF assms] by (auto simp: e_def split: option.splits)
  then have ok': "bt_ok (ge_streams e')" by (auto simp: e'_def bt_insert_ok split: option.splits)
  have "map_of (ge_streams e') = (if s \<in> dom (map_of (ge_streams e)) then map_of (ge_streams e) else (map_of (ge_streams e))(s \<mapsto> now))"
    "ge_creation_time_ms e' = ge_creation_time_ms e"
    using bt_insert_lookup [OF ok] by (auto simp: e'_def split: option.splits)
  then show ?thesis
    using reg_ok_insert [OF assms ok', of g] unfolding t
    by (auto simp: spec_touch_def reg_abs_def e_def split: option.splits)
qed

lemma create_spec:
  assumes "reg_ok reg"
  shows "create_group now g reg = (reg', r) \<Longrightarrow> reg_ok reg' \<and> (r = Inr () \<longleftrightarrow> reg_abs reg g = None)
      \<and> reg_abs reg' = (if reg_abs reg g = None then (reg_abs reg)(g \<mapsto> (now, Map.empty)) else reg_abs reg)"
    and "create_stream now g s reg = (reg', r) \<Longrightarrow> reg_ok reg'
      \<and> (case reg_abs reg g of None \<Rightarrow> r = Inl GroupNotFound \<and> reg' = reg
         | Some (t, ss) \<Rightarrow> if s \<in> dom ss then r = Inl StreamExists \<and> reg' = reg
             else r = Inr () \<and> reg_abs reg' = (reg_abs reg)(g \<mapsto> (t, ss(s \<mapsto> now))))"
proof -
  show "reg_ok reg' \<and> (r = Inr () \<longleftrightarrow> reg_abs reg g = None)
      \<and> reg_abs reg' = (if reg_abs reg g = None then (reg_abs reg)(g \<mapsto> (now, Map.empty)) else reg_abs reg)"
    if "create_group now g reg = (reg', r)"
    using that assms reg_ok_insert [OF assms, of "\<lparr>ge_creation_time_ms = now, ge_streams = []\<rparr>" g]
    by (auto simp: create_group_def reg_abs_def split: if_splits)
  show "reg_ok reg' \<and> (case reg_abs reg g of None \<Rightarrow> r = Inl GroupNotFound \<and> reg' = reg
         | Some (t, ss) \<Rightarrow> if s \<in> dom ss then r = Inl StreamExists \<and> reg' = reg
             else r = Inr () \<and> reg_abs reg' = (reg_abs reg)(g \<mapsto> (t, ss(s \<mapsto> now))))"
    if c: "create_stream now g s reg = (reg', r)"
  proof (cases "map_of reg g")
    case None
    then show ?thesis using c assms by (auto simp: create_stream_def reg_abs_def)
  next
    case (Some e)
    have ok: "bt_ok (ge_streams e)" using reg_ok_streams [OF assms Some] .
    show ?thesis
      using c assms Some bt_insert_lookup [OF ok] reg_ok_insert [OF assms, of "e\<lparr>ge_streams := bt_insert s now (ge_streams e)\<rparr>" g]
        bt_insert_ok [OF ok]
      by (auto simp: create_stream_def reg_abs_def split: if_splits)
  qed
qed

lemma describe_spec:
  assumes "reg_ok reg"
  shows "sorted_wrt (<) (map fst (describe_groups p reg))
      \<and> set (describe_groups p reg) = {(g, t). \<exists>ss. reg_abs reg g = Some (t, ss) \<and> prefix_ok p g}"
    and "case reg_abs reg g of None \<Rightarrow> describe_streams g p reg = Inl GroupNotFound
      | Some (t, ss) \<Rightarrow> \<exists>l. describe_streams g p reg = Inr l \<and> sorted_wrt (<) (map fst l)
           \<and> set l = {(s, u). ss s = Some u \<and> prefix_ok p s}"
proof -
  have ok: "bt_ok reg" using assms by (simp add: reg_ok_def)
  have s: "sorted_wrt (<) (map fst (filter P m))" if "bt_ok m" for P and m :: "'v btree"
    using that unfolding bt_ok_def sorted_wrt_map by (rule sorted_wrt_filter)
  have e: "map fst (describe_groups p reg) = map fst (filter (\<lambda>(name, _). prefix_ok p name) reg)"
    by (auto simp: describe_groups_def)
  have "set (describe_groups p reg) = {(g, t). \<exists>ss. reg_abs reg g = Some (t, ss) \<and> prefix_ok p g}"
    using map_of_eq_Some_iff [OF bt_distinct [OF ok]] by (force simp: describe_groups_def reg_abs_def)
  then show "sorted_wrt (<) (map fst (describe_groups p reg))
      \<and> set (describe_groups p reg) = {(g, t). \<exists>ss. reg_abs reg g = Some (t, ss) \<and> prefix_ok p g}"
    using s [OF ok] by (simp add: e)
  show "case reg_abs reg g of None \<Rightarrow> describe_streams g p reg = Inl GroupNotFound
      | Some (t, ss) \<Rightarrow> \<exists>l. describe_streams g p reg = Inr l \<and> sorted_wrt (<) (map fst l)
           \<and> set l = {(s, u). ss s = Some u \<and> prefix_ok p s}"
  proof (cases "map_of reg g")
    case (Some e)
    note k = reg_ok_streams [OF assms Some]
    show ?thesis using Some s [OF k] map_of_eq_Some_iff [OF bt_distinct [OF k]]
      by (auto simp: reg_abs_def describe_streams_def)
  qed (simp add: reg_abs_def describe_streams_def)
qed

section \<open>Properties\<close>

text \<open>The table as the configuration file states it: the first rule whose two patterns match decides.\<close>

definition pattern_matches :: "'m globset \<Rightarrow> string \<Rightarrow> string \<Rightarrow> bool" where
  "pattern_matches G pat name \<longleftrightarrow> (case glob_new G pat of Inl _ \<Rightarrow> False | Inr m \<Rightarrow> glob_is_match G m name)"

definition raw_matches :: "'m globset \<Rightarrow> string \<Rightarrow> string \<Rightarrow> raw_rule \<Rightarrow> bool" where
  "raw_matches G lg strm r \<longleftrightarrow> pattern_matches G (rr_log_group r) lg
     \<and> pattern_matches G (stream_pattern r) strm"

fun spec_route :: "'m globset \<Rightarrow> route_action \<Rightarrow> raw_rule list \<Rightarrow> string \<Rightarrow> string \<Rightarrow> route_action" where
  "spec_route G d [] lg strm = d"
| "spec_route G d (r # rs) lg strm = (if raw_matches G lg strm r then rr_action r else spec_route G d rs lg strm)"

lemma compile_rules_routes:
  assumes "compile_rules G i raws = Inr rules"
  shows "route G \<lparr>ro_default_action = d, ro_rules = rules\<rparr> lg strm = spec_route G d raws lg strm"
  using assms
proof (induction raws arbitrary: i rules)
  case (Cons r raws)
  then obtain g s rest where "glob_new G (rr_log_group r) = Inr g"
    "glob_new G (stream_pattern r) = Inr s"
    "compile_rules G (i + 1) raws = Inr rest" "rules = \<lparr>ru_group = g, ru_stream = s, ru_action = rr_action r\<rparr> # rest"
    by (auto simp: compile_glob_def split: sum.splits)
  then show ?case using Cons.IH [of "i + 1" rest] by (simp add: route_def raw_matches_def pattern_matches_def split: option.splits)
qed (simp add: route_def)

lemma route_reaches: "to_cloudwatch (route G rc lg strm) \<Longrightarrow> group_may_reach_cloudwatch G rc lg"
  unfolding route_def group_may_reach_cloudwatch_def
  by (auto simp: list_ex_iff find_Some_iff split: option.splits)

lemma compile_rules_bad:
  assumes "compile_rules G i raws = Inl e"
  shows "\<exists>k glob err. k < length raws \<and> e = BadGlob (i + k) glob err \<and> glob_new G glob = Inl err
     \<and> (glob = rr_log_group (raws ! k) \<or> glob = stream_pattern (raws ! k))"
  using assms
proof (induction raws arbitrary: i)
  case (Cons r raws)
  then consider err where "glob_new G (rr_log_group r) = Inl err" "e = BadGlob i (rr_log_group r) err"
    | err where "glob_new G (stream_pattern r) = Inl err" "e = BadGlob i (stream_pattern r) err"
    | "compile_rules G (i + 1) raws = Inl e"
    by (auto simp: compile_glob_def map_err_Inl split: sum.splits)
  then show ?case
  proof cases
    case 3
    then obtain k glob err where "k < length raws \<and> e = BadGlob (i + 1 + k) glob err \<and> glob_new G glob = Inl err
      \<and> (glob = rr_log_group (raws ! k) \<or> glob = stream_pattern (raws ! k))" using Cons.IH by blast
    then show ?thesis by (intro exI [of _ "Suc k"] exI [of _ glob] exI [of _ err]) simp
  qed (auto intro: exI [of _ 0])
qed simp

text \<open>
  C31: the compiled routing table decides every batch as the configuration file says: the first rule
  whose group and stream patterns match, else the default. A group one of whose streams is routed to
  CloudWatch is reported as one that may reach it, so its creation is forwarded; and a configuration
  is refused only for a pattern that does not compile, named with the number of its rule.
\<close>

theorem routing_first_match:
  assumes "toml s = Inr raw"
  shows "case from_toml_str toml G s of
      Inr rc \<Rightarrow> route G rc lg strm = spec_route G (case rc_default_action raw of None \<Rightarrow> S3 | Some a \<Rightarrow> a) (rc_rules raw) lg strm
        \<and> (to_cloudwatch (route G rc lg strm) \<longrightarrow> group_may_reach_cloudwatch G rc lg)
    | Inl e \<Rightarrow> \<exists>k glob err. k < length (rc_rules raw) \<and> e = BadGlob k glob err \<and> glob_new G glob = Inl err
        \<and> (glob = rr_log_group (rc_rules raw ! k) \<or> glob = stream_pattern (rc_rules raw ! k))"
proof (cases "compile_rules G 0 (rc_rules raw)")
  case (Inl e)
  then show ?thesis using compile_rules_bad [OF Inl] assms by (simp add: from_toml_str_def)
next
  case (Inr rules)
  then show ?thesis using compile_rules_routes [OF Inr] route_reaches [of G _ lg strm] assms
    by (simp add: from_toml_str_def del: to_cloudwatch.simps)
qed

definition exact_globs :: "string globset" where
  "exact_globs = \<lparr>glob_new = (\<lambda>p. if p = ''['' then Inl ''unclosed'' else Inr p), glob_is_match = (\<lambda>p n. p = ''*'' \<or> p = n)\<rparr>"

definition two_rules :: "string \<Rightarrow> string + raw_config" where
  "two_rules _ = Inr \<lparr>rc_default_action = None, rc_rules =
     [\<lparr>rr_log_group = ''pay'', rr_stream = Some ''audit'', rr_action = Both\<rparr>,
      \<lparr>rr_log_group = ''pay'', rr_stream = None, rr_action = Drop\<rparr>]\<rparr>"

theorem routing_first_match_witness:
  "\<exists>rc. from_toml_str two_rules exact_globs ''x'' = Inr rc \<and> route exact_globs rc ''pay'' ''audit'' = Both
    \<and> route exact_globs rc ''pay'' ''web'' = Drop \<and> route exact_globs rc ''other'' ''web'' = S3
    \<and> group_may_reach_cloudwatch exact_globs rc ''pay''"
proof -
  have t: "two_rules ''x'' = Inr \<lparr>rc_default_action = None, rc_rules =
     [\<lparr>rr_log_group = ''pay'', rr_stream = Some ''audit'', rr_action = Both\<rparr>,
      \<lparr>rr_log_group = ''pay'', rr_stream = None, rr_action = Drop\<rparr>]\<rparr>" by (simp add: two_rules_def)
  obtain rc where rc: "from_toml_str two_rules exact_globs ''x'' = Inr rc"
    by (simp add: from_toml_str_def two_rules_def compile_glob_def exact_globs_def stream_pattern_def)
  have r: "route exact_globs rc lg strm = spec_route exact_globs S3
     [\<lparr>rr_log_group = ''pay'', rr_stream = Some ''audit'', rr_action = Both\<rparr>,
      \<lparr>rr_log_group = ''pay'', rr_stream = None, rr_action = Drop\<rparr>] lg strm" for lg strm
    using routing_first_match [of two_rules "''x''" _ exact_globs lg strm, OF t] by (simp add: rc)
  have m: "raw_matches exact_globs lg strm \<lparr>rr_log_group = g, rr_stream = s, rr_action = a\<rparr>
     \<longleftrightarrow> g \<noteq> ''['' \<and> (g = ''*'' \<or> g = lg) \<and> (case s of None \<Rightarrow> True | Some t \<Rightarrow> t \<noteq> ''['' \<and> (t = ''*'' \<or> t = strm))" for lg strm g s a
    by (auto simp: raw_matches_def pattern_matches_def exact_globs_def stream_pattern_def split: option.splits)
  have p: "route exact_globs rc ''pay'' ''audit'' = Both" by (simp add: r m)
  moreover have "group_may_reach_cloudwatch exact_globs rc ''pay''"
    using routing_first_match [of two_rules "''x''" _ exact_globs "''pay''" "''audit''", OF t] p by (simp add: rc)
  ultimately show ?thesis by (intro exI [of _ rc]) (simp add: rc r m)
qed

text \<open>A sequence of calls on the registry, each at its time.\<close>

datatype reg_op = OpGroup int string | OpStream int string string | OpTouch int string string

fun reg_exec :: "reg_op \<Rightarrow> registry \<Rightarrow> registry" where
  "reg_exec (OpGroup now g) reg = fst (create_group now g reg)"
| "reg_exec (OpStream now g s) reg = fst (create_stream now g s reg)"
| "reg_exec (OpTouch now g s) reg = touch now g s reg"

fun spec_exec :: "reg_op \<Rightarrow> reg_spec \<Rightarrow> reg_spec" where
  "spec_exec (OpGroup now g) A = (if A g = None then A(g \<mapsto> (now, Map.empty)) else A)"
| "spec_exec (OpStream now g s) A =
     (case A g of Some (t, ss) \<Rightarrow> if s \<in> dom ss then A else A(g \<mapsto> (t, ss(s \<mapsto> now))) | None \<Rightarrow> A)"
| "spec_exec (OpTouch now g s) A = spec_touch now g s A"

lemma reg_exec_spec:
  assumes "reg_ok reg"
  shows "reg_ok (reg_exec op reg) \<and> reg_abs (reg_exec op reg) = spec_exec op (reg_abs reg)"
proof (cases op)
  case (OpGroup now g)
  then show ?thesis using create_spec(1) [OF assms] by (cases "create_group now g reg") auto
next
  case (OpStream now g s)
  obtain reg' r where c: "create_stream now g s reg = (reg', r)" by (cases "create_stream now g s reg")
  show ?thesis using create_spec(2) [OF assms c] c OpStream by (auto split: option.splits if_splits)
next
  case (OpTouch now g s)
  then show ?thesis using touch_spec [OF assms] by simp
qed

text \<open>
  C32: after any sequence of creates and touches the registry is well-formed, its groups and streams in
  strict name order, and describes exactly the groups the calls have left there, each with the time it
  first appeared and filtered by the prefix: it refines the registry of maps.
\<close>

theorem registry_refines:
  "reg_ok (fold reg_exec ops []) \<and> reg_abs (fold reg_exec ops []) = fold spec_exec ops Map.empty
   \<and> sorted_wrt (<) (map fst (describe_groups p (fold reg_exec ops [])))
   \<and> set (describe_groups p (fold reg_exec ops []))
     = {(g, t). \<exists>ss. fold spec_exec ops Map.empty g = Some (t, ss) \<and> prefix_ok p g}"
proof -
  have "reg_ok (fold reg_exec ops reg) \<and> reg_abs (fold reg_exec ops reg) = fold spec_exec ops (reg_abs reg)"
    if "reg_ok reg" for reg
    using that reg_exec_spec by (induction ops arbitrary: reg) auto
  moreover have "reg_ok []" "reg_abs [] = Map.empty" by (auto simp: reg_ok_def reg_abs_def)
  ultimately have "reg_ok (fold reg_exec ops [])" "reg_abs (fold reg_exec ops []) = fold spec_exec ops Map.empty" by metis+
  then show ?thesis using describe_spec(1) by simp
qed

end
