(* ===== verification/S4_Auth.thy ===== *)
theory S4_Auth
  imports S4_Api S4_Text "HOL-Library.List_Lexorder" "HOL-Library.Char_ord" "HOL-Library.Product_Lexorder"
begin

text \<open>
  SigV4 verification of incoming requests (\<^verbatim>\<open>s4logs-gateway/src/auth.rs\<close>). The hash, the MAC, the
  hex codec and the check that a header value is text are arguments: they are crates the code calls.
\<close>

section \<open>Data\<close>

datatype auth_mode = AuthNone | SigV4 string string

text \<open>Times are nanoseconds since the epoch.\<close>

definition MAX_CLOCK_SKEW :: int where "MAX_CLOCK_SKEW = 15 * 60 * 10 ^ 9"
definition ALGORITHM :: string where "ALGORITHM = ''AWS4-HMAC-SHA256''"
definition UNSIGNED_PAYLOAD :: string where "UNSIGNED_PAYLOAD = ''UNSIGNED-PAYLOAD''"

datatype auth_error = MissingToken | Invalid string

text \<open>Headers are name and value pairs in the order received, names in lower case.\<close>

record request_view =
  rv_method :: string
  rv_path :: string
  rv_query :: "string option"
  rv_headers :: "(string \<times> string) list"
  rv_body :: bytes

record crypto =
  sha256 :: "bytes \<Rightarrow> bytes"
  hmac256 :: "bytes \<Rightarrow> bytes \<Rightarrow> bytes"
  hex_encode :: "bytes \<Rightarrow> string"
  hex_decode :: "string \<Rightarrow> string + bytes"
  hdr_to_str :: "string \<Rightarrow> string option"

definition header_get :: "crypto \<Rightarrow> request_view \<Rightarrow> string \<Rightarrow> string option" where
  "header_get C req name = (case map_of (rv_headers req) name of None \<Rightarrow> None | Some v \<Rightarrow> hdr_to_str C v)"

definition header_get_all :: "request_view \<Rightarrow> string \<Rightarrow> string list" where
  "header_get_all req name = map snd (filter (\<lambda>h. fst h = name) (rv_headers req))"

section \<open>Text\<close>

fun normalize_loop :: "bool \<Rightarrow> string \<Rightarrow> string" where
  "normalize_loop in_space [] = []"
| "normalize_loop in_space (c # cs) =
     (if c = CHR '' '' \<or> c = CHR 0x09
      then (if in_space then normalize_loop True cs else CHR '' '' # normalize_loop True cs)
      else c # normalize_loop False cs)"

definition normalize_header_value :: "string \<Rightarrow> string" where
  "normalize_header_value v = normalize_loop False (trim v)"

section \<open>The Authorization header\<close>

record parsed_authorization =
  pa_access_key :: string
  pa_scope_date :: string
  pa_scope_region :: string
  pa_scope_service :: string
  pa_signed_headers :: "string list"
  pa_signature :: string

text \<open>The loop over the comma-separated parts; a later part of the same name wins.\<close>

fun auth_parts :: "string list \<Rightarrow> string option \<times> string option \<times> string option \<Rightarrow> string option \<times> string option \<times> string option" where
  "auth_parts [] acc = acc"
| "auth_parts (p # ps) (cred, hs, sig) =
     (let part = trim p in
      auth_parts ps
        (case strip_prefix ''Credential='' part of
           Some v \<Rightarrow> (Some v, hs, sig)
         | None \<Rightarrow>
            (case strip_prefix ''SignedHeaders='' part of
               Some v \<Rightarrow> (cred, Some v, sig)
             | None \<Rightarrow>
                (case strip_prefix ''Signature='' part of
                   Some v \<Rightarrow> (cred, hs, Some v)
                 | None \<Rightarrow> (cred, hs, sig)))))"

definition signed_header_list :: "string \<Rightarrow> string list" where
  "signed_header_list s = remdups_adj (sort (map to_ascii_lowercase (filter (\<lambda>h. h \<noteq> []) (split_on CHR '';'' s))))"

definition parse_authorization :: "string \<Rightarrow> auth_error + parsed_authorization" where
  "parse_authorization header =
     (case strip_prefix ALGORITHM header of
        None \<Rightarrow> Inl (Invalid ''unsupported authorization algorithm'')
      | Some rest \<Rightarrow>
         (case auth_parts (split_on CHR '','' rest) (None, None, None) of
            (None, _, _) \<Rightarrow> Inl (Invalid ''authorization missing Credential'')
          | (Some _, None, _) \<Rightarrow> Inl (Invalid ''authorization missing SignedHeaders'')
          | (Some _, Some _, None) \<Rightarrow> Inl (Invalid ''authorization missing Signature'')
          | (Some cred, Some hs, Some sig) \<Rightarrow>
             (case split_on CHR ''/'' cred of
                [ak, date, region, service, terminal] \<Rightarrow>
                  if terminal \<noteq> ''aws4_request'' then Inl (Invalid ''malformed credential scope'')
                  else if signed_header_list hs = [] then Inl (Invalid ''empty SignedHeaders'')
                  else Inr \<lparr>pa_access_key = ak, pa_scope_date = date, pa_scope_region = region,
                            pa_scope_service = service, pa_signed_headers = signed_header_list hs, pa_signature = sig\<rparr>
              | _ \<Rightarrow> Inl (Invalid ''malformed credential scope''))))"

section \<open>The canonical request\<close>

definition LF :: char where "LF = CHR 0x0A"

definition canonical_uri :: "request_view \<Rightarrow> string" where
  "canonical_uri req = (if rv_path req = [] then ''/'' else rv_path req)"

definition query_pairs :: "request_view \<Rightarrow> (string \<times> string) list" where
  "query_pairs req =
     map (\<lambda>p. case split_once CHR ''='' p of None \<Rightarrow> (p, []) | Some kv \<Rightarrow> kv)
       (filter (\<lambda>p. p \<noteq> []) (split_on CHR ''&'' (case rv_query req of None \<Rightarrow> [] | Some q \<Rightarrow> q)))"

definition canonical_query :: "request_view \<Rightarrow> string" where
  "canonical_query req = join_with ''&'' (map (\<lambda>(k, v). k @ ''='' @ v) (sort (query_pairs req)))"

text \<open>The joined value of one signed header.\<close>

definition header_line_value :: "crypto \<Rightarrow> request_view \<Rightarrow> string \<Rightarrow> auth_error + string" where
  "header_line_value C req name =
     (if header_get_all req name = [] then Inl (Invalid ''signed header absent from request'')
      else case collect_ok (map (\<lambda>v. case hdr_to_str C v of
               None \<Rightarrow> Inl (Invalid ''signed header is not valid UTF-8'')
             | Some s \<Rightarrow> Inr (normalize_header_value s)) (header_get_all req name)) of
          Inl e \<Rightarrow> Inl e
        | Inr vs \<Rightarrow> Inr (join_with '','' vs))"

fun canonical_headers :: "crypto \<Rightarrow> request_view \<Rightarrow> string list \<Rightarrow> auth_error + string" where
  "canonical_headers C req [] = Inr []"
| "canonical_headers C req (name # names) =
     (case header_line_value C req name of
        Inl e \<Rightarrow> Inl e
      | Inr v \<Rightarrow>
         (case canonical_headers C req names of
            Inl e \<Rightarrow> Inl e
          | Inr rest \<Rightarrow> Inr (name @ '':'' @ v @ LF # rest)))"

definition payload_hash :: "crypto \<Rightarrow> request_view \<Rightarrow> string" where
  "payload_hash C req =
     (if header_get C req ''x-amz-content-sha256'' = Some UNSIGNED_PAYLOAD then UNSIGNED_PAYLOAD
      else hex_encode C (sha256 C (rv_body req)))"

definition canonical_request :: "crypto \<Rightarrow> request_view \<Rightarrow> string list \<Rightarrow> auth_error + string" where
  "canonical_request C req names =
     (case canonical_headers C req names of
        Inl e \<Rightarrow> Inl e
      | Inr hs \<Rightarrow>
          Inr (rv_method req @ LF # canonical_uri req @ LF # canonical_query req @ LF # hs
               @ LF # join_with '';'' names @ LF # payload_hash C req))"

section \<open>Dates\<close>

definition days_from_civil :: "int \<Rightarrow> int \<Rightarrow> int \<Rightarrow> int" where
  "days_from_civil y0 m d =
     (let y = (if m \<le> 2 then y0 - 1 else y0);
          era = y div 400;
          yoe = y - era * 400;
          mp = (m + 9) mod 12;
          doy = (153 * mp + 2) div 5 + d - 1;
          doe = yoe * 365 + yoe div 4 - yoe div 100 + doy
      in era * 146097 + doe - 719468)"

definition date_num :: "string \<Rightarrow> nat \<Rightarrow> nat \<Rightarrow> int option" where
  "date_num s a b = parse_i64 (take (b - a) (drop a s))"

text \<open>Seconds since the epoch of \<^verbatim>\<open>YYYYMMDD'T'HHMMSS'Z'\<close>.\<close>

definition parse_amz_date :: "string \<Rightarrow> int option" where
  "parse_amz_date s =
     (if length s \<noteq> 16 \<or> s ! 8 \<noteq> CHR ''T'' \<or> s ! 15 \<noteq> CHR ''Z'' then None
      else case (date_num s 0 4, date_num s 4 6, date_num s 6 8, date_num s 9 11, date_num s 11 13, date_num s 13 15) of
        (Some y, Some m, Some d, Some hh, Some mm, Some ss) \<Rightarrow>
          if \<not> (1 \<le> m \<and> m \<le> 12) \<or> \<not> (1 \<le> d \<and> d \<le> 31) \<or> hh > 23 \<or> mm > 59 \<or> ss > 60 then None
          else let secs = days_from_civil y m d * 86400 + hh * 3600 + mm * 60 + ss
               in if secs < 0 then None else Some secs
      | _ \<Rightarrow> None)"

section \<open>Verification\<close>

definition string_to_sign :: "crypto \<Rightarrow> parsed_authorization \<Rightarrow> string \<Rightarrow> string \<Rightarrow> string" where
  "string_to_sign C p amz_date canonical =
     ALGORITHM @ LF # amz_date @ LF # pa_scope_date p @ ''/'' @ pa_scope_region p @ ''/'' @ pa_scope_service p
     @ ''/aws4_request'' @ LF # hex_encode C (sha256 C (as_bytes canonical))"

definition signing_key :: "crypto \<Rightarrow> string \<Rightarrow> parsed_authorization \<Rightarrow> bytes" where
  "signing_key C secret p =
     foldl (\<lambda>key part. hmac256 C key (as_bytes part))
       (hmac256 C (as_bytes (''AWS4'' @ secret)) (as_bytes (pa_scope_date p)))
       [pa_scope_region p, pa_scope_service p, ''aws4_request'']"

definition verify :: "crypto \<Rightarrow> string \<Rightarrow> string \<Rightarrow> request_view \<Rightarrow> int \<Rightarrow> auth_error + unit" where
  "verify C access_key secret_key req now =
     (case header_get C req ''authorization'' of
        None \<Rightarrow> Inl MissingToken
      | Some authorization \<Rightarrow>
     (case parse_authorization authorization of
        Inl e \<Rightarrow> Inl e
      | Inr p \<Rightarrow>
          if pa_access_key p \<noteq> access_key then Inl (Invalid ''unknown access key id'')
          else
     (case header_get C req ''x-amz-date'' of
        None \<Rightarrow> Inl (Invalid ''missing x-amz-date header'')
      | Some amz_date \<Rightarrow>
     (case parse_amz_date amz_date of
        None \<Rightarrow> Inl (Invalid ''malformed x-amz-date'')
      | Some secs \<Rightarrow>
          if \<bar>now - secs * 10 ^ 9\<bar> > MAX_CLOCK_SKEW then Inl (Invalid (''request time too skewed ('' @ [CHR 0xC2, CHR 0xB1] @ ''15 min)''))
          else if pa_scope_date p \<noteq> take 8 amz_date then Inl (Invalid ''credential scope date mismatch'')
          else
     (case canonical_request C req (pa_signed_headers p) of
        Inl e \<Rightarrow> Inl e
      | Inr canonical \<Rightarrow>
         (case hex_decode C (pa_signature p) of
            Inl _ \<Rightarrow> Inl (Invalid ''malformed signature'')
          | Inr provided \<Rightarrow>
              if provided = hmac256 C (signing_key C secret_key p) (as_bytes (string_to_sign C p amz_date canonical))
              then Inr () else Inl (Invalid ''signature mismatch'')))))))"

section \<open>What the signature binds\<close>

lemma cut_eq:
  assumes "c \<notin> set xs" and "c \<notin> set ys" and "xs @ c # a = ys @ c # b"
  shows "xs = ys \<and> a = b"
proof -
  have "Some (xs, a) = Some (ys, b)"
    using split_once_append [OF assms(1), of a] split_once_append [OF assms(2), of b] unfolding assms(3) by (rule trans [OF sym])
  then show ?thesis by simp
qed

lemma verify_ok:
  assumes "verify C ak sk req now = Inr ()"
  obtains a p date secs canonical where "header_get C req ''authorization'' = Some a" "parse_authorization a = Inr p"
    "pa_access_key p = ak" "header_get C req ''x-amz-date'' = Some date" "parse_amz_date date = Some secs"
    "\<bar>now - secs * 10 ^ 9\<bar> \<le> MAX_CLOCK_SKEW" "pa_scope_date p = take 8 date"
    "canonical_request C req (pa_signed_headers p) = Inr canonical"
    "hex_decode C (pa_signature p) = Inr (hmac256 C (signing_key C sk p) (as_bytes (string_to_sign C p date canonical)))"
proof -
  note v = assms [unfolded verify_def]
  from v obtain a where a: "header_get C req ''authorization'' = Some a"
    by (cases "header_get C req ''authorization''") simp_all
  from v a obtain p where p: "parse_authorization a = Inr p" by (cases "parse_authorization a") simp_all
  from v a p have k: "pa_access_key p = ak" by (simp split: if_splits)
  from v a p k obtain date where d: "header_get C req ''x-amz-date'' = Some date"
    by (cases "header_get C req ''x-amz-date''") simp_all
  from v a p k d obtain secs where s: "parse_amz_date date = Some secs" by (cases "parse_amz_date date") simp_all
  from v a p k d s have t: "\<bar>now - secs * 10 ^ 9\<bar> \<le> MAX_CLOCK_SKEW" "pa_scope_date p = take 8 date"
    by (simp_all split: if_splits)
  from v a p k d s t obtain canonical where c: "canonical_request C req (pa_signed_headers p) = Inr canonical"
    by (cases "canonical_request C req (pa_signed_headers p)") simp_all
  from v a p k d s t c have "hex_decode C (pa_signature p)
      = Inr (hmac256 C (signing_key C sk p) (as_bytes (string_to_sign C p date canonical)))"
    by (cases "hex_decode C (pa_signature p)") (simp_all split: if_splits)
  with that a p k d s t c show thesis by blast
qed

text \<open>The texts a request makes the verifier hash.\<close>

definition auth_texts :: "crypto \<Rightarrow> request_view \<Rightarrow> bytes set" where
  "auth_texts C req = insert (rv_body req)
     {t. \<exists>a p date canonical. header_get C req ''authorization'' = Some a \<and> parse_authorization a = Inr p
        \<and> header_get C req ''x-amz-date'' = Some date \<and> canonical_request C req (pa_signed_headers p) = Inr canonical
        \<and> (t = as_bytes canonical \<or> t = as_bytes (string_to_sign C p date canonical))}"

text \<open>The crates as the verifier needs them, with no hash or MAC collision among the texts \<open>T\<close>.\<close>

definition crypto_laws :: "crypto \<Rightarrow> bytes set \<Rightarrow> bool" where
  "crypto_laws C T \<longleftrightarrow> inj_on (sha256 C) T \<and> (\<forall>k. inj_on (hmac256 C k) T)
     \<and> (\<forall>b. hex_decode C (hex_encode C b) = Inr b \<and> LF \<notin> set (hex_encode C b) \<and> hex_encode C b \<noteq> UNSIGNED_PAYLOAD)
     \<and> (\<forall>v s. hdr_to_str C v = Some s \<longrightarrow> LF \<notin> set s)"

text \<open>A request line without line feeds, as HTTP has it.\<close>

definition http_clean :: "request_view \<Rightarrow> bool" where
  "http_clean req \<longleftrightarrow> LF \<notin> set (rv_method req) \<and> LF \<notin> set (rv_path req)
     \<and> (case rv_query req of None \<Rightarrow> True | Some q \<Rightarrow> LF \<notin> set q)"

lemma split_on_chars: "p \<in> set (split_on c xs) \<Longrightarrow> set p \<subseteq> set xs"
proof (induction xs arbitrary: p)
  case (Cons x xs)
  obtain q qs where q: "split_on c xs = q # qs" by (cases "split_on c xs") auto
  then have "\<forall>r \<in> set (q # qs). set r \<subseteq> set xs" using Cons.IH by metis
  then show ?case using Cons.prems q by (auto split: if_splits)
qed simp

lemma trim_chars: "set (trim s) \<subseteq> set s"
  unfolding trim_def set_rev using set_dropWhileD [of _ is_ws] by (metis set_rev subsetI)

lemma strip_prefix_chars: "strip_prefix p s = Some t \<Longrightarrow> set t \<subseteq> set s"
  by (auto simp: strip_prefix_Some)

lemma normalize_chars: "LF \<notin> set s \<Longrightarrow> LF \<notin> set (normalize_header_value s)"
proof -
  have "LF \<notin> set (normalize_loop b cs)" if "LF \<notin> set cs" for b cs
    using that by (induction b cs rule: normalize_loop.induct) (auto simp: LF_def)
  then show "LF \<notin> set s \<Longrightarrow> LF \<notin> set (normalize_header_value s)"
    using trim_chars [of s] by (auto simp: normalize_header_value_def)
qed

lemma join_chars: "c \<in> set (join_with sep xs) \<Longrightarrow> c \<in> set sep \<or> (\<exists>x \<in> set xs. c \<in> set x)"
  unfolding join_with_def by (cases xs) (auto split: if_splits)

lemma lower_LF: "LF \<notin> set s \<Longrightarrow> LF \<notin> set (to_ascii_lowercase s)"
proof -
  have "char_of (of_char c + 32 :: nat) \<noteq> LF" if "CHR ''A'' \<le> c" "c \<le> CHR ''Z''" for c :: char
  proof
    assume "char_of (of_char c + 32 :: nat) = LF"
    then have "(of_char (char_of (of_char c + 32 :: nat)) :: nat) = of_char LF" by simp
    then have "(of_char c + 32 :: nat) mod 256 = 10" by (simp add: LF_def)
    then show False using that by (simp add: less_eq_char_def)
  qed
  then have "lower_char c \<noteq> LF" if "c \<noteq> LF" for c using that by (simp add: lower_char_def)
  then show "LF \<notin> set s \<Longrightarrow> LF \<notin> set (to_ascii_lowercase s)"
    unfolding to_ascii_lowercase_def set_map by (metis imageE)
qed

lemma signed_header_LF: "LF \<notin> set s \<Longrightarrow> h \<in> set (signed_header_list s) \<Longrightarrow> LF \<notin> set h"
  using split_on_chars [of _ "CHR '';''" s] by (auto simp: signed_header_list_def intro!: lower_LF)

lemma auth_parts_LF:
  assumes "auth_parts ps (cred, hs, sig) = (cred', Some h, sig')" and "\<forall>p \<in> set ps. LF \<notin> set p"
    and "case hs of None \<Rightarrow> True | Some h \<Rightarrow> LF \<notin> set h"
  shows "LF \<notin> set h"
  using assms
proof (induction ps arbitrary: cred hs sig)
  case (Cons p ps)
  have "LF \<notin> set (trim p)" using Cons.prems(2) trim_chars [of p] by auto
  then have "LF \<notin> set v" if "strip_prefix q (trim p) = Some v" for q v using strip_prefix_chars [OF that] by auto
  then show ?case using Cons.prems Cons.IH by (auto simp: Let_def split: option.splits)
qed auto

lemma parsed_headers_LF:
  assumes "parse_authorization a = Inr p" and "LF \<notin> set a"
  shows "\<forall>h \<in> set (pa_signed_headers p). LF \<notin> set h"
proof -
  from assms(1) obtain rest where r: "strip_prefix ALGORITHM a = Some rest"
    by (auto simp: parse_authorization_def split: option.splits)
  obtain c h s where parts: "auth_parts (split_on CHR '','' rest) (None, None, None) = (c, h, s)" by (metis prod_cases3)
  from assms(1) r parts obtain hs where h: "h = Some hs" and p: "pa_signed_headers p = signed_header_list hs"
    by (auto simp: parse_authorization_def split: option.splits list.splits if_splits)
  have "LF \<notin> set rest" using strip_prefix_chars [OF r] assms(2) by auto
  then have "\<forall>q \<in> set (split_on CHR '','' rest). LF \<notin> set q" using split_on_chars by fastforce
  then have "LF \<notin> set hs" using auth_parts_LF [OF parts [unfolded h]] by simp
  then show ?thesis using signed_header_LF p by simp
qed

lemma header_value_LF:
  assumes "header_line_value C req name = Inr v" and "\<And>v s. hdr_to_str C v = Some s \<Longrightarrow> LF \<notin> set s"
  shows "LF \<notin> set v"
proof -
  let ?f = "\<lambda>v. case hdr_to_str C v of None \<Rightarrow> Inl (Invalid ''signed header is not valid UTF-8'')
     | Some s \<Rightarrow> Inr (normalize_header_value s)"
  from assms(1) obtain vs where vs: "collect_ok (map ?f (header_get_all req name)) = Inr vs" and v: "v = join_with '','' vs"
    by (auto simp: header_line_value_def split: if_splits sum.splits)
  have "\<forall>x \<in> set vs. LF \<notin> set x" if "collect_ok (map ?f us) = Inr vs" for us
    using that
  proof (induction us arbitrary: vs)
    case (Cons u us)
    then show ?case using assms(2) normalize_chars by (auto split: option.splits sum.splits)
  qed simp
  then have "\<forall>x \<in> set vs. LF \<notin> set x" using vs by blast
  then show ?thesis using join_chars [of LF "'',''" vs] by (auto simp: v LF_def)
qed

lemma canonical_headers_inj:
  assumes "canonical_headers C r1 names = Inr h1" and "canonical_headers C r2 names = Inr h2"
    and "\<And>v s. hdr_to_str C v = Some s \<Longrightarrow> LF \<notin> set s" and "\<forall>h \<in> set names. LF \<notin> set h" and "h1 @ LF # a = h2 @ LF # b"
  shows "a = b \<and> (\<forall>n \<in> set names. header_line_value C r1 n = header_line_value C r2 n)"
  using assms
proof (induction names arbitrary: h1 h2)
  case (Cons n names)
  from Cons.prems(1,2) obtain v1 v2 g1 g2 where v: "header_line_value C r1 n = Inr v1" "header_line_value C r2 n = Inr v2"
    and g: "canonical_headers C r1 names = Inr g1" "canonical_headers C r2 names = Inr g2"
    and h: "h1 = (n @ '':'' @ v1) @ LF # g1" "h2 = (n @ '':'' @ v2) @ LF # g2"
    by (auto split: sum.splits)
  have l: "LF \<notin> set (n @ '':'' @ v1)" "LF \<notin> set (n @ '':'' @ v2)"
    using header_value_LF [OF v(1) Cons.prems(3)] header_value_LF [OF v(2) Cons.prems(3)] Cons.prems(4) by (auto simp: LF_def)
  have "n @ '':'' @ v1 = n @ '':'' @ v2 \<and> g1 @ LF # a = g2 @ LF # b"
    by (rule cut_eq [OF l]) (use Cons.prems(5) h in simp)
  then show ?case using Cons.IH [OF g Cons.prems(3)] Cons.prems(4) v by auto
qed simp

lemma as_bytes_inj [simp]: "as_bytes s = as_bytes t \<longleftrightarrow> s = t"
proof
  have "inj (\<lambda>c. word_of_nat (of_char c) :: 8 word)"
  proof (rule injI)
    fix c d :: char
    assume "(word_of_nat (of_char c) :: 8 word) = word_of_nat (of_char d)"
    then have "unat (word_of_nat (of_char c) :: 8 word) = unat (word_of_nat (of_char d) :: 8 word)" by simp
    then show "c = d" by (simp add: unat_of_nat)
  qed
  then show "as_bytes s = as_bytes t \<Longrightarrow> s = t" by (simp add: as_bytes_def inj_map_eq_map)
qed simp

lemma split_once_chars: "split_once x q = Some (a, b) \<Longrightarrow> set a \<union> set b \<subseteq> set q"
  by (induction q arbitrary: a b) (auto split: if_splits)

lemma query_LF: "http_clean req \<Longrightarrow> LF \<notin> set (canonical_query req)"
proof -
  assume c: "http_clean req"
  have "LF \<notin> set k \<and> LF \<notin> set v" if "(k, v) \<in> set (query_pairs req)" for k v
  proof -
    obtain p where p: "p \<in> set (split_on CHR ''&'' (case rv_query req of None \<Rightarrow> [] | Some q \<Rightarrow> q))"
      and kv: "(k, v) = (case split_once CHR ''='' p of None \<Rightarrow> (p, []) | Some kv \<Rightarrow> kv)"
      using \<open>(k, v) \<in> _\<close> by (auto simp: query_pairs_def)
    have "LF \<notin> set p" using split_on_chars [OF p] c by (auto simp: http_clean_def split: option.splits)
    then show ?thesis using kv split_once_chars [of "CHR ''=''" p k v] by (auto split: option.splits)
  qed
  then show ?thesis
    using join_chars [of LF "''&''"] by (fastforce simp: canonical_query_def LF_def)
qed

lemma canonical_inj:
  assumes "canonical_request C r1 names = Inr c" and "canonical_request C r2 names = Inr c"
    and "http_clean r1" and "http_clean r2" and "\<And>v s. hdr_to_str C v = Some s \<Longrightarrow> LF \<notin> set s"
    and "\<forall>h \<in> set names. LF \<notin> set h"
  shows "rv_method r1 = rv_method r2 \<and> canonical_uri r1 = canonical_uri r2 \<and> canonical_query r1 = canonical_query r2
    \<and> (\<forall>n \<in> set names. header_line_value C r1 n = header_line_value C r2 n) \<and> payload_hash C r1 = payload_hash C r2"
proof -
  from assms(1,2) obtain h1 h2 where h: "canonical_headers C r1 names = Inr h1" "canonical_headers C r2 names = Inr h2"
    and c: "c = rv_method r1 @ LF # canonical_uri r1 @ LF # canonical_query r1 @ LF # h1 @ LF # join_with '';'' names @ LF # payload_hash C r1"
      "c = rv_method r2 @ LF # canonical_uri r2 @ LF # canonical_query r2 @ LF # h2 @ LF # join_with '';'' names @ LF # payload_hash C r2"
    by (auto simp: canonical_request_def split: sum.splits)
  have m: "LF \<notin> set (rv_method r)" and u: "LF \<notin> set (canonical_uri r)" if "http_clean r" for r
    using that by (auto simp: http_clean_def canonical_uri_def LF_def)
  note 1 = cut_eq [OF m [OF assms(3)] m [OF assms(4)] c(1) [symmetric, THEN trans, OF c(2)]]
  note 2 = cut_eq [OF u [OF assms(3)] u [OF assms(4)] conjunct2 [OF 1]]
  note 3 = cut_eq [OF query_LF [OF assms(3)] query_LF [OF assms(4)] conjunct2 [OF 2]]
  note 4 = canonical_headers_inj [OF h assms(5,6) conjunct2 [OF 3]]
  show ?thesis using 1 2 3 4 by simp
qed

lemma crypto_lawsD:
  assumes "crypto_laws C T"
  shows "inj_on (sha256 C) T" "inj_on (hmac256 C k) T" "hex_decode C (hex_encode C b) = Inr b"
    "hex_encode C b \<noteq> UNSIGNED_PAYLOAD" "hdr_to_str C v = Some s \<Longrightarrow> LF \<notin> set s"
  using assms unfolding crypto_laws_def by blast+

lemma hex_inj: "crypto_laws C T \<Longrightarrow> hex_encode C a = hex_encode C b \<Longrightarrow> a = b"
  by (metis crypto_lawsD(3) sum.inject(2))

lemma payload_inj:
  assumes "crypto_laws C T" and "rv_body r1 \<in> T" and "rv_body r2 \<in> T" and "payload_hash C r1 = payload_hash C r2"
  shows "header_get C r1 ''x-amz-content-sha256'' = Some UNSIGNED_PAYLOAD \<or> rv_body r1 = rv_body r2"
proof -
  note u = crypto_lawsD(4) [OF assms(1)]
  have i: "sha256 C (rv_body r1) = sha256 C (rv_body r2) \<Longrightarrow> rv_body r1 = rv_body r2"
    by (rule inj_onD [OF crypto_lawsD(1) [OF assms(1)] _ assms(2,3)])
  show ?thesis using assms(4) u [of "sha256 C (rv_body r1)"] u [of "sha256 C (rv_body r2)"] i hex_inj [OF assms(1)]
    by (auto simp: payload_hash_def split: if_splits)
qed

lemma sign_text_inj:
  assumes "crypto_laws C T" and "as_bytes c1 \<in> T" and "as_bytes c2 \<in> T" and "LF \<notin> set d1" and "LF \<notin> set d2"
    and "string_to_sign C p d1 c1 = string_to_sign C p d2 c2"
  shows "d1 = d2 \<and> c1 = c2"
proof -
  define S where "S = pa_scope_date p @ ''/'' @ pa_scope_region p @ ''/'' @ pa_scope_service p @ ''/aws4_request''"
  have t: "string_to_sign C p d c = ALGORITHM @ LF # d @ LF # S @ LF # hex_encode C (sha256 C (as_bytes c))" for d c
    by (simp add: string_to_sign_def S_def)
  have "d1 @ LF # S @ LF # hex_encode C (sha256 C (as_bytes c1)) = d2 @ LF # S @ LF # hex_encode C (sha256 C (as_bytes c2))"
    using assms(6) unfolding t same_append_eq list.inject by blast
  note c = cut_eq [OF assms(4,5) this]
  note d = conjunct1 [OF c] and h = conjunct2 [OF c]
  from h have "hex_encode C (sha256 C (as_bytes c1)) = hex_encode C (sha256 C (as_bytes c2))"
    unfolding same_append_eq list.inject by (rule conjunct2)
  then have "sha256 C (as_bytes c1) = sha256 C (as_bytes c2)" by (rule hex_inj [OF assms(1)])
  then have "as_bytes c1 = as_bytes c2" by (rule inj_onD [OF crypto_lawsD(1) [OF assms(1)] _ assms(2,3)])
  then show ?thesis using d by simp
qed

text \<open>
  C30: a signature is good for one request only. When two requests with the same Authorization header
  are both accepted, and there is no hash or MAC collision among their texts, they have the same
  method, path, query, date and signed headers, and the same body unless the client declared the
  payload unsigned: nothing the signature covers can be changed on the way.
\<close>

theorem signature_binds_request:
  assumes "verify C ak sk r1 now1 = Inr ()" and "verify C ak sk r2 now2 = Inr ()"
    and "header_get C r1 ''authorization'' = Some a" and "header_get C r2 ''authorization'' = Some a"
    and "parse_authorization a = Inr p"
    and "http_clean r1" and "http_clean r2" and "crypto_laws C (auth_texts C r1 \<union> auth_texts C r2)"
  shows "rv_method r1 = rv_method r2 \<and> canonical_uri r1 = canonical_uri r2 \<and> canonical_query r1 = canonical_query r2
    \<and> header_get C r1 ''x-amz-date'' = header_get C r2 ''x-amz-date''
    \<and> (\<forall>n \<in> set (pa_signed_headers p). header_line_value C r1 n = header_line_value C r2 n)
    \<and> (header_get C r1 ''x-amz-content-sha256'' = Some UNSIGNED_PAYLOAD \<or> rv_body r1 = rv_body r2)"
proof -
  let ?T = "auth_texts C r1 \<union> auth_texts C r2"
  from assms(1,3,5) obtain d1 c1 where 1: "header_get C r1 ''x-amz-date'' = Some d1" "canonical_request C r1 (pa_signed_headers p) = Inr c1"
    "hex_decode C (pa_signature p) = Inr (hmac256 C (signing_key C sk p) (as_bytes (string_to_sign C p d1 c1)))"
    by (elim verify_ok) simp
  from assms(2,4,5) obtain d2 c2 where 2: "header_get C r2 ''x-amz-date'' = Some d2" "canonical_request C r2 (pa_signed_headers p) = Inr c2"
    "hex_decode C (pa_signature p) = Inr (hmac256 C (signing_key C sk p) (as_bytes (string_to_sign C p d2 c2)))"
    by (elim verify_ok) simp
  have t: "as_bytes (string_to_sign C p d1 c1) \<in> ?T" "as_bytes (string_to_sign C p d2 c2) \<in> ?T" "as_bytes c1 \<in> ?T" "as_bytes c2 \<in> ?T"
    "rv_body r1 \<in> ?T" "rv_body r2 \<in> ?T"
    using assms(3,4,5) 1 2 unfolding auth_texts_def by blast+
  have lf: "LF \<notin> set s" if "hdr_to_str C v = Some s" for v s by (rule crypto_lawsD(5) [OF assms(8) that])
  then have g: "LF \<notin> set s" if "header_get C r n = Some s" for r n s using that by (auto simp: header_get_def split: option.splits)
  have "hmac256 C (signing_key C sk p) (as_bytes (string_to_sign C p d1 c1)) = hmac256 C (signing_key C sk p) (as_bytes (string_to_sign C p d2 c2))"
    using 1(3) 2(3) by simp
  from inj_onD [OF crypto_lawsD(2) [OF assms(8)] this t(1,2)] have "string_to_sign C p d1 c1 = string_to_sign C p d2 c2" by simp
  from sign_text_inj [OF assms(8) t(3,4) g [OF 1(1)] g [OF 2(1)] this] have e: "d1 = d2" "c1 = c2" by simp_all
  note c = canonical_inj [OF 1(2) 2(2) [folded e(2)] assms(6,7) lf parsed_headers_LF [OF assms(5) g [OF assms(3)]]]
  show ?thesis using c payload_inj [OF assms(8) t(5,6)] 1(1) 2(1) e(1) by simp
qed

text \<open>A toy crypto suite: two characters per byte, and a MAC that is injective by construction.\<close>

fun nib_encode :: "bytes \<Rightarrow> string" where
  "nib_encode [] = []"
| "nib_encode (b # bs) = char_of (48 + unat b div 16) # char_of (48 + unat b mod 16) # nib_encode bs"

fun nib_decode :: "string \<Rightarrow> bytes" where
  "nib_decode (x # y # r) = word_of_nat ((of_char x - 48) * 16 + (of_char y - 48)) # nib_decode r"
| "nib_decode _ = []"

definition toy_crypto :: "bytes \<Rightarrow> crypto" where
  "toy_crypto m = \<lparr>sha256 = id, hmac256 = (\<lambda>k d. if d = m then [] else 0 # d), hex_encode = nib_encode,
     hex_decode = (\<lambda>s. Inr (nib_decode s)), hdr_to_str = (\<lambda>v. if LF \<in> set v then None else Some v)\<rparr>"

lemma nibbles: "unat (x :: byte) div 16 < 16" "(48 + unat x div 16) mod 256 = 48 + unat x div 16"
  "(48 + unat x mod 16) mod 256 = 48 + unat x mod 16"
proof -
  have "unat x < 16 * 16" using unat_byte_lt [of x] by linarith
  then show d: "unat x div 16 < 16" by (rule less_mult_imp_div_less)
  then have "48 + unat x div 16 < 256" by linarith
  then show "(48 + unat x div 16) mod 256 = 48 + unat x div 16" by (rule mod_less)
  have "unat x mod 16 < 16" by simp
  then have "48 + unat x mod 16 < 256" by linarith
  then show "(48 + unat x mod 16) mod 256 = 48 + unat x mod 16" by (rule mod_less)
qed

lemma nib_decode_encode: "nib_decode (nib_encode b) = b"
proof (induction b)
  case (Cons x b)
  have "(word_of_nat ((of_char (char_of (48 + unat x div 16) :: char) - 48) * 16 + (of_char (char_of (48 + unat x mod 16) :: char) - 48)) :: byte)
      = word_of_nat (unat x div 16 * 16 + unat x mod 16)"
    using nibbles [of x] by simp
  also have "\<dots> = x" by simp
  finally show ?case using Cons by simp
qed simp

lemma nib_encode_chars: "c \<in> set (nib_encode b) \<Longrightarrow> 48 \<le> (of_char c :: nat) \<and> (of_char c :: nat) < 64"
proof (induction b)
  case (Cons x b)
  then show ?case using nibbles [of x] by auto
qed simp

lemma toy_crypto_laws: "crypto_laws (toy_crypto m) T"
proof -
  have "LF \<notin> set (nib_encode b)" "CHR ''U'' \<notin> set (nib_encode b)" for b
    using nib_encode_chars [of LF b] nib_encode_chars [of "CHR ''U''" b] by (auto simp: LF_def)
  moreover have "CHR ''U'' \<in> set UNSIGNED_PAYLOAD" by (simp add: UNSIGNED_PAYLOAD_def)
  ultimately have "LF \<notin> set (nib_encode b) \<and> nib_encode b \<noteq> UNSIGNED_PAYLOAD" for b by metis
  then show ?thesis by (auto simp: crypto_laws_def toy_crypto_def nib_decode_encode inj_on_def split: if_splits)
qed

definition toy_header :: string where
  "toy_header = ''AWS4-HMAC-SHA256 Credential=ak/19700101/r/s/aws4_request, SignedHeaders=h, Signature=''"

definition toy_request :: "string \<Rightarrow> request_view" where
  "toy_request path = \<lparr>rv_method = ''POST'', rv_path = path, rv_query = None,
     rv_headers = [(''authorization'', toy_header), (''x-amz-date'', ''19700101T000000Z''), (''h'', '' v  w '')], rv_body = []\<rparr>"

definition toy_parsed :: parsed_authorization where
  "toy_parsed = \<lparr>pa_access_key = ''ak'', pa_scope_date = ''19700101'', pa_scope_region = ''r'', pa_scope_service = ''s'',
     pa_signed_headers = [''h''], pa_signature = []\<rparr>"

lemma toy_parse: "parse_authorization toy_header = Inr toy_parsed"
  by (simp add: parse_authorization_def toy_header_def toy_parsed_def ALGORITHM_def strip_prefix_def trim_def is_ws_def
      signed_header_list_def to_ascii_lowercase_def lower_char_def)

lemma toy_date: "parse_amz_date ''19700101T000000Z'' = Some 0"
  by code_simp

abbreviation toy_canonical_text :: string where
  "toy_canonical_text \<equiv> ''POST'' @ LF # ''/'' @ LF # [] @ LF # (''h'' @ '':'' @ ''v w'' @ LF # []) @ LF # ''h'' @ LF # []"

definition toy_text :: bytes where
  "toy_text = as_bytes (string_to_sign (toy_crypto []) toy_parsed ''19700101T000000Z'' toy_canonical_text)"

lemma toy_headers:
  "header_get (toy_crypto m) (toy_request path) ''authorization'' = Some toy_header"
  "header_get (toy_crypto m) (toy_request path) ''x-amz-date'' = Some ''19700101T000000Z''"
  "header_line_value (toy_crypto m) (toy_request path) ''h'' = Inr ''v w''"
  "payload_hash (toy_crypto m) (toy_request path) = []"
  by (simp_all add: header_get_def toy_request_def toy_crypto_def toy_header_def LF_def header_line_value_def header_get_all_def
      normalize_header_value_def trim_def is_ws_def join_with_def payload_hash_def)

lemma toy_line:
  "rv_method (toy_request path) = ''POST''" "canonical_query (toy_request path) = []"
  "path = [] \<or> path = ''/'' \<Longrightarrow> canonical_uri (toy_request path) = ''/''"
  by (auto simp: toy_request_def canonical_uri_def canonical_query_def query_pairs_def join_with_def)

lemma toy_canonical:
  assumes "path = [] \<or> path = ''/''"
  shows "canonical_request (toy_crypto m) (toy_request path) [''h''] = Inr toy_canonical_text"
  by (simp add: canonical_request_def toy_headers toy_line toy_line(3) [OF assms] join_with_def)

lemma toy_verify:
  assumes "path = [] \<or> path = ''/''"
  shows "verify (toy_crypto toy_text) ''ak'' ''sk'' (toy_request path) 5 = Inr ()"
proof -
  have p: "pa_access_key toy_parsed = ''ak''" "pa_scope_date toy_parsed = take 8 ''19700101T000000Z''" "pa_signed_headers toy_parsed = [''h'']"
    "pa_signature toy_parsed = []" by (simp_all add: toy_parsed_def)
  have "string_to_sign (toy_crypto toy_text) toy_parsed ''19700101T000000Z'' toy_canonical_text
      = string_to_sign (toy_crypto []) toy_parsed ''19700101T000000Z'' toy_canonical_text"
    by (simp add: string_to_sign_def toy_crypto_def)
  then have "hmac256 (toy_crypto toy_text) k (as_bytes (string_to_sign (toy_crypto toy_text) toy_parsed ''19700101T000000Z'' toy_canonical_text)) = []" for k
    by (simp add: toy_text_def toy_crypto_def)
  moreover have "hex_decode (toy_crypto toy_text) [] = Inr []" by (simp add: toy_crypto_def)
  moreover have "\<not> \<bar>5 - 0 * 10 ^ 9\<bar> > MAX_CLOCK_SKEW" by (simp add: MAX_CLOCK_SKEW_def)
  ultimately show ?thesis
    unfolding verify_def toy_headers option.case toy_parse sum.case toy_date p toy_canonical [OF assms] by simp
qed

theorem signature_binds_request_witness:
  "toy_request [] \<noteq> toy_request ''/''
   \<and> verify (toy_crypto toy_text) ''ak'' ''sk'' (toy_request []) 5 = Inr ()
   \<and> verify (toy_crypto toy_text) ''ak'' ''sk'' (toy_request ''/'') 5 = Inr ()
   \<and> canonical_uri (toy_request []) = canonical_uri (toy_request ''/'')
   \<and> header_line_value (toy_crypto toy_text) (toy_request []) ''h'' = header_line_value (toy_crypto toy_text) (toy_request ''/'') ''h''"
proof -
  have c: "http_clean (toy_request [])" "http_clean (toy_request ''/'')" by (simp_all add: http_clean_def toy_request_def LF_def)
  have n: "toy_request [] \<noteq> toy_request ''/''" by (simp add: toy_request_def)
  have v: "verify (toy_crypto toy_text) ''ak'' ''sk'' (toy_request []) 5 = Inr ()"
    "verify (toy_crypto toy_text) ''ak'' ''sk'' (toy_request ''/'') 5 = Inr ()" by (rule toy_verify; simp)+
  from signature_binds_request [OF v toy_headers(1) toy_headers(1) toy_parse c toy_crypto_laws] v n
  show ?thesis by (simp add: toy_parsed_def)
qed

section \<open>The calendar\<close>

text \<open>The civil calendar counted from first principles: whole years, whole months, days.\<close>

definition leap_year :: "int \<Rightarrow> bool" where
  "leap_year y \<longleftrightarrow> 4 dvd y \<and> (\<not> 100 dvd y \<or> 400 dvd y)"

definition month_days :: "int \<Rightarrow> int \<Rightarrow> int" where
  "month_days y m = (if m = 2 then (if leap_year y then 29 else 28) else if m \<in> {4, 6, 9, 11} then 30 else 31)"

definition year_days :: "int \<Rightarrow> int" where
  "year_days y = (if leap_year y then 366 else 365)"

definition civil_days :: "int \<Rightarrow> int \<Rightarrow> int \<Rightarrow> int" where
  "civil_days y m d = (\<Sum>k \<in> {1970..<y}. year_days k) - (\<Sum>k \<in> {y..<1970}. year_days k)
     + (\<Sum>k \<in> {1..<m}. month_days y k) + d - 1"

definition leaps :: "int \<Rightarrow> int" where
  "leaps y = y div 4 - y div 100 + y div 400"

lemma div_step:
  assumes "0 < n"
  shows "y div n = (y - 1) div n + (if n dvd y then 1 else 0 :: int)"
proof (cases "n dvd y")
  case True
  then obtain k where k: "y = n * k" by blast
  have "(n * k - 1) div n = k - 1" by (rule int_div_pos_eq [of _ _ _ "n - 1"]) (use assms in \<open>auto simp: algebra_simps\<close>)
  then show ?thesis using assms k by simp
next
  case False
  then have "0 < y mod n" "y mod n < n" using assms pos_mod_bound [OF assms, of y] pos_mod_sign [OF assms, of y]
    by (auto simp: dvd_eq_mod_eq_0)
  then have "(y - 1) div n = y div n"
    using mult_div_mod_eq [of n y] by (intro int_div_pos_eq [of _ _ _ "y mod n - 1"]) auto
  then show ?thesis using False by simp
qed

lemma leaps_step: "leaps y = leaps (y - 1) + (if leap_year y then 1 else 0)"
proof -
  have "400 dvd y \<Longrightarrow> 100 dvd y" "100 dvd y \<Longrightarrow> 4 dvd y"
    using dvd_trans [of 100 400 y] dvd_trans [of 4 100 y] by simp_all
  note d = this
  have a: "y div 4 = (y - 1) div 4 + (if 4 dvd y then 1 else 0)" "y div 100 = (y - 1) div 100 + (if 100 dvd y then 1 else 0)"
    "y div 400 = (y - 1) div 400 + (if 400 dvd y then 1 else 0)" by (rule div_step; simp)+
  have "(if A then 1 else 0) - (if B then 1 else 0) + (if C then 1 else 0) = (if A \<and> (\<not> B \<or> C) then 1 else 0 :: int)"
    if "C \<longrightarrow> B" "B \<longrightarrow> A" for A B C using that by (cases A; cases B; cases C) simp_all
  note n = this [of "400 dvd y" "100 dvd y" "4 dvd y", OF impI impI, OF d]
  have alg: "(p + a) - (q + b) + (r + c) = p - q + r + (a - b + c)" for p q r a b c :: int by simp
  show ?thesis unfolding leaps_def leap_year_def a alg by (rule arg_cong [OF n])
qed

lemma year_sum_up: "y0 \<le> y \<Longrightarrow> (\<Sum>k \<in> {y0..<y}. year_days k) = 365 * (y - y0) + leaps (y - 1) - leaps (y0 - 1)"
proof (induction y rule: int_ge_induct)
  case (step i)
  have "{y0..<i + 1} = insert i {y0..<i}" using step.hyps by auto
  then show ?case using step leaps_step [of i] by (simp add: year_days_def)
qed simp

lemma year_sum: "(\<Sum>k \<in> {1970..<y}. year_days k) - (\<Sum>k \<in> {y..<1970}. year_days k) = 365 * y + leaps (y - 1) - 719527"
proof (cases "1970 \<le> y")
  case True
  then show ?thesis using year_sum_up [OF True] by (simp add: leaps_def)
next
  case False
  then show ?thesis using year_sum_up [of y 1970] by (simp add: leaps_def)
qed

lemma era_days: "y div 400 * 146097 + (y - y div 400 * 400) * 365 + (y - y div 400 * 400) div 4 - (y - y div 400 * 400) div 100 = 365 * y + leaps y"
proof -
  define e r where "e = y div 400" and "r = y mod 400"
  have y: "y = 400 * e + r" by (simp add: e_def r_def)
  have "0 \<le> r" "r < 400" by (simp_all add: r_def)
  have d: "y div 4 = 100 * e + r div 4" "y div 100 = 4 * e + r div 100" "y - e * 400 = r" unfolding y by simp_all
  show ?thesis unfolding leaps_def d e_def [symmetric] by (simp add: y)
qed

lemma days_from_civil_eq:
  "days_from_civil y m d = 365 * (if m \<le> 2 then y - 1 else y) + leaps (if m \<le> 2 then y - 1 else y)
     + (153 * ((m + 9) mod 12) + 2) div 5 + d - 1 - 719468"
proof -
  define z where "z = (if m \<le> 2 then y - 1 else y)"
  define q where "q = (153 * ((m + 9) mod 12) + 2) div 5"
  have "days_from_civil y m d = z div 400 * 146097 + ((z - z div 400 * 400) * 365 + (z - z div 400 * 400) div 4
      - (z - z div 400 * 400) div 100 + (q + d - 1)) - 719468"
    unfolding days_from_civil_def Let_def z_def [symmetric] q_def [symmetric] ..
  also have "\<dots> = 365 * z + leaps z + q + d - 1 - 719468" unfolding era_days [of z, symmetric] by (simp only: algebra_simps)
  finally show ?thesis unfolding z_def q_def .
qed

lemma month_sum:
  assumes "1 \<le> m" and "m \<le> 12"
  shows "(\<Sum>k \<in> {1..<m}. month_days y k)
    = (if m \<le> 2 then (153 * ((m + 9) mod 12) + 2) div 5 - 306 else (153 * ((m + 9) mod 12) + 2) div 5 + 59 + (if leap_year y then 1 else 0))"
proof -
  have u: "sum f {1..<k + 1} = sum f {1..<k} + f k" if "1 \<le> k" for k and f :: "int \<Rightarrow> int"
  proof -
    have "{1..<k + 1} = insert k {1..<k}" using that by auto
    then show ?thesis by simp
  qed
  have s: "sum f {1..<1} = 0" "sum f {1..<2} = f 1" "sum f {1..<3} = f 1 + f 2" "sum f {1..<4} = f 1 + f 2 + f 3" 
    "sum f {1..<5} = f 1 + f 2 + f 3 + f 4" "sum f {1..<6} = f 1 + f 2 + f 3 + f 4 + f 5"
    "sum f {1..<7} = f 1 + f 2 + f 3 + f 4 + f 5 + f 6" "sum f {1..<8} = f 1 + f 2 + f 3 + f 4 + f 5 + f 6 + f 7"
    "sum f {1..<9} = f 1 + f 2 + f 3 + f 4 + f 5 + f 6 + f 7 + f 8"
    "sum f {1..<10} = f 1 + f 2 + f 3 + f 4 + f 5 + f 6 + f 7 + f 8 + f 9"
    "sum f {1..<11} = f 1 + f 2 + f 3 + f 4 + f 5 + f 6 + f 7 + f 8 + f 9 + f 10"
    "sum f {1..<12} = f 1 + f 2 + f 3 + f 4 + f 5 + f 6 + f 7 + f 8 + f 9 + f 10 + f 11" for f :: "int \<Rightarrow> int"
    using u [of 1 f] u [of 2 f] u [of 3 f] u [of 4 f] u [of 5 f] u [of 6 f] u [of 7 f] u [of 8 f] u [of 9 f] u [of 10 f] u [of 11 f]
    by simp_all
  have f: "month_days y 1 = 31" "month_days y 2 = (if leap_year y then 29 else 28)" "month_days y 3 = 31" "month_days y 4 = 30"
    "month_days y 5 = 31" "month_days y 6 = 30" "month_days y 7 = 31" "month_days y 8 = 31" "month_days y 9 = 30"
    "month_days y 10 = 31" "month_days y 11 = 30" by (simp_all add: month_days_def)
  consider "m = 1" | "m = 2" | "m = 3" | "m = 4" | "m = 5" | "m = 6" | "m = 7" | "m = 8" | "m = 9" | "m = 10" | "m = 11" | "m = 12"
    using assms by atomize_elim presburger
  then show ?thesis by cases (simp_all only: s f, simp_all)
qed

text \<open>
  The closed formula for the days since 1970-01-01 agrees with the calendar counted from first
  principles, in every month of every proleptic Gregorian year.
\<close>

theorem days_from_civil_correct:
  assumes "1 \<le> m" and "m \<le> 12"
  shows "days_from_civil y m d = civil_days y m d"
proof -
  have c: "civil_days y m d = 365 * y + leaps (y - 1) - 719527 + (\<Sum>k \<in> {1..<m}. month_days y k) + d - 1"
    unfolding civil_days_def using year_sum [of y] by simp
  show ?thesis
  proof (cases "m \<le> 2")
    case True
    then show ?thesis unfolding c month_sum [OF assms] days_from_civil_eq by simp
  next
    case False
    then show ?thesis using leaps_step [of y] unfolding c month_sum [OF assms] days_from_civil_eq by simp
  qed
qed

theorem days_from_civil_correct_witness:
  "days_from_civil 2024 3 1 = civil_days 2024 3 1 \<and> days_from_civil 2024 3 1 = 19783"
  using days_from_civil_correct [of 3 2024 1] by (simp add: days_from_civil_def)

text \<open>The fields of the date are parsed as signed numbers, so a minus sign passes for a digit.\<close>

theorem amz_date_signed_fields: "parse_amz_date ''19700102T-1-1-1Z'' = Some 82739"
  by code_simp

end
