(* ===== verification/S4_Handlers.thy ===== *)
theory S4_Handlers
  imports S4_Gateway S4_Routing S4_Auth
begin

text \<open>
  The HTTP side of the gateway: the CloudWatch forwarder (\<^verbatim>\<open>forward.rs\<close>), the probed store (\<^verbatim>\<open>sink.rs\<close>),
  the request handlers (\<^verbatim>\<open>handlers.rs\<close>) and the life of the server (\<^verbatim>\<open>lib.rs\<close>) of
  \<^verbatim>\<open>s4logs-gateway/src\<close>. The web framework, the JSON codec and the AWS clients are arguments.
\<close>

section \<open>Forwarding to CloudWatch\<close>

datatype forward_error = FwdApi string string

record 'f cw_forward =
  fw_put_log_events :: "string \<Rightarrow> string \<Rightarrow> input_log_event list \<Rightarrow> 'f \<Rightarrow> 'f \<times> (forward_error + unit)"
  fw_create_log_group :: "string \<Rightarrow> 'f \<Rightarrow> 'f \<times> (forward_error + unit)"
  fw_create_log_stream :: "string \<Rightarrow> string \<Rightarrow> 'f \<Rightarrow> 'f \<times> (forward_error + unit)"

definition noop_cw_forward :: "'f cw_forward" where
  "noop_cw_forward = \<lparr>fw_put_log_events = (\<lambda>_ _ _ f. (f, Inr ())), fw_create_log_group = (\<lambda>_ f. (f, Inr ())),
     fw_create_log_stream = (\<lambda>_ _ f. (f, Inr ()))\<rparr>"

text \<open>The SDK: building a wire event, the three calls, and the one error kind the code tells apart.\<close>

datatype create_error = ResourceAlreadyExists | OtherCreateError string

record ('f, 'w) cwl_client =
  cl_build_event :: "int \<Rightarrow> string \<Rightarrow> string + 'w"
  cl_put_log_events :: "string \<Rightarrow> string \<Rightarrow> 'w list \<Rightarrow> 'f \<Rightarrow> 'f \<times> (string + unit)"
  cl_create_log_group :: "string \<Rightarrow> 'f \<Rightarrow> 'f \<times> (create_error + unit)"
  cl_create_log_stream :: "string \<Rightarrow> string \<Rightarrow> 'f \<Rightarrow> 'f \<times> (create_error + unit)"

fun build_wire :: "('f, 'w) cwl_client \<Rightarrow> input_log_event list \<Rightarrow> forward_error + 'w list" where
  "build_wire cl [] = Inr []"
| "build_wire cl (e # es) =
     (case cl_build_event cl (ile_timestamp e) (ile_message e) of
        Inl err \<Rightarrow> Inl (FwdApi ''PutLogEvents'' err)
      | Inr w \<Rightarrow> (case build_wire cl es of Inl err \<Rightarrow> Inl err | Inr ws \<Rightarrow> Inr (w # ws)))"

definition sdk_put_log_events ::
    "('f, 'w) cwl_client \<Rightarrow> string \<Rightarrow> string \<Rightarrow> input_log_event list \<Rightarrow> 'f \<Rightarrow> 'f \<times> (forward_error + unit)" where
  "sdk_put_log_events cl lg strm events f =
     (case build_wire cl events of
        Inl e \<Rightarrow> (f, Inl e)
      | Inr wire \<Rightarrow> (case cl_put_log_events cl lg strm wire f of (f', r) \<Rightarrow> (f', map_err (FwdApi ''PutLogEvents'') r)))"

definition swallow_existing :: "string \<Rightarrow> create_error + unit \<Rightarrow> forward_error + unit" where
  "swallow_existing op r =
     (case r of
        Inr _ \<Rightarrow> Inr ()
      | Inl ResourceAlreadyExists \<Rightarrow> Inr ()
      | Inl (OtherCreateError e) \<Rightarrow> Inl (FwdApi op e))"

definition sdk_create_log_group :: "('f, 'w) cwl_client \<Rightarrow> string \<Rightarrow> 'f \<Rightarrow> 'f \<times> (forward_error + unit)" where
  "sdk_create_log_group cl lg f =
     (case cl_create_log_group cl lg f of (f', r) \<Rightarrow> (f', swallow_existing ''CreateLogGroup'' r))"

definition sdk_create_log_stream :: "('f, 'w) cwl_client \<Rightarrow> string \<Rightarrow> string \<Rightarrow> 'f \<Rightarrow> 'f \<times> (forward_error + unit)" where
  "sdk_create_log_stream cl lg strm f =
     (case cl_create_log_stream cl lg strm f of (f', r) \<Rightarrow> (f', swallow_existing ''CreateLogStream'' r))"

definition sdk_cw_forward :: "('f, 'w) cwl_client \<Rightarrow> 'f cw_forward" where
  "sdk_cw_forward cl = \<lparr>fw_put_log_events = sdk_put_log_events cl, fw_create_log_group = sdk_create_log_group cl,
     fw_create_log_stream = sdk_create_log_stream cl\<rparr>"

section \<open>The probed store\<close>

definition PROBE_TTL :: nat where "PROBE_TTL = 10000"

text \<open>The store with the cached outcome of the last probe and a clock in milliseconds.\<close>

record 's probed_store =
  ps_store :: 's
  ps_cache :: "(nat \<times> bool) option"
  ps_now :: nat
  ps_probes :: nat

text \<open>\<^verbatim>\<open>ListObjectsV2\<close> of bucket, prefix and the number of keys; the probe is a call of it.\<close>

definition ps_probe :: "(string \<Rightarrow> string \<Rightarrow> nat \<Rightarrow> 's \<Rightarrow> string + unit) \<Rightarrow> object_store \<Rightarrow> 's \<Rightarrow> bool" where
  "ps_probe list_v2 st s = (case list_v2 (os_bucket st) (os_prefix st) 1 s of Inr _ \<Rightarrow> True | Inl _ \<Rightarrow> False)"

definition ps_ready ::
    "(string \<Rightarrow> string \<Rightarrow> nat \<Rightarrow> 's \<Rightarrow> string + unit) \<Rightarrow> object_store \<Rightarrow> nat \<Rightarrow> 's probed_store \<Rightarrow> 's probed_store \<times> bool" where
  "ps_ready list_v2 st ttl p =
     (let fresh = (let ok = ps_probe list_v2 st (ps_store p)
                   in (p\<lparr>ps_cache := Some (ps_now p, ok), ps_probes := ps_probes p + 1\<rparr>, ok))
      in case ps_cache p of
           Some (at, ok) \<Rightarrow> if ps_now p - at < ttl then (p, ok) else fresh
         | None \<Rightarrow> fresh)"

definition ps_put_chunk ::
    "s4_codec \<Rightarrow> 's s3_client \<Rightarrow> object_store \<Rightarrow> chunk_location \<Rightarrow> encoded_chunk \<Rightarrow> 's probed_store
     \<Rightarrow> 's probed_store \<times> (sink_error + put_receipt)" where
  "ps_put_chunk X cl st loc chunk p =
     (case os_put_chunk X cl st loc chunk (ps_store p) of (s', r) \<Rightarrow> (p\<lparr>ps_store := s'\<rparr>, r))"

section \<open>The handlers\<close>

definition MAX_REQUEST_BODY_BYTES :: nat where "MAX_REQUEST_BODY_BYTES = 8 * 2 ^ 20"

text \<open>The configuration of the application and the collaborators of its handlers.\<close>

record ('s, 'dt, 'm, 'f) app_env =
  ax_globset :: "'m globset"
  ax_routing :: "'m routing_config"
  ax_buffer_env :: "('s, 'dt) buffer_env"
  ax_buffer_config :: buffer_config
  ax_forward :: "'f cw_forward"
  ax_auth :: auth_mode
  ax_crypto :: crypto
  ax_metrics :: "string option"
  ax_de_put :: "bytes \<Rightarrow> string + put_log_events_request"
  ax_de_group :: "bytes \<Rightarrow> string + create_log_group_request"
  ax_de_stream :: "bytes \<Rightarrow> string + create_log_stream_request"
  ax_de_groups :: "bytes \<Rightarrow> string + describe_log_groups_request"
  ax_de_streams :: "bytes \<Rightarrow> string + describe_log_streams_request"
  ax_ser_empty :: "unit \<Rightarrow> string + string"
  ax_ser_groups :: "describe_log_groups_response \<Rightarrow> string + string"
  ax_ser_streams :: "describe_log_streams_response \<Rightarrow> string + string"
  ax_ser_error :: "api_error \<Rightarrow> string + string"

text \<open>
  The state the handlers share: the buffer manager, the registry, the CloudWatch side, the clock and the
  counters \<^verbatim>\<open>s4logs_events_total\<close> and \<^verbatim>\<open>s4logs_cw_passthrough_errors_total\<close>.
\<close>

record ('s, 'f) app_state =
  as_buffers :: "'s buffer_manager"
  as_registry :: registry
  as_forward :: 'f
  as_now_ms :: int
  as_events_total :: "string \<Rightarrow> nat"
  as_passthrough_errors :: nat

definition parse_body :: "(bytes \<Rightarrow> string + 'a) \<Rightarrow> bytes \<Rightarrow> api_error + 'a" where
  "parse_body de body = map_err serialization (de body)"

definition buffer_api_error :: "buffer_error \<Rightarrow> api_error" where
  "buffer_api_error e =
     (case e of
        OverCapacity \<Rightarrow> backpressure
      | BWal _ \<Rightarrow> internal_failure ''wal append failed; retry the batch''
      | _ \<Rightarrow> service_unavailable ''event buffering failed; retry the batch'')"

text \<open>The two halves of \<^verbatim>\<open>put_log_events\<close> after routing: buffering, then forwarding.\<close>

definition put_buffer ::
    "('s, 'dt, 'm, 'f) app_env \<Rightarrow> route_action \<Rightarrow> put_log_events_request \<Rightarrow> ('s, 'f) app_state
     \<Rightarrow> ('s, 'f) app_state \<times> (api_error + unit)" where
  "put_buffer A action req st =
     (if to_s3 action
      then case push_events (ax_buffer_env A) (ax_buffer_config A) (ple_log_group_name req) (ple_log_stream_name req)
                  (ple_log_events req) (as_buffers st) of
             (bm, r) \<Rightarrow> (st\<lparr>as_buffers := bm\<rparr>, map_err buffer_api_error r)
      else (st, Inr ()))"

definition put_forward ::
    "('s, 'dt, 'm, 'f) app_env \<Rightarrow> route_action \<Rightarrow> put_log_events_request \<Rightarrow> ('s, 'f) app_state
     \<Rightarrow> ('s, 'f) app_state \<times> (api_error + unit)" where
  "put_forward A action req st =
     (if to_cloudwatch action
      then case fw_put_log_events (ax_forward A) (ple_log_group_name req) (ple_log_stream_name req) (ple_log_events req) (as_forward st) of
             (f, Inr _) \<Rightarrow> (st\<lparr>as_forward := f\<rparr>, Inr ())
           | (f, Inl _) \<Rightarrow>
               (st\<lparr>as_forward := f, as_passthrough_errors := as_passthrough_errors st + 1\<rparr>,
                if to_s3 action then Inr () else Inl (service_unavailable ''cloudwatch passthrough failed; retry the batch''))
      else (st, Inr ()))"

definition put_log_events ::
    "('s, 'dt, 'm, 'f) app_env \<Rightarrow> bytes \<Rightarrow> ('s, 'f) app_state \<Rightarrow> ('s, 'f) app_state \<times> (api_error + response)" where
  "put_log_events A body st =
     (case parse_body (ax_de_put A) body of
        Inl e \<Rightarrow> (st, Inl e)
      | Inr req \<Rightarrow>
          let action = route (ax_globset A) (ax_routing A) (ple_log_group_name req) (ple_log_stream_name req);
              lbl = route_action_as_str action;
              st1 = st\<lparr>as_events_total := (as_events_total st)(lbl := as_events_total st lbl + length (ple_log_events req)),
                       as_registry := touch (as_now_ms st) (ple_log_group_name req) (ple_log_stream_name req) (as_registry st)\<rparr>
          in case put_buffer A action req st1 of
               (st2, Inl e) \<Rightarrow> (st2, Inl e)
             | (st2, Inr _) \<Rightarrow>
                (case put_forward A action req st2 of
                   (st3, Inl e) \<Rightarrow> (st3, Inl e)
                 | (st3, Inr _) \<Rightarrow> (st3, amz_json_ok (ax_ser_empty A) ())))"

fun registry_error_to_string :: "registry_error \<Rightarrow> string" where
  "registry_error_to_string GroupExists = ''log group already exists''"
| "registry_error_to_string StreamExists = ''log stream already exists''"
| "registry_error_to_string GroupNotFound = ''log group does not exist''"

text \<open>A forwarded create: its error is counted and does not reach the client.\<close>

definition forward_create :: "('f \<Rightarrow> 'f \<times> (forward_error + unit)) \<Rightarrow> ('s, 'f) app_state \<Rightarrow> ('s, 'f) app_state" where
  "forward_create call st =
     (case call (as_forward st) of
        (f, Inr _) \<Rightarrow> st\<lparr>as_forward := f\<rparr>
      | (f, Inl _) \<Rightarrow> st\<lparr>as_forward := f, as_passthrough_errors := as_passthrough_errors st + 1\<rparr>)"

definition create_log_group ::
    "('s, 'dt, 'm, 'f) app_env \<Rightarrow> bytes \<Rightarrow> ('s, 'f) app_state \<Rightarrow> ('s, 'f) app_state \<times> (api_error + response)" where
  "create_log_group A body st =
     (case parse_body (ax_de_group A) body of
        Inl e \<Rightarrow> (st, Inl e)
      | Inr req \<Rightarrow>
         (case create_group (as_now_ms st) (clg_log_group_name req) (as_registry st) of
            (reg, Inl GroupExists) \<Rightarrow> (st\<lparr>as_registry := reg\<rparr>, Inl (already_exists ''log group''))
          | (reg, Inl e) \<Rightarrow> (st\<lparr>as_registry := reg\<rparr>, Inl (invalid_parameter (registry_error_to_string e)))
          | (reg, Inr _) \<Rightarrow>
              let st1 = st\<lparr>as_registry := reg\<rparr>;
                  st2 = (if group_may_reach_cloudwatch (ax_globset A) (ax_routing A) (clg_log_group_name req)
                         then forward_create (fw_create_log_group (ax_forward A) (clg_log_group_name req)) st1 else st1)
              in (st2, amz_json_ok (ax_ser_empty A) ())))"

definition create_log_stream ::
    "('s, 'dt, 'm, 'f) app_env \<Rightarrow> bytes \<Rightarrow> ('s, 'f) app_state \<Rightarrow> ('s, 'f) app_state \<times> (api_error + response)" where
  "create_log_stream A body st =
     (case parse_body (ax_de_stream A) body of
        Inl e \<Rightarrow> (st, Inl e)
      | Inr req \<Rightarrow>
         (case create_stream (as_now_ms st) (cls_log_group_name req) (cls_log_stream_name req) (as_registry st) of
            (reg, Inl StreamExists) \<Rightarrow> (st\<lparr>as_registry := reg\<rparr>, Inl (already_exists ''log stream''))
          | (reg, Inl GroupNotFound) \<Rightarrow> (st\<lparr>as_registry := reg\<rparr>, Inl (not_found ''log group''))
          | (reg, Inl e) \<Rightarrow> (st\<lparr>as_registry := reg\<rparr>, Inl (invalid_parameter (registry_error_to_string e)))
          | (reg, Inr _) \<Rightarrow>
              let st1 = st\<lparr>as_registry := reg\<rparr>;
                  st2 = (if to_cloudwatch (route (ax_globset A) (ax_routing A) (cls_log_group_name req) (cls_log_stream_name req))
                         then forward_create (fw_create_log_stream (ax_forward A) (cls_log_group_name req) (cls_log_stream_name req)) st1
                         else st1)
              in (st2, amz_json_ok (ax_ser_empty A) ())))"

text \<open>\<open>usize::MAX\<close> bounds the token.\<close>

definition paginate :: "'a list \<Rightarrow> int option \<Rightarrow> string option \<Rightarrow> api_error + 'a list \<times> string option" where
  "paginate items limit next_token =
     (case (case next_token of None \<Rightarrow> Some 0 | Some t \<Rightarrow> parse_unsigned u64_MAX t) of
        None \<Rightarrow> Inl (invalid_parameter ''invalid nextToken'')
      | Some start \<Rightarrow>
          let lim = nat (min 50 (max 1 (case limit of None \<Rightarrow> 50 | Some l \<Rightarrow> l)));
              page = take lim (drop start items);
              consumed = sat_u64 (start + length page)
          in Inr (page, if consumed < length items \<and> page \<noteq> [] then Some (show_nat consumed) else None))"

definition group_arn :: "string \<Rightarrow> string" where
  "group_arn name = ''arn:aws:logs:local:000000000000:log-group:'' @ name @ '':*''"

definition describe_log_groups ::
    "('s, 'dt, 'm, 'f) app_env \<Rightarrow> bytes \<Rightarrow> ('s, 'f) app_state \<Rightarrow> api_error + response" where
  "describe_log_groups A body st =
     (case (if body = [] then Inr describe_log_groups_request_default else parse_body (ax_de_groups A) body) of
        Inl e \<Rightarrow> Inl e
      | Inr req \<Rightarrow>
         (case paginate (describe_groups (dlg_log_group_name_prefix req) (as_registry st)) (dlg_limit req) (dlg_next_token req) of
            Inl e \<Rightarrow> Inl e
          | Inr (page, next) \<Rightarrow>
              amz_json_ok (ax_ser_groups A)
                \<lparr>dgr_log_groups = map (\<lambda>(name, t). \<lparr>lgs_log_group_name = name, lgs_creation_time = t, lgs_arn = group_arn name\<rparr>) page,
                 dgr_next_token = next\<rparr>))"

definition describe_log_streams ::
    "('s, 'dt, 'm, 'f) app_env \<Rightarrow> bytes \<Rightarrow> ('s, 'f) app_state \<Rightarrow> api_error + response" where
  "describe_log_streams A body st =
     (case parse_body (ax_de_streams A) body of
        Inl e \<Rightarrow> Inl e
      | Inr req \<Rightarrow>
         (case (case dls_log_group_name req of Some g \<Rightarrow> Some g | None \<Rightarrow> dls_log_group_identifier req) of
            None \<Rightarrow> Inl (invalid_parameter ''logGroupName or logGroupIdentifier is required'')
          | Some g \<Rightarrow>
             (case describe_streams g (dls_log_stream_name_prefix req) (as_registry st) of
                Inl _ \<Rightarrow> Inl (not_found ''log group'')
              | Inr streams \<Rightarrow>
                 (case paginate streams (dls_limit req) (dls_next_token req) of
                    Inl e \<Rightarrow> Inl e
                  | Inr (page, next) \<Rightarrow>
                      amz_json_ok (ax_ser_streams A)
                        \<lparr>dsr_log_streams = map (\<lambda>(name, t). \<lparr>lss_log_stream_name = name, lss_creation_time = t\<rparr>) page,
                         dsr_next_token = next\<rparr>))))"

definition dispatch ::
    "('s, 'dt, 'm, 'f) app_env \<Rightarrow> request_view \<Rightarrow> ('s, 'f) app_state \<Rightarrow> ('s, 'f) app_state \<times> response" where
  "dispatch A req st =
     (case header_get (ax_crypto A) req ''x-amz-target'' of
        None \<Rightarrow> (st, error_response (ax_ser_error A) missing_action)
      | Some target \<Rightarrow>
         (case strip_prefix TARGET_PREFIX target of
            None \<Rightarrow> (st, error_response (ax_ser_error A) (invalid_action target))
          | Some action \<Rightarrow>
             (case (if action = ''PutLogEvents'' then put_log_events A (rv_body req) st
                    else if action = ''CreateLogGroup'' then create_log_group A (rv_body req) st
                    else if action = ''CreateLogStream'' then create_log_stream A (rv_body req) st
                    else if action = ''DescribeLogGroups'' then (st, describe_log_groups A (rv_body req) st)
                    else if action = ''DescribeLogStreams'' then (st, describe_log_streams A (rv_body req) st)
                    else (st, Inl (invalid_action target))) of
                (st', Inl e) \<Rightarrow> (st', error_response (ax_ser_error A) e)
              | (st', Inr resp) \<Rightarrow> (st', resp))))"

text \<open>
  The authentication layer around the API route. \<open>read_err\<close> is the text of the framework's error for a
  body over the limit, \<open>now\<close> the time of the request in nanoseconds.
\<close>

definition auth_middleware ::
    "('s, 'dt, 'm, 'f) app_env \<Rightarrow> string \<Rightarrow> int \<Rightarrow> request_view \<Rightarrow> ('s, 'f) app_state \<Rightarrow> ('s, 'f) app_state \<times> response" where
  "auth_middleware A read_err now req st =
     (case ax_auth A of
        AuthNone \<Rightarrow> dispatch A req st
      | SigV4 access_key secret_key \<Rightarrow>
          if length (rv_body req) > MAX_REQUEST_BODY_BYTES
          then (st, error_response (ax_ser_error A)
                 (api_error_new PAYLOAD_TOO_LARGE ''RequestEntityTooLargeException''
                    (''request body exceeds '' @ show_nat MAX_REQUEST_BODY_BYTES @ '' bytes or read failed: '' @ read_err)))
          else case verify (ax_crypto A) access_key secret_key req now of
              Inr _ \<Rightarrow> dispatch A req st
            | Inl MissingToken \<Rightarrow> (st, error_response (ax_ser_error A) missing_auth_token)
            | Inl (Invalid reason) \<Rightarrow>
                (st, error_response (ax_ser_error A)
                   (invalid_signature (''The request signature we calculated does not match: '' @ reason))))"

definition ready_endpoint :: "('s, 'dt, 'm, 'f) app_env \<Rightarrow> ('s, 'f) app_state \<Rightarrow> ('s, 'f) app_state \<times> response" where
  "ready_endpoint A st =
     (case bm_ready (ax_buffer_env A) (as_buffers st) of
        (bm, ok) \<Rightarrow>
          (st\<lparr>as_buffers := bm\<rparr>,
           if ok then \<lparr>rs_status = OK, rs_content_type = None, rs_body = ''ready''\<rparr>
           else \<lparr>rs_status = SERVICE_UNAVAILABLE, rs_content_type = None, rs_body = ''not ready''\<rparr>))"

definition metrics_endpoint :: "('s, 'dt, 'm, 'f) app_env \<Rightarrow> string" where
  "metrics_endpoint A = (case ax_metrics A of None \<Rightarrow> [] | Some s \<Rightarrow> s)"

text \<open>
  The routes. \<open>None\<close> is an answer of the framework itself: an unknown route or method, or on the
  unauthenticated path a body over the limit of the extractor.
\<close>

definition build_app ::
    "('s, 'dt, 'm, 'f) app_env \<Rightarrow> string \<Rightarrow> int \<Rightarrow> request_view \<Rightarrow> ('s, 'f) app_state
     \<Rightarrow> (('s, 'f) app_state \<times> response) option" where
  "build_app A read_err now req st =
     (if rv_path req = ''/'' \<and> rv_method req = ''POST''
      then if ax_auth A = AuthNone \<and> length (rv_body req) > MAX_REQUEST_BODY_BYTES then None
           else Some (auth_middleware A read_err now req st)
      else if rv_method req \<noteq> ''GET'' then None
      else if rv_path req = ''/health'' then Some (st, \<lparr>rs_status = OK, rs_content_type = None, rs_body = ''ok''\<rparr>)
      else if rv_path req = ''/ready'' then Some (ready_endpoint A st)
      else if rv_path req = ''/metrics'' then Some (st, \<lparr>rs_status = OK, rs_content_type = None, rs_body = metrics_endpoint A\<rparr>)
      else None)"

section \<open>The server\<close>

datatype gateway_error = GIo string | GFlush buffer_error | GWalReplay buffer_error

record 'm gateway_config =
  gc_account :: string
  gc_routing :: "'m routing_config"
  gc_flush_bytes :: nat
  gc_flush_interval :: nat
  gc_chunk :: chunk_config
  gc_wal_dir :: "string option"
  gc_auth :: auth_mode
  gc_max_buffered_bytes :: nat

definition gateway_config_default :: "'m gateway_config" where
  "gateway_config_default =
     (let b = buffer_config_default in
      \<lparr>gc_account = bc_account b, gc_routing = routing_config_default, gc_flush_bytes = bc_flush_bytes b,
       gc_flush_interval = bc_flush_interval b, gc_chunk = bc_chunk b, gc_wal_dir = bc_wal_dir b, gc_auth = AuthNone,
       gc_max_buffered_bytes = bc_max_buffered_bytes b\<rparr>)"

text \<open>\<^verbatim>\<open>Gateway::new\<close>: the configuration handed to the buffer manager and to the handlers.\<close>

definition gateway_buffer_config :: "'m gateway_config \<Rightarrow> buffer_config" where
  "gateway_buffer_config c = \<lparr>bc_account = gc_account c, bc_flush_bytes = gc_flush_bytes c,
     bc_flush_interval = gc_flush_interval c, bc_chunk = gc_chunk c, bc_wal_dir = gc_wal_dir c,
     bc_max_buffered_bytes = gc_max_buffered_bytes c\<rparr>"

definition gateway_new ::
    "'m gateway_config \<Rightarrow> string option \<Rightarrow> ('s, 'dt, 'm, 'f) app_env \<Rightarrow> ('s, 'dt, 'm, 'f) app_env" where
  "gateway_new c metrics A = A\<lparr>ax_routing := gc_routing c, ax_buffer_config := gateway_buffer_config c,
     ax_auth := gc_auth c, ax_metrics := metrics\<rparr>"

text \<open>Durations of nanoseconds.\<close>

definition sweep_period :: "nat \<Rightarrow> nat" where
  "sweep_period flush_interval = min (10 ^ 9) (max (10 ^ 8) (flush_interval div 4))"

text \<open>The sweeper: one sweep per tick, at the time of the tick, until it is stopped between two of them.\<close>

fun sweep_loop :: "('s, 'dt) buffer_env \<Rightarrow> buffer_config \<Rightarrow> nat list \<Rightarrow> 's buffer_manager \<Rightarrow> 's buffer_manager" where
  "sweep_loop G c [] bm = bm"
| "sweep_loop G c (t # ts) bm = sweep_loop G c ts (sweep_expired G c (bm\<lparr>bm_now := t\<rparr>))"

text \<open>
  The life of the server: replay, then the serving phase with the sweeper beside it, then the final
  flush. The phase is the framework's, so it is an argument.
\<close>

definition serve_listener ::
    "('s, 'dt) buffer_env \<Rightarrow> buffer_config \<Rightarrow> ('s buffer_manager \<Rightarrow> 's buffer_manager \<times> (string + unit)) \<Rightarrow> 's buffer_manager
     \<Rightarrow> 's buffer_manager \<times> (gateway_error + unit)" where
  "serve_listener G c serve bm =
     (case replay_wal G c bm of
        (bm1, Inl e) \<Rightarrow> (bm1, Inl (GWalReplay e))
      | (bm1, Inr _) \<Rightarrow>
         (case serve bm1 of
            (bm2, served) \<Rightarrow>
             (case flush_all G c bm2 of
                (bm3, flushed) \<Rightarrow>
                  (bm3, case served of Inl e \<Rightarrow> Inl (GIo e) | Inr _ \<Rightarrow> map_err GFlush flushed))))"


section \<open>Pages\<close>

text \<open>A client that follows the tokens, with a bound on its requests.\<close>

fun walk_pages :: "nat \<Rightarrow> 'a list \<Rightarrow> int option \<Rightarrow> string option \<Rightarrow> 'a list option" where
  "walk_pages 0 items limit tok = None"
| "walk_pages (Suc n) items limit tok =
     (case paginate items limit tok of
        Inl _ \<Rightarrow> None
      | Inr (page, None) \<Rightarrow> Some page
      | Inr (page, Some t) \<Rightarrow> map_option (\<lambda>rest. page @ rest) (walk_pages n items limit (Some t)))"

lemma walk_pages_from:
  assumes "length items \<le> u64_MAX" and "start \<le> length items" and "length items - start < n"
    and "(case tok of None \<Rightarrow> Some 0 | Some t \<Rightarrow> parse_unsigned u64_MAX t) = Some start"
  shows "walk_pages n items limit tok = Some (drop start items)"
  using assms(2-4)
proof (induction n arbitrary: start tok)
  case (Suc n)
  define lim where "lim = nat (min 50 (max 1 (case limit of None \<Rightarrow> 50 | Some l \<Rightarrow> l)))"
  have lim: "1 \<le> lim" by (simp add: lim_def)
  let ?page = "take lim (drop start items)"
  have len: "start + length ?page \<le> length items" using Suc.prems(1) by simp
  then have sat: "sat_u64 (start + length ?page) = start + length ?page" using assms(1) by (simp add: sat_u64_def)
  have p: "paginate items limit tok = Inr (?page, if start + length ?page < length items \<and> ?page \<noteq> [] then Some (show_nat (start + length ?page)) else None)"
    unfolding paginate_def Suc.prems(3) option.case Let_def lim_def [symmetric] sat ..
  show ?case
  proof (cases "start + length ?page < length items \<and> ?page \<noteq> []")
    case True
    then have "0 < length ?page" by blast
    have "walk_pages n items limit (Some (show_nat (start + length ?page))) = Some (drop (start + length ?page) items)"
    proof (rule Suc.IH)
      show "length items - (start + length ?page) < n" using Suc.prems(2) True \<open>0 < length ?page\<close> by linarith
    qed (use len assms(1) in \<open>simp_all add: parse_unsigned_show_nat\<close>)
    moreover have "?page @ drop (start + length ?page) items = drop start items"
      using append_take_drop_id [of lim "drop start items"] True by (simp add: add.commute min_def split: if_splits)
    ultimately show ?thesis using p True by simp
  next
    case False
    have "start + length ?page = length items \<or> ?page = []" using False len by linarith
    then have "?page = drop start items" using lim by (auto simp: min_def split: if_splits)
    then show ?thesis using p False by simp
  qed
qed simp

text \<open>
  C29: paging ends and is complete. A client that starts without a token and follows \<^verbatim>\<open>nextToken\<close> gets,
  after at most one request per entry and one more, every entry once and in order, whatever limit it
  asks for; no page has more than fifty entries, and a token that is not a number is refused.
\<close>

theorem pagination_complete:
  assumes "length items \<le> u64_MAX"
  shows "walk_pages (length items + 1) items limit None = Some items
    \<and> (\<forall>tok. case paginate items limit tok of
          Inr (page, _) \<Rightarrow> length page \<le> 50
        | Inl e \<Rightarrow> e = invalid_parameter ''invalid nextToken'' \<and> (\<exists>t. tok = Some t \<and> parse_unsigned u64_MAX t = None))"
proof -
  have "walk_pages (length items + 1) items limit None = Some items"
    using walk_pages_from [OF assms, of 0 "length items + 1" None limit] by simp
  moreover have "case paginate items limit tok of Inr (page, _) \<Rightarrow> length page \<le> 50
      | Inl e \<Rightarrow> e = invalid_parameter ''invalid nextToken'' \<and> (\<exists>t. tok = Some t \<and> parse_unsigned u64_MAX t = None)" for tok
    by (auto simp: paginate_def Let_def split: option.splits)
  ultimately show ?thesis by blast
qed

theorem pagination_complete_witness:
  "paginate [1 :: nat, 2, 3] (Some 2) None = Inr ([1, 2], Some ''2'') \<and> walk_pages 4 [1 :: nat, 2, 3] (Some 2) None = Some [1, 2, 3]"
proof -
  have "walk_pages 4 [1 :: nat, 2, 3] (Some 2) None = Some [1, 2, 3]"
  proof -
    have "length [1 :: nat, 2, 3] \<le> u64_MAX" by (simp add: u64_MAX_def)
    from conjunct1 [OF pagination_complete [OF this, of "Some 2"]] show ?thesis by (simp add: eval_nat_numeral del: walk_pages.simps)
  qed
  moreover have sat: "sat_u64 (Suc (Suc 0)) = Suc (Suc 0)"
    by (simp add: sat_u64_def u64_MAX_def)
  have show2: "show_nat (Suc (Suc 0)) = ''2''" by code_simp
  have "paginate [1 :: nat, 2, 3] (Some 2) None = Inr ([1, 2], Some ''2'')"
    using sat show2 by (simp add: paginate_def Let_def numeral_2_eq_2 del: show_nat.simps)
  ultimately show ?thesis by simp
qed

section \<open>What an answer promises\<close>

text \<open>The records a request hands to the buffers, none when it is not routed to S3.\<close>

definition put_records :: "('s, 'dt, 'm, 'f) app_env \<Rightarrow> bytes \<Rightarrow> (string \<times> log_record) list" where
  "put_records A body =
     (case ax_de_put A body of
        Inl _ \<Rightarrow> []
      | Inr req \<Rightarrow>
          if to_s3 (route (ax_globset A) (ax_routing A) (ple_log_group_name req) (ple_log_stream_name req))
          then map (\<lambda>ev. (ple_log_group_name req, record_of_input (ple_log_stream_name req) ev)) (ple_log_events req)
          else [])"

lemma put_buffer_other:
  "put_buffer A action req st = (st', r) \<Longrightarrow> as_forward st' = as_forward st \<and> as_passthrough_errors st' = as_passthrough_errors st"
  by (auto simp: put_buffer_def split: prod.splits if_splits)

lemma put_forward_buffers: "put_forward A action req st = (st', r) \<Longrightarrow> as_buffers st' = as_buffers st"
  by (auto simp: put_forward_def split: prod.splits sum.splits if_splits)

lemma put_log_events_cases:
  assumes "put_log_events A body st = (st', res)" and "ax_de_put A body = Inr req"
  obtains st1 st2 r where
    "as_buffers st1 = as_buffers st" "as_forward st1 = as_forward st" "as_passthrough_errors st1 = as_passthrough_errors st"
    "put_buffer A (route (ax_globset A) (ax_routing A) (ple_log_group_name req) (ple_log_stream_name req)) req st1 = (st2, r)"
    "case r of Inl e \<Rightarrow> st' = st2 \<and> res = Inl e
     | Inr _ \<Rightarrow> \<exists>q. put_forward A (route (ax_globset A) (ax_routing A) (ple_log_group_name req) (ple_log_stream_name req)) req st2 = (st', q)
          \<and> res = (case q of Inl e \<Rightarrow> Inl e | Inr _ \<Rightarrow> amz_json_ok (ax_ser_empty A) ())"
proof -
  let ?a = "route (ax_globset A) (ax_routing A) (ple_log_group_name req) (ple_log_stream_name req)"
  let ?st1 = "st\<lparr>as_events_total := (as_events_total st)(route_action_as_str ?a := as_events_total st (route_action_as_str ?a) + length (ple_log_events req)),
     as_registry := touch (as_now_ms st) (ple_log_group_name req) (ple_log_stream_name req) (as_registry st)\<rparr>"
  obtain st2 r where s: "put_buffer A ?a req ?st1 = (st2, r)" by (cases "put_buffer A ?a req ?st1")
  obtain st3 q where f: "put_forward A ?a req st2 = (st3, q)" by (cases "put_forward A ?a req st2")
  show thesis
    by (rule that [of ?st1 st2 r]) (use assms s f in \<open>auto simp: put_log_events_def parse_body_def Let_def split: sum.splits\<close>)
qed

lemma put_log_events_run:
  assumes p: "put_log_events A body st = (st', res)" and N: "\<forall>n. fresh_suffix (ax_buffer_env A) n"
    and okr: "\<forall>(g, r) \<in> set (put_records A body). okr g r"
  shows "\<exists>acc. gw_run (ax_buffer_env A) (ax_buffer_config A) okr (as_buffers st, [], ak) (as_buffers st', [], ak @ acc)
    \<and> (is_ok res \<longrightarrow> acc = put_records A body)"
proof (cases "ax_de_put A body")
  case (Inl e)
  then show ?thesis using p by (auto simp: put_log_events_def parse_body_def intro!: exI [of _ "[]"])
next
  case (Inr req)
  let ?a = "route (ax_globset A) (ax_routing A) (ple_log_group_name req) (ple_log_stream_name req)"
  from put_log_events_cases [OF p Inr] obtain st1 st2 r where st1: "as_buffers st1 = as_buffers st"
    and b: "put_buffer A ?a req st1 = (st2, r)"
    and f: "case r of Inl e \<Rightarrow> st' = st2 \<and> res = Inl e
     | Inr _ \<Rightarrow> \<exists>q. put_forward A ?a req st2 = (st', q) \<and> res = (case q of Inl e \<Rightarrow> Inl e | Inr _ \<Rightarrow> amz_json_ok (ax_ser_empty A) ())" .
  have e: "as_buffers st' = as_buffers st2" using f put_forward_buffers [of A ?a req st2 st'] by (cases r) auto
  have k: "is_ok res \<longrightarrow> is_ok r" using f by (auto split: sum.splits)
  show ?thesis
  proof (cases "to_s3 ?a")
    case False
    then have "as_buffers st2 = as_buffers st" using b st1 by (auto simp: put_buffer_def)
    then show ?thesis using False e by (auto simp: put_records_def Inr intro!: exI [of _ "[]"])
  next
    case True
    let ?evs = "ple_log_events req"
    obtain bm q where pe: "push_events (ax_buffer_env A) (ax_buffer_config A) (ple_log_group_name req) (ple_log_stream_name req) ?evs (as_buffers st) = (bm, q)"
      by (cases "push_events (ax_buffer_env A) (ax_buffer_config A) (ple_log_group_name req) (ple_log_stream_name req) ?evs (as_buffers st)")
    then have b2: "as_buffers st2 = bm" "is_ok r = is_ok q" using b st1 True by (cases q; auto simp: put_buffer_def)+
    have pr: "put_records A body = map (\<lambda>ev. (ple_log_group_name req, record_of_input (ple_log_stream_name req) ev)) ?evs"
      using True by (simp add: put_records_def Inr)
    have "\<forall>ev \<in> set ?evs. okr (ple_log_group_name req) (record_of_input (ple_log_stream_name req) ev)" using okr by (simp add: pr)
    from push_events_run [OF pe, of "bm_rng bm" okr ak] N this
    show ?thesis using e b2 k pr by (intro exI [of _ "if is_ok q then put_records A body else []"]) auto
  qed
qed

text \<open>A sequence of requests with their answers.\<close>

fun serve_puts ::
    "('s, 'dt, 'm, 'f) app_env \<Rightarrow> bytes list \<Rightarrow> ('s, 'f) app_state \<Rightarrow> ('s, 'f) app_state \<times> (bytes \<times> (api_error + response)) list" where
  "serve_puts A [] st = (st, [])"
| "serve_puts A (b # bs) st =
     (case put_log_events A b st of (st1, r) \<Rightarrow> (case serve_puts A bs st1 of (st2, rs) \<Rightarrow> (st2, (b, r) # rs)))"

lemma serve_puts_run:
  assumes "serve_puts A bs st = (st', rs)" and "\<forall>n. fresh_suffix (ax_buffer_env A) n"
    and "\<forall>b \<in> set bs. \<forall>(g, r) \<in> set (put_records A b). okr g r"
  shows "\<exists>acc. gw_run (ax_buffer_env A) (ax_buffer_config A) okr (as_buffers st, [], ak) (as_buffers st', [], ak @ acc)
    \<and> (\<forall>(b, res) \<in> set rs. is_ok res \<longrightarrow> set (put_records A b) \<subseteq> set acc)"
  using assms(1,3)
proof (induction bs arbitrary: st ak rs)
  case Nil
  then show ?case by (auto intro!: exI [of _ "[]"])
next
  case (Cons b bs)
  obtain st1 r where s1: "put_log_events A b st = (st1, r)" by (cases "put_log_events A b st")
  obtain st2 rs2 where s2: "serve_puts A bs st1 = (st2, rs2)" by (cases "serve_puts A bs st1")
  have e: "st' = st2" "rs = (b, r) # rs2" using Cons.prems(1) s1 s2 by auto
  from put_log_events_run [OF s1 assms(2), of okr ak] Cons.prems(2) obtain a1 where
    1: "gw_run (ax_buffer_env A) (ax_buffer_config A) okr (as_buffers st, [], ak) (as_buffers st1, [], ak @ a1)"
    "is_ok r \<longrightarrow> a1 = put_records A b" by auto
  from Cons.IH [OF s2 [folded e(1)], of "ak @ a1"] Cons.prems(2) obtain a2 where
    2: "gw_run (ax_buffer_env A) (ax_buffer_config A) okr (as_buffers st1, [], ak @ a1) (as_buffers st', [], (ak @ a1) @ a2)"
    "\<forall>(b, res) \<in> set rs2. is_ok res \<longrightarrow> set (put_records A b) \<subseteq> set a2" by auto
  have "gw_run (ax_buffer_env A) (ax_buffer_config A) okr (as_buffers st, [], ak) (as_buffers st', [], ak @ a1 @ a2)"
    using rtranclp_trans [OF 1(1) 2(1)] by simp
  then show ?case using 1(2) 2(2) e by (intro exI [of _ "a1 @ a2"]) auto
qed

text \<open>Concrete collaborators, for evaluation.\<close>

definition one_app :: "((string \<rightharpoonup> bytes), unit, unit, unit) app_env" where
  "one_app = \<lparr>ax_globset = \<lparr>glob_new = (\<lambda>_. Inr ()), glob_is_match = (\<lambda>_ _. True)\<rparr>, ax_routing = routing_config_default,
     ax_buffer_env = one_env, ax_buffer_config = one_cfg, ax_forward = noop_cw_forward, ax_auth = AuthNone, ax_crypto = toy_crypto [],
     ax_metrics = None,
     ax_de_put = (\<lambda>_. Inr \<lparr>ple_log_group_name = ''g'', ple_log_stream_name = ''s'', ple_log_events = [one_event], ple_sequence_token = None\<rparr>),
     ax_de_group = (\<lambda>_. Inl ''x''), ax_de_stream = (\<lambda>_. Inl ''x''), ax_de_groups = (\<lambda>_. Inl ''x''), ax_de_streams = (\<lambda>_. Inl ''x''),
     ax_ser_empty = (\<lambda>_. Inr ''e''), ax_ser_groups = (\<lambda>_. Inl ''x''), ax_ser_streams = (\<lambda>_. Inl ''x''), ax_ser_error = (\<lambda>_. Inl ''x'')\<rparr>"

definition one_state :: "((string \<rightharpoonup> bytes), unit) app_state" where
  "one_state = \<lparr>as_buffers = bm_new Map.empty one_fs, as_registry = [], as_forward = (), as_now_ms = 7,
     as_events_total = (\<lambda>_. 0), as_passthrough_errors = 0\<rparr>"

lemma one_app_route: "route (ax_globset one_app) (ax_routing one_app) lg strm = S3"
  by (simp add: one_app_def route_def routing_config_default_def)

lemma one_app_fields:
  "ax_buffer_env one_app = one_env" "ax_buffer_config one_app = one_cfg"
  "ax_de_put one_app b = Inr \<lparr>ple_log_group_name = ''g'', ple_log_stream_name = ''s'', ple_log_events = [one_event], ple_sequence_token = None\<rparr>"
  "ax_ser_empty one_app () = Inr ''e''"
  by (simp_all add: one_app_def)

lemma one_records: "put_records one_app b = [(''g'', sample_record 5)]"
  by (simp add: put_records_def one_app_fields one_app_route one_record)

lemma one_put: "\<exists>st' resp. put_log_events one_app b one_state = (st', Inr resp)"
proof -
  obtain bm where "push_events one_env one_cfg ''g'' ''s'' [one_event] (bm_new Map.empty one_fs) = (bm, Inr ())"
    using one_pushed by blast
  then show ?thesis
    by (simp add: put_log_events_def parse_body_def one_app_fields one_app_route put_buffer_def put_forward_def one_state_def amz_json_ok_def Let_def)
qed





end
