(* ===== verification/S4_Commands.thy ===== *)
theory S4_Commands
  imports S4_Reconcile S4_Retention S4_Restore S4_Timearg S4_Handlers
begin

text \<open>
  The subcommands that move data (\<^verbatim>\<open>s4logs-cli/src/commands\<close>): \<^verbatim>\<open>drain\<close> with its repair mode and retention
  pass, \<^verbatim>\<open>grep\<close>, \<^verbatim>\<open>restore\<close> and \<^verbatim>\<open>serve\<close>, and the exit code. Printed reports are left out; what is written,
  sent or changed is kept.
\<close>

section \<open>Arguments\<close>

datatype usage_error =
    RangeOrder int int
  | NoSelector
  | BadSelector discover_error
  | NoMatch
  | NoBucket
  | NoAccount
  | RawNeedsGroup
  | NoTarget
  | BadRegex string
  | AuthNeedsKeys

datatype command_error =
    Usage usage_error
  | Discovering discover_error
  | RetentionGate string drain_error
  | GroupsFailed "string list"
  | Scanning scan_error
  | Restoring restore_error
  | Writing string
  | ReadConfig string string
  | ParseConfig string routing_error
  | Serving gateway_error
  | ListingManifests string manifest_error
  | ReadingManifest string manifest_error
  | GetMetricData string

record global_args =
  ga_bucket :: "string option"
  ga_prefix :: string
  ga_account :: "string option"

definition require_bucket :: "global_args \<Rightarrow> command_error + string" where
  "require_bucket g = (case ga_bucket g of None \<Rightarrow> Inl (Usage NoBucket) | Some b \<Rightarrow> Inr b)"

definition require_account :: "global_args \<Rightarrow> command_error + string" where
  "require_account g = (case ga_account g of None \<Rightarrow> Inl (Usage NoAccount) | Some a \<Rightarrow> Inr a)"

datatype storage_class_arg = Standard | StandardIa | GlacierIr

fun storage_class_to_sdk :: "storage_class_arg \<Rightarrow> string" where
  "storage_class_to_sdk Standard = ''STANDARD''"
| "storage_class_to_sdk StandardIa = ''STANDARD_IA''"
| "storage_class_to_sdk GlacierIr = ''GLACIER_IR''"

definition cli_selector :: "'m globset \<Rightarrow> string option \<Rightarrow> bool \<Rightarrow> command_error + 'm group_selector" where
  "cli_selector G lg all =
     (if all then Inr All
      else case lg of
        None \<Rightarrow> Inl (Usage NoSelector)
      | Some pattern \<Rightarrow> map_err (\<lambda>e. Usage (BadSelector e)) (selector_parse G pattern))"

text \<open>\<^verbatim>\<open>resolve_source_groups\<close>: an exact name is taken as it is, without a call.\<close>

definition resolve_source_groups ::
    "'m globset \<Rightarrow> 'c cw_source \<Rightarrow> string option \<Rightarrow> bool \<Rightarrow> command_error + string list" where
  "resolve_source_groups G cw lg all =
     (case cli_selector G lg all of
        Inl e \<Rightarrow> Inl e
      | Inr (Exact nm) \<Rightarrow> Inr [nm]
      | Inr sel \<Rightarrow>
         (case discover_log_groups G cw sel of
            Inl e \<Rightarrow> Inl (Discovering e)
          | Inr groups \<Rightarrow> if groups = [] then Inl (Usage NoMatch) else Inr (map fst groups)))"

section \<open>drain\<close>

record drain_args =
  da_log_group :: "string option"
  da_all :: bool
  da_group_concurrency :: nat
  da_from :: "int option"
  da_to :: "int option"
  da_window :: int
  da_chunk_target :: nat
  da_concurrency :: nat
  da_dry_run :: bool
  da_shard_streams :: nat
  da_progress :: bool
  da_reconcile :: bool
  da_retention_days :: "int option"
  da_apply_retention :: bool
  da_storage_class :: "storage_class_arg option"

definition base_options :: "string \<Rightarrow> drain_args \<Rightarrow> drain_options" where
  "base_options acct a = (drain_options_new acct [])\<lparr>o_from_ms := da_from a, o_to_ms := da_to a, o_window_ms := da_window a,
     o_chunk_target_bytes := da_chunk_target a, o_concurrency := da_concurrency a, o_dry_run := da_dry_run a,
     o_shard_streams := max (da_shard_streams a) 1, o_progress := da_progress a\<rparr>"

text \<open>Repair mode: the groups one after the other, a failed one is recorded and skipped.\<close>

fun reconcile_groups ::
    "('s, 'c, 'dt) drain_env \<Rightarrow> 's chunk_reader \<Rightarrow> (window list \<Rightarrow> window list) \<Rightarrow> drain_options
     \<Rightarrow> (string \<times> log_group_info) list \<Rightarrow> 's drain_state \<Rightarrow> ('s drain_state \<times> (string \<times> bool) list) option" where
  "reconcile_groups D rd order base [] st = Some (st, [])"
| "reconcile_groups D rd order base ((nm, info) # gs) st =
     (case reconcile_run D rd order (base\<lparr>o_log_group := nm\<rparr>) st of
        None \<Rightarrow> None
      | Some (st', res) \<Rightarrow>
          map_option (\<lambda>(st'', outs). (st'', (nm, is_ok res) # outs)) (reconcile_groups D rd order base gs st'))"

definition drain_outcomes ::
    "('s, 'c, 'dt) drain_env \<Rightarrow> 's chunk_reader \<Rightarrow> (window list \<Rightarrow> window list)
     \<Rightarrow> ((string \<times> log_group_info) list \<Rightarrow> (string \<times> log_group_info) list) \<Rightarrow> drain_args \<Rightarrow> drain_options
     \<Rightarrow> (string \<times> log_group_info) list \<Rightarrow> 's drain_state \<Rightarrow> ('s drain_state \<times> (string \<times> bool) list) option" where
  "drain_outcomes D rd order gorder a base groups st =
     (if da_reconcile a then reconcile_groups D rd order base groups st
      else map_option (\<lambda>(st', multi). (st', map (\<lambda>g. (gd_log_group g, is_ok (gd_result g))) multi))
             (drain_groups D order gorder base groups st))"

text \<open>The retention pass; \<open>clock\<close> is the time read when a group is reached.\<close>

fun retention_pass ::
    "('s, 'c, 'dt) drain_env \<Rightarrow> string \<Rightarrow> string \<Rightarrow> int \<Rightarrow> int \<Rightarrow> bool \<Rightarrow> (string \<Rightarrow> int) \<Rightarrow> (string \<rightharpoonup> log_group_info)
     \<Rightarrow> (string \<times> bool) list \<Rightarrow> 's \<Rightarrow> 'c \<Rightarrow> ('c \<times> (command_error + unit)) option" where
  "retention_pass D kp acct days window_ms apply_it clock infos [] s c = Some (c, Inr ())"
| "retention_pass D kp acct days window_ms apply_it clock infos ((nm, ok) # outs) s c =
     (if \<not> ok then retention_pass D kp acct days window_ms apply_it clock infos outs s c
      else case infos nm of
        None \<Rightarrow> retention_pass D kp acct days window_ms apply_it clock infos outs s c
      | Some info \<Rightarrow>
         (case enforce_retention (d_mjson D) (d_cw D) (d_manifests D) kp
                 \<lparr>rq_account = acct, rq_log_group = nm, rq_retention_days = days,
                  rq_coverage_from_ms = lg_creation_time_ms info, rq_now_ms = clock nm, rq_window_ms = window_ms\<rparr>
                 apply_it s c of
            None \<Rightarrow> None
          | Some (c', Inl e) \<Rightarrow> Some (c', Inl (RetentionGate nm e))
          | Some (c', Inr _) \<Rightarrow> retention_pass D kp acct days window_ms apply_it clock infos outs s c'))"

text \<open>
  \<^verbatim>\<open>commands::drain::run\<close>: \<open>env\<close> gives the job's environment over the object store that is built from the
  arguments, and the repair mode reads chunks with \<open>rd\<close>. The group concurrency shows only in the completion
  order \<open>gorder\<close>.
\<close>

definition drain_command ::
    "'m globset \<Rightarrow> (object_store \<Rightarrow> ('s, 'c, 'dt) drain_env) \<Rightarrow> (object_store \<Rightarrow> 's chunk_reader) \<Rightarrow> (window list \<Rightarrow> window list)
     \<Rightarrow> ((string \<times> log_group_info) list \<Rightarrow> (string \<times> log_group_info) list) \<Rightarrow> (string \<Rightarrow> int)
     \<Rightarrow> global_args \<Rightarrow> drain_args \<Rightarrow> 's drain_state \<Rightarrow> 'c
     \<Rightarrow> ('s drain_state \<times> 'c \<times> (command_error + unit)) option" where
  "drain_command G env rd order gorder clock g a st c =
     (if (case (da_from a, da_to a) of (Some f, Some t) \<Rightarrow> f \<ge> t | _ \<Rightarrow> False)
      then Some (st, c, Inl (Usage (RangeOrder (the (da_from a)) (the (da_to a)))))
      else case cli_selector G (da_log_group a) (da_all a) of
        Inl e \<Rightarrow> Some (st, c, Inl e)
      | Inr sel \<Rightarrow>
         (case require_bucket g of
            Inl e \<Rightarrow> Some (st, c, Inl e)
          | Inr bucket \<Rightarrow>
             (case require_account g of
                Inl e \<Rightarrow> Some (st, c, Inl e)
              | Inr acct \<Rightarrow>
                 let store = with_storage_class (map_option storage_class_to_sdk (da_storage_class a)) (os_new bucket (ga_prefix g));
                     D = env store in
                 (case discover_log_groups G (d_cw D) sel of
                    Inl e \<Rightarrow> Some (st, c, Inl (Discovering e))
                  | Inr groups \<Rightarrow>
                     if groups = [] then Some (st, c, Inl (Usage NoMatch))
                     else
                       let base = base_options acct a in
                       (case drain_outcomes D (rd store) order gorder a base groups st of
                          None \<Rightarrow> None
                        | Some (st', outs) \<Rightarrow>
                           (case (case da_retention_days a of
                                    None \<Rightarrow> Some (c, Inr ())
                                  | Some days \<Rightarrow>
                                      retention_pass D (ga_prefix g) acct days (o_window_ms base)
                                        (da_apply_retention a \<and> \<not> da_dry_run a) clock (map_of groups) outs (ds_store st') c) of
                              None \<Rightarrow> None
                            | Some (c', Inl e) \<Rightarrow> Some (st', c', Inl e)
                            | Some (c', Inr _) \<Rightarrow>
                                let failed = map fst (filter (\<lambda>(_, ok). \<not> ok) outs) in
                                Some (st', c', if failed \<noteq> [] then Inl (GroupsFailed failed) else Inr ())))))))"

section \<open>grep and restore\<close>

datatype grep_output = GrepText | GrepJsonl

record grep_args =
  gr_log_group :: "string option"
  gr_all :: bool
  gr_from :: int
  gr_to :: int
  gr_pattern :: string
  gr_output :: grep_output

text \<open>A buffered writer: bytes taken or an error, and the final flush.\<close>

record 'w writer =
  w_write :: "bytes \<Rightarrow> 'w \<Rightarrow> 'w \<times> (string + unit)"
  w_flush :: "'w \<Rightarrow> 'w \<times> (string + unit)"

definition grep_line ::
    "chunk_env \<Rightarrow> (int \<Rightarrow> string option) \<Rightarrow> 'w writer \<Rightarrow> grep_output \<Rightarrow> log_record \<Rightarrow> string \<Rightarrow> 'w \<Rightarrow> 'w \<times> (scan_error + unit)" where
  "grep_line E rfc W out r _ w =
     (case out of
        GrepText \<Rightarrow>
          (case w_write W (as_bytes (fmt_ts rfc (timestamp r) @ '' '' @ stream r @ '' '' @ message r) @ [NL]) w of
             (w', res) \<Rightarrow> (w', map_err ScEmit res))
      | GrepJsonl \<Rightarrow>
          (case to_json (json E) r of
             Inl e \<Rightarrow> (w, Inl (ScEmit e))
           | Inr b \<Rightarrow>
              (case w_write W b w of
                 (w1, Inl e) \<Rightarrow> (w1, Inl (ScEmit e))
               | (w1, Inr _) \<Rightarrow> (case w_write W [NL] w1 of (w2, res) \<Rightarrow> (w2, map_err ScEmit res)))))"

definition flush_after ::
    "'w writer \<Rightarrow> 'w \<times> (scan_error + scan_stats) \<Rightarrow> 'w \<times> (command_error + scan_stats)" where
  "flush_after W r =
     (case r of
        (w, Inl e) \<Rightarrow> (w, Inl (Scanning e))
      | (w, Inr stats) \<Rightarrow> (case w_flush W w of (w', Inl e) \<Rightarrow> (w', Inl (Writing e)) | (w', Inr _) \<Rightarrow> (w', Inr stats)))"

definition grep_command ::
    "'m globset \<Rightarrow> 'c cw_source \<Rightarrow> (string \<Rightarrow> string + (string \<Rightarrow> bool)) \<Rightarrow> ('s, 'dt) scan_env \<Rightarrow> (int \<Rightarrow> string option) \<Rightarrow> 'w writer
     \<Rightarrow> global_args \<Rightarrow> grep_args \<Rightarrow> 's \<Rightarrow> 'w \<Rightarrow> ('w \<times> (command_error + scan_stats)) option" where
  "grep_command G cw regex_new V rfc W g a s w =
     (if gr_from a \<ge> gr_to a then Some (w, Inl (Usage (RangeOrder (gr_from a) (gr_to a))))
      else case regex_new (gr_pattern a) of
        Inl e \<Rightarrow> Some (w, Inl (Usage (BadRegex e)))
      | Inr re \<Rightarrow>
         (case require_bucket g of
            Inl e \<Rightarrow> Some (w, Inl e)
          | Inr bucket \<Rightarrow>
             (case require_account g of
                Inl e \<Rightarrow> Some (w, Inl e)
              | Inr acct \<Rightarrow>
                 (case resolve_source_groups G cw (gr_log_group a) (gr_all a) of
                    Inl e \<Rightarrow> Some (w, Inl e)
                  | Inr groups \<Rightarrow>
                      map_option (flush_after W)
                        (scan_log_groups (V\<lparr>sv_store := os_new bucket (ga_prefix g)\<rparr>) s acct groups
                           \<lparr>from_ms = gr_from a, to_ms_exclusive = gr_to a\<rparr> (Some re)
                           (grep_line (sv_chunk V) rfc W (gr_output a)) w)))))"

text \<open>Where a restore goes: standard output and a file are writers, a log group is CloudWatch.\<close>

record restore_args =
  ra_log_group :: "string option"
  ra_all :: bool
  ra_from :: int
  ra_to :: int
  ra_to_stdout :: bool
  ra_to_file :: "string option"
  ra_to_log_group :: "string option"
  ra_raw :: bool

definition restore_command ::
    "'m globset \<Rightarrow> 'x cw_source \<Rightarrow> ('s, 'dt) scan_env \<Rightarrow> 'c put_client \<Rightarrow> ((string \<rightharpoonup> json_value) \<Rightarrow> string) \<Rightarrow> 'w writer
     \<Rightarrow> (string \<Rightarrow> 'w \<Rightarrow> string + 'w) \<Rightarrow> int \<Rightarrow> global_args \<Rightarrow> restore_args \<Rightarrow> 's \<Rightarrow> 'w \<Rightarrow> 'c
     \<Rightarrow> ('w \<times> 'c \<times> (command_error + scan_stats)) option" where
  "restore_command G cw V cl render W create_file now g a s w c =
     (if ra_from a \<ge> ra_to a then Some (w, c, Inl (Usage (RangeOrder (ra_from a) (ra_to a))))
      else if ra_raw a \<and> ra_to_log_group a = None then Some (w, c, Inl (Usage RawNeedsGroup))
      else case require_bucket g of
        Inl e \<Rightarrow> Some (w, c, Inl e)
      | Inr bucket \<Rightarrow>
         (case require_account g of
            Inl e \<Rightarrow> Some (w, c, Inl e)
          | Inr acct \<Rightarrow>
             (case resolve_source_groups G cw (ra_log_group a) (ra_all a) of
                Inl e \<Rightarrow> Some (w, c, Inl e)
              | Inr groups \<Rightarrow>
                 let V' = V\<lparr>sv_store := os_new bucket (ga_prefix g)\<rparr>;
                     rg = \<lparr>from_ms = ra_from a, to_ms_exclusive = ra_to a\<rparr>;
                     to_writer = (\<lambda>w0. map_option (\<lambda>r. case flush_after W r of (w', res) \<Rightarrow> (w', c, res))
                                    (write_jsonl V' s (w_write W) acct groups rg w0)) in
                 if ra_to_stdout a then to_writer w
                 else case ra_to_file a of
                   Some path \<Rightarrow> (case create_file path w of Inl e \<Rightarrow> Some (w, c, Inl (Writing e)) | Inr w0 \<Rightarrow> to_writer w0)
                 | None \<Rightarrow>
                    (case ra_to_log_group a of
                       Some target \<Rightarrow>
                         map_option (\<lambda>((rs, c'), res). (w, c', map_err Restoring res))
                           (restore_to_log_group V' s cl render acct groups target rg (ra_raw a) now c)
                     | None \<Rightarrow> Some (w, c, Inl (Usage NoTarget))))))"


section \<open>serve and the exit code\<close>

datatype auth_mode_arg = ArgNone | ArgSigv4

record serve_args =
  sa_listen :: string
  sa_routing_config :: "string option"
  sa_flush_bytes :: nat
  sa_flush_interval :: nat
  sa_no_cloudwatch :: bool
  sa_wal_dir :: "string option"
  sa_auth_mode :: auth_mode_arg
  sa_auth_access_key :: "string option"
  sa_auth_secret :: "string option"
  sa_max_buffered_bytes :: nat
  sa_storage_class :: "storage_class_arg option"

definition serve_routing ::
    "(string \<Rightarrow> string + string) \<Rightarrow> (string \<Rightarrow> string + raw_config) \<Rightarrow> 'm globset \<Rightarrow> serve_args \<Rightarrow> command_error + 'm routing_config" where
  "serve_routing read_to_string toml G a =
     (case sa_routing_config a of
        None \<Rightarrow> Inr routing_config_default
      | Some path \<Rightarrow>
         (case read_to_string path of
            Inl e \<Rightarrow> Inl (ReadConfig path e)
          | Inr text \<Rightarrow> map_err (ParseConfig path) (from_toml_str toml G text)))"

definition serve_auth :: "serve_args \<Rightarrow> command_error + auth_mode" where
  "serve_auth a =
     (case sa_auth_mode a of
        ArgNone \<Rightarrow> Inr AuthNone
      | ArgSigv4 \<Rightarrow>
         (case (sa_auth_access_key a, sa_auth_secret a) of
            (Some access_key, Some secret_key) \<Rightarrow> Inr (SigV4 access_key secret_key)
          | _ \<Rightarrow> Inl (Usage AuthNeedsKeys)))"

text \<open>
  \<^verbatim>\<open>commands::serve::run\<close>: \<open>start\<close> builds the environment of the buffers and the handlers over the object store and
  the chosen forwarder (none with \<^verbatim>\<open>--no-cloudwatch\<close>), and \<open>phase\<close> is the serving phase on the listen address.
\<close>

definition serve_command ::
    "(string \<Rightarrow> string + string) \<Rightarrow> (string \<Rightarrow> string + raw_config) \<Rightarrow> 'm globset
     \<Rightarrow> (object_store \<Rightarrow> bool \<Rightarrow> ('s, 'dt) buffer_env \<times> ('s, 'dt, 'm, 'f) app_env)
     \<Rightarrow> (string \<Rightarrow> ('s, 'dt, 'm, 'f) app_env \<Rightarrow> 's buffer_manager \<Rightarrow> 's buffer_manager \<times> (string + unit))
     \<Rightarrow> string option \<Rightarrow> global_args \<Rightarrow> serve_args \<Rightarrow> 's buffer_manager \<Rightarrow> 's buffer_manager \<times> (command_error + unit)" where
  "serve_command read_to_string toml G start phase metrics g a bm =
     (case require_bucket g of
        Inl e \<Rightarrow> (bm, Inl e)
      | Inr bucket \<Rightarrow>
         (case require_account g of
            Inl e \<Rightarrow> (bm, Inl e)
          | Inr acct \<Rightarrow>
             (case serve_routing read_to_string toml G a of
                Inl e \<Rightarrow> (bm, Inl e)
              | Inr routing \<Rightarrow>
                 (case serve_auth a of
                    Inl e \<Rightarrow> (bm, Inl e)
                  | Inr auth \<Rightarrow>
                     let store = with_storage_class (map_option storage_class_to_sdk (sa_storage_class a)) (os_new bucket (ga_prefix g));
                         cfg = \<lparr>gc_account = acct, gc_routing = routing, gc_flush_bytes = sa_flush_bytes a,
                                gc_flush_interval = sa_flush_interval a, gc_chunk = chunk_config_default, gc_wal_dir = sa_wal_dir a,
                                gc_auth = auth, gc_max_buffered_bytes = sa_max_buffered_bytes a\<rparr> in
                     (case start store (\<not> sa_no_cloudwatch a) of
                        (B, A) \<Rightarrow>
                          (case serve_listener B (gateway_buffer_config cfg) (phase (sa_listen a) (gateway_new cfg metrics A)) bm of
                             (bm', res) \<Rightarrow> (bm', map_err Serving res)))))))"

text \<open>\<^verbatim>\<open>main\<close>: 0 when the command succeeds, 2 for a usage error, 1 for any other.\<close>

fun exit_code :: "command_error + 'a \<Rightarrow> nat" where
  "exit_code (Inr _) = 0"
| "exit_code (Inl (Usage _)) = 2"
| "exit_code (Inl _) = 1"

section \<open>The retention pass\<close>

text \<open>PutRetentionPolicy touches the policy of its own group only.\<close>

definition retention_law :: "'c cw_source \<Rightarrow> ('c \<Rightarrow> string \<rightharpoonup> int) \<Rightarrow> bool" where
  "retention_law cw ret \<longleftrightarrow> (\<forall>g d c h. h \<noteq> g \<longrightarrow> ret (fst (put_retention_policy cw g d c)) h = ret c h)"

definition gate_request :: "string \<Rightarrow> string \<Rightarrow> int \<Rightarrow> int \<Rightarrow> int \<Rightarrow> int \<Rightarrow> retention_request" where
  "gate_request acct h days created now window_ms = \<lparr>rq_account = acct, rq_log_group = h, rq_retention_days = days,
     rq_coverage_from_ms = created, rq_now_ms = now, rq_window_ms = window_ms\<rparr>"

lemma enforce_frame:
  assumes "retention_law cw ret" and "enforce_retention J cw M p req ap s c = Some (c', res)" and "h \<noteq> rq_log_group req"
  shows "ret c' h = ret c h"
proof -
  have "ret (fst (put_retention_policy cw (rq_log_group req) d c)) h = ret c h" for d
    using assms(1,3) by (simp add: retention_law_def)
  with assms(2) show ?thesis
    by (auto simp: enforce_retention_def split: option.splits sum.splits if_splits prod.splits) (metis fst_conv)+
qed

lemma retention_pass_safe:
  assumes mv: "manifest_view (d_manifests D) view" and rl: "retention_law (d_cw D) ret"
  shows "retention_pass D kp acct days window_ms ap clock infos outs s c = Some (c', res) \<Longrightarrow> ret c' h \<noteq> ret c h \<Longrightarrow>
    ap \<and> (h, True) \<in> set outs \<and> (\<exists>info. infos h = Some info
      \<and> (let req = gate_request acct h days (lg_creation_time_ms info) (clock h) window_ms in
         lg_creation_time_ms info < horizon \<and> retention_cutoff req \<le> horizon \<longrightarrow>
         (\<forall>t. lg_creation_time_ms info \<le> t \<and> t < retention_cutoff req \<longrightarrow>
            (\<exists>w. holds_ts w t \<and> manifest_proves (d_mjson D) view kp req s w))))"
proof (induction outs arbitrary: c)
  case (Cons x outs)
  obtain nm ok where x: "x = (nm, ok)" by (cases x)
  show ?case
  proof (cases "ok \<and> infos nm \<noteq> None")
    case False
    with Cons x show ?thesis by (auto split: option.splits)
  next
    case True
    then obtain info where i: "infos nm = Some info" by blast
    let ?req = "gate_request acct nm days (lg_creation_time_ms info) (clock nm) window_ms"
    obtain c1 r where e: "enforce_retention (d_mjson D) (d_cw D) (d_manifests D) kp ?req ap s c = Some (c1, r)"
      using Cons.prems(1) x True i by (auto simp: gate_request_def split: option.splits)
    show ?thesis
    proof (cases "ret c1 h = ret c h")
      case True
      have "is_ok r" 
        using Cons.prems x \<open>ok \<and> infos nm \<noteq> None\<close> i e True by (cases r) (auto simp: gate_request_def)
      then have "retention_pass D kp acct days window_ms ap clock infos outs s c1 = Some (c', res)"
        using Cons.prems(1) x \<open>ok \<and> infos nm \<noteq> None\<close> i e by (cases r) (auto simp: gate_request_def)
      from Cons.IH [OF this] Cons.prems(2) True show ?thesis by auto
    next
      case False
      then have h: "h = nm" using enforce_frame [OF rl e] by (auto simp: gate_request_def)
      have c: "c1 \<noteq> c" using False by auto
      have ap: "ap"
        using e c by (auto simp: enforce_retention_def split: option.splits sum.splits if_splits)
      have "\<exists>w. holds_ts w t \<and> manifest_proves (d_mjson D) view kp ?req s w"
        if "lg_creation_time_ms info < horizon" "retention_cutoff ?req \<le> horizon" "lg_creation_time_ms info \<le> t" "t < retention_cutoff ?req" for t
        using enforce_fail_closed [OF mv e disjI1 [OF c]] that by (simp add: gate_request_def)
      then show ?thesis using h ap x True i by (auto simp: Let_def)
    qed
  qed
qed simp

text \<open>A run over one group whose only window is archived already.\<close>

definition policy_source :: "(string \<rightharpoonup> int) cw_source" where
  "policy_source =
     \<lparr>filter_log_events = (\<lambda>_ _ _ _ _. Inr \<lparr>pg_events = [], pg_next_token = None\<rparr>),
      describe_log_group = (\<lambda>_. Inr \<lparr>lg_retention_days = None, lg_stored_bytes = None, lg_creation_time_ms = 0\<rparr>),
      list_log_streams = (\<lambda>_ _. Inr []), list_log_groups = (\<lambda>_. Inr []),
      put_retention_policy = (\<lambda>g d c. (c(g \<mapsto> d), Inr ()))\<rparr>"

definition sample_cmd_env :: "(string \<rightharpoonup> bytes, string \<rightharpoonup> int, unit) drain_env" where
  "sample_cmd_env =
     \<lparr>d_cw = policy_source, d_prefix = ''p'', d_put = (\<lambda>_ _ s. (s, Inl (Storage []))), d_manifests = memory_manifest_store,
      d_chunk = sample_env, d_mjson = sample_manifest_json, d_chrono = sample_chrono, d_now = 100, d_version = ''1.0'', d_sched = []\<rparr>"

definition sample_drain_args :: drain_args where
  "sample_drain_args = \<lparr>da_log_group = Some ''g'', da_all = False, da_group_concurrency = 1, da_from = Some 0, da_to = Some 30, da_window = 20,
     da_chunk_target = 1000, da_concurrency = 1, da_dry_run = False, da_shard_streams = 1, da_progress = False,
     da_reconcile = False, da_retention_days = Some 1, da_apply_retention = True,
     da_storage_class = None\<rparr>"

definition sample_global :: global_args where
  "sample_global = \<lparr>ga_bucket = Some ''b'', ga_prefix = ''p'', ga_account = Some ''1''\<rparr>"

abbreviation (input) sample_glob :: "unit globset" where
  "sample_glob \<equiv> \<lparr>glob_new = (\<lambda>_. Inr ()), glob_is_match = (\<lambda>_ _. False)\<rparr>"

abbreviation (input) archived_state :: "(string \<rightharpoonup> bytes) drain_state" where
  "archived_state \<equiv> \<lparr>ds_store = [manifest_key ''p'' ''1'' ''g'' 0 20 \<mapsto> [9]], ds_events = []\<rparr>"

lemmas cmd_defs = sample_cmd_env_def policy_source_def sample_drain_args_def sample_global_def

lemma policy_law: "retention_law policy_source id"
  by (simp add: retention_law_def policy_source_def)

lemma sample_discovered:
  "cli_selector sample_glob (da_log_group sample_drain_args) (da_all sample_drain_args) = Inr (Exact ''g'')"
  "discover_log_groups sample_glob policy_source (Exact ''g'')
     = Inr [(''g'', \<lparr>lg_retention_days = None, lg_stored_bytes = None, lg_creation_time_ms = 0\<rparr>)]"
  by (simp_all add: cli_selector_def selector_parse_def sample_drain_args_def discover_log_groups_def policy_source_def GLOB_META_def)

lemma sample_covers: "manifest_covers_window sample_manifest_json [9] ''1'' ''g'' 0 20"
  by (simp add: manifest_covers_window_def from_json_bytes_def sample_manifest_json_def sample_manifest_def MANIFEST_VERSION_def)

lemma sample_outcomes:
  "drain_outcomes sample_cmd_env rd id id sample_drain_args (base_options ''1'' sample_drain_args)
     [(''g'', i)] archived_state = Some (archived_state, [(''g'', True)])"
proof -
  have "resolve_range sample_cmd_env ((base_options ''1'' sample_drain_args)\<lparr>o_log_group := ''g''\<rparr>) = Inr (0, 30)"
    "compute_shards sample_cmd_env ((base_options ''1'' sample_drain_args)\<lparr>o_log_group := ''g''\<rparr>) = Inr None"
    by (simp_all add: resolve_range_def compute_shards_def base_options_def drain_options_new_def sample_drain_args_def)
  then show ?thesis
    using sample_windows sample_covers
    by (simp add: drain_outcomes_def drain_groups_def drain_run_def process_window_def base_options_def drain_options_new_def
        window_mkey_def emit_def memory_manifest_store_def cmd_defs)
qed


lemma sample_gate:
  "retention_cutoff (gate_request ''1'' ''g'' 1 0 (DAY_MS + 15) 20) = 15"
  "\<exists>plan. enforce_retention sample_manifest_json policy_source memory_manifest_store ''p''
     (gate_request ''1'' ''g'' 1 0 (DAY_MS + 15) 20) True [manifest_key ''p'' ''1'' ''g'' 0 20 \<mapsto> [9]] Map.empty
     = Some ([''g'' \<mapsto> 1], Inr plan)"
proof -
  have cut: "retention_cutoff (gate_request ''1'' ''g'' 1 0 (DAY_MS + 15) 20) = 15"
    by (simp add: gate_request_def retention_cutoff_def DAY_MS_def sat_i64_def i64_MIN_def i64_MAX_def)
  have win: "windows_covering 0 15 20 = Some (Inr [\<lparr>start_ms = 0, end_ms = 20\<rparr>])"
    by (simp add: windows_covering_def validate_def align_down_def next_boundary_def Let_def sdiv_nonneg
      DAY_MS_def sat_i64_def wrap_i64_def i64_MIN_def i64_MAX_def covering_loop.simps)
  show "\<exists>plan. enforce_retention sample_manifest_json policy_source memory_manifest_store ''p''
     (gate_request ''1'' ''g'' 1 0 (DAY_MS + 15) 20) True [manifest_key ''p'' ''1'' ''g'' 0 20 \<mapsto> [9]] Map.empty
     = Some ([''g'' \<mapsto> 1], Inr plan)"
    using sample_covers cut
    by (simp add: enforce_retention_def plan_retention_def gate_request_def win memory_manifest_store_def rp_allowed_def policy_source_def)
  show "retention_cutoff (gate_request ''1'' ''g'' 1 0 (DAY_MS + 15) 20) = 15" by (rule cut)
qed

lemma sample_command:
  "drain_command sample_glob (\<lambda>_. sample_cmd_env) rd id id (\<lambda>_. DAY_MS + 15) sample_global sample_drain_args archived_state Map.empty
     = Some (archived_state, [''g'' \<mapsto> 1], Inr ())"
proof -
  note d = sample_discovered [unfolded sample_drain_args_def, simplified]
  from sample_gate(2) show ?thesis
    using sample_discovered sample_outcomes
    by (auto simp: drain_command_def require_bucket_def require_account_def gate_request_def base_options_def cmd_defs d Let_def)
qed

section \<open>Exit codes\<close>

lemma exit_code_2: "exit_code r = 2 \<longleftrightarrow> (\<exists>u. r = Inl (Usage u))"
  by (cases r rule: exit_code.cases) auto

lemma flush_after_runtime: "flush_after W r \<noteq> (w, Inl (Usage u))"
proof -
  obtain w0 r0 where r: "r = (w0, r0)" by (cases r)
  obtain w1 r1 where f: "w_flush W w0 = (w1, r1)" by (cases "w_flush W w0")
  show ?thesis by (cases r0; cases r1) (simp_all add: flush_after_def r f)
qed

lemma to_writer_runtime: "(case flush_after W r of (w1, res) \<Rightarrow> (w1, c, res)) \<noteq> (w', c', Inl (Usage u))"
  using flush_after_runtime [of W r] by (cases "flush_after W r") auto

lemma retention_pass_runtime: "retention_pass D kp acct days w ap clock infos outs s c \<noteq> Some (c', Inl (Usage u))"
proof (induction outs arbitrary: c)
  case (Cons x outs)
  then show ?case by (cases x) (auto split: option.split sum.split)
qed simp

lemma drain_usage:
  "drain_command G env rd order gorder clock g a st c = Some (st', c', Inl (Usage u)) \<Longrightarrow> st' = st \<and> c' = c"
  unfolding drain_command_def Let_def
  by (auto simp: retention_pass_runtime split: if_splits sum.splits option.splits prod.splits)

lemma grep_usage:
  "grep_command G cw rx V rfc W g a s w = Some (w', Inl (Usage u)) \<Longrightarrow> w' = w"
  unfolding grep_command_def
  by (auto simp: flush_after_runtime split: if_splits sum.splits option.splits prod.splits)

lemma restore_usage:
  "restore_command G cw V cl render W cf now g a s w c = Some (w', c', Inl (Usage u)) \<Longrightarrow> w' = w \<and> c' = c"
  unfolding restore_command_def Let_def
  by (auto simp: map_err_Inl to_writer_runtime split: if_split_asm sum.split_asm option.split_asm)

lemma serve_usage:
  "serve_command rts toml G start phase metrics g a bm = (bm', Inl (Usage u)) \<Longrightarrow> bm' = bm"
  unfolding serve_command_def Let_def
  by (auto simp: map_err_Inl split: sum.splits prod.splits)


text \<open>Exit code 0 of a drain: it ran, and every selected group succeeded.\<close>

lemma drain_success:
  assumes "drain_command G env rd order gorder clock g a st c = Some (st', c', Inr u)"
  shows "\<exists>acct store groups outs. groups \<noteq> []
    \<and> drain_outcomes (env store) (rd store) order gorder a (base_options acct a) groups st = Some (st', outs)
    \<and> list_all snd outs"
proof -
  obtain acct store groups outs where g: "groups \<noteq> []"
    and o: "drain_outcomes (env store) (rd store) order gorder a (base_options acct a) groups st = Some (st', outs)"
    and f: "filter (\<lambda>(_, ok). \<not> ok) outs = []"
    using assms unfolding drain_command_def Let_def by (auto split: option.splits sum.splits if_splits prod.splits)
  have "list_all snd outs" using f by (auto simp: filter_empty_conv list_all_iff)
  with g o show ?thesis by blast
qed

section \<open>Properties\<close>






end
