(* ===== verification/S4_Report.thy ===== *)
theory S4_Report
  imports S4_Commands
begin

text \<open>
  \<^verbatim>\<open>s4logs report\<close> (\<^verbatim>\<open>s4logs-cli/src/commands/report.rs\<close>): the summary of the manifests of an account, and the price
  estimates of \<^verbatim>\<open>s4logs-drain/src/job.rs\<close>. Floating-point arithmetic is an argument, so every count and every byte
  sum is exact and a price is the expression of the source; the rendering as text is not modelled.
\<close>

section \<open>Prices\<close>

text \<open>What is used of \<^verbatim>\<open>f64\<close>; \<open>f_lit n k\<close> is the decimal literal \<open>n / 10^k\<close>.\<close>

record 'f f64_ops =
  f_of_u64 :: "nat \<Rightarrow> 'f"
  f_lit :: "nat \<Rightarrow> nat \<Rightarrow> 'f"
  f_add :: "'f \<Rightarrow> 'f \<Rightarrow> 'f"
  f_sub :: "'f \<Rightarrow> 'f \<Rightarrow> 'f"
  f_mul :: "'f \<Rightarrow> 'f \<Rightarrow> 'f"
  f_div :: "'f \<Rightarrow> 'f \<Rightarrow> 'f"
  f_sum :: "'f list \<Rightarrow> 'f"

definition CW_STORAGE_USD_PER_GIB_MONTH :: "'f f64_ops \<Rightarrow> 'f" where
  "CW_STORAGE_USD_PER_GIB_MONTH F = f_lit F 3 2"

definition S3_STORAGE_USD_PER_GIB_MONTH :: "'f f64_ops \<Rightarrow> 'f" where
  "S3_STORAGE_USD_PER_GIB_MONTH F = f_lit F 23 3"

definition CW_ASSUMED_GZIP_RATIO :: "'f f64_ops \<Rightarrow> 'f" where
  "CW_ASSUMED_GZIP_RATIO F = f_lit F 4 0"

definition gib :: "'f f64_ops \<Rightarrow> nat \<Rightarrow> 'f" where
  "gib F bytes = f_div F (f_of_u64 F bytes) (f_of_u64 F (2 ^ 30))"

definition cw_monthly_storage_usd :: "'f f64_ops \<Rightarrow> drain_report \<Rightarrow> 'f" where
  "cw_monthly_storage_usd F r =
     f_mul F (f_div F (gib F (dr_raw_bytes r)) (CW_ASSUMED_GZIP_RATIO F)) (CW_STORAGE_USD_PER_GIB_MONTH F)"

definition s3_monthly_storage_usd :: "'f f64_ops \<Rightarrow> drain_report \<Rightarrow> 'f" where
  "s3_monthly_storage_usd F r = f_mul F (gib F (dr_compressed_bytes r)) (S3_STORAGE_USD_PER_GIB_MONTH F)"

definition estimated_monthly_savings_usd :: "'f f64_ops \<Rightarrow> drain_report \<Rightarrow> 'f" where
  "estimated_monthly_savings_usd F r = f_sub F (cw_monthly_storage_usd F r) (s3_monthly_storage_usd F r)"

definition s3_price_per_gib_month :: "'f f64_ops \<Rightarrow> string option \<Rightarrow> 'f" where
  "s3_price_per_gib_month F cls =
     (if cls = Some ''STANDARD_IA'' then f_lit F 125 4
      else if cls = Some ''GLACIER_IR'' then f_lit F 4 3
      else S3_STORAGE_USD_PER_GIB_MONTH F)"

section \<open>Aggregation\<close>

record 'f group_report =
  gp_log_group :: string
  gp_windows :: nat
  gp_objects :: nat
  gp_records :: nat
  gp_raw_bytes :: nat
  gp_objects_missing_raw :: nat
  gp_compressed_bytes :: nat
  gp_objects_assumed_standard :: nat
  gp_bytes_by_class :: "nat btree"
  gp_compression_ratio :: "'f option"
  gp_cw_monthly_usd :: 'f
  gp_s3_monthly_usd :: 'f
  gp_est_monthly_savings_usd :: 'f
  gp_coverage_from_ms :: "int option"
  gp_coverage_to_ms :: "int option"
  gp_coverage_gaps :: nat

definition empty_report :: "'f f64_ops \<Rightarrow> string \<Rightarrow> nat \<Rightarrow> 'f group_report" where
  "empty_report F name n = \<lparr>gp_log_group = name, gp_windows = n, gp_objects = 0, gp_records = 0, gp_raw_bytes = 0,
     gp_objects_missing_raw = 0, gp_compressed_bytes = 0, gp_objects_assumed_standard = 0, gp_bytes_by_class = [],
     gp_compression_ratio = None, gp_cw_monthly_usd = f_lit F 0 1, gp_s3_monthly_usd = f_lit F 0 1,
     gp_est_monthly_savings_usd = f_lit F 0 1, gp_coverage_from_ms = None, gp_coverage_to_ms = None, gp_coverage_gaps = 0\<rparr>"

text \<open>\<^verbatim>\<open>*map.entry(class).or_default() += n\<close>\<close>

definition bt_add :: "string \<Rightarrow> nat \<Rightarrow> nat btree \<Rightarrow> nat btree" where
  "bt_add k n m = bt_insert k ((case map_of m k of None \<Rightarrow> 0 | Some v \<Rightarrow> v) + n) m"

definition object_class :: "manifest_object \<Rightarrow> string" where
  "object_class o' = (case mo_storage_class o' of None \<Rightarrow> ''STANDARD'' | Some c \<Rightarrow> c)"

definition absorb_object :: "'f group_report \<Rightarrow> manifest_object \<Rightarrow> 'f group_report" where
  "absorb_object g o' = g\<lparr>gp_objects := gp_objects g + 1,
     gp_compressed_bytes := gp_compressed_bytes g + mo_body_len o',
     gp_bytes_by_class := bt_add (object_class o') (mo_body_len o') (gp_bytes_by_class g),
     gp_objects_assumed_standard := gp_objects_assumed_standard g + (if mo_storage_class o' = None then 1 else 0),
     gp_raw_bytes := (case mo_raw_bytes o' of Some raw \<Rightarrow> gp_raw_bytes g + raw | None \<Rightarrow> gp_raw_bytes g),
     gp_objects_missing_raw := (case mo_raw_bytes o' of Some _ \<Rightarrow> gp_objects_missing_raw g | None \<Rightarrow> gp_objects_missing_raw g + 1)\<rparr>"

definition absorb_manifest :: "'f group_report \<Rightarrow> manifest \<Rightarrow> 'f group_report" where
  "absorb_manifest g m = foldl absorb_object (g\<lparr>gp_records := gp_records g + m_record_count m\<rparr>) (m_objects m)"

definition sorted_windows :: "manifest list \<Rightarrow> (int \<times> int) list" where
  "sorted_windows ms = sort (map (\<lambda>m. (m_window_start_ms m, m_window_end_ms m)) ms)"

definition count_gaps :: "(int \<times> int) list \<Rightarrow> nat" where
  "count_gaps ws = length (filter (\<lambda>(a, b). fst b > snd a) (zip ws (tl ws)))"

definition finish_pricing :: "'f f64_ops \<Rightarrow> 'f group_report \<Rightarrow> 'f group_report" where
  "finish_pricing F g =
     (let cw = f_mul F (f_div F (gib F (gp_raw_bytes g)) (CW_ASSUMED_GZIP_RATIO F)) (CW_STORAGE_USD_PER_GIB_MONTH F);
          s3 = f_sum F (map (\<lambda>(cls, n). f_mul F (gib F n) (s3_price_per_gib_month F (Some cls))) (gp_bytes_by_class g)) in
      g\<lparr>gp_cw_monthly_usd := cw, gp_s3_monthly_usd := s3, gp_est_monthly_savings_usd := f_sub F cw s3,
        gp_compression_ratio :=
          (if gp_objects_missing_raw g = 0 \<and> gp_raw_bytes g > 0 \<and> gp_compressed_bytes g > 0
           then Some (f_div F (f_of_u64 F (gp_raw_bytes g)) (f_of_u64 F (gp_compressed_bytes g))) else None)\<rparr>)"

definition aggregate_group :: "'f f64_ops \<Rightarrow> string \<Rightarrow> manifest list \<Rightarrow> 'f group_report" where
  "aggregate_group F name ms =
     (let g = foldl absorb_manifest (empty_report F name (length ms)) ms;
          ws = sorted_windows ms;
          g = (if ws = [] then g else g\<lparr>gp_coverage_from_ms := Some (fst (hd ws)), gp_coverage_to_ms := Some (snd (last ws))\<rparr>) in
      finish_pricing F (g\<lparr>gp_coverage_gaps := count_gaps ws\<rparr>))"

record 'f report_summary =
  sm_scope :: string
  sm_groups :: "'f group_report list"
  sm_total :: "'f group_report"

definition absorb_group :: "'f group_report \<Rightarrow> 'f group_report \<Rightarrow> 'f group_report" where
  "absorb_group t g = t\<lparr>gp_windows := gp_windows t + gp_windows g, gp_objects := gp_objects t + gp_objects g,
     gp_records := gp_records t + gp_records g, gp_raw_bytes := gp_raw_bytes t + gp_raw_bytes g,
     gp_objects_missing_raw := gp_objects_missing_raw t + gp_objects_missing_raw g,
     gp_compressed_bytes := gp_compressed_bytes t + gp_compressed_bytes g,
     gp_objects_assumed_standard := gp_objects_assumed_standard t + gp_objects_assumed_standard g,
     gp_bytes_by_class := foldl (\<lambda>m (cls, n). bt_add cls n m) (gp_bytes_by_class t) (gp_bytes_by_class g),
     gp_coverage_gaps := gp_coverage_gaps t + gp_coverage_gaps g\<rparr>"

definition build_summary :: "'f f64_ops \<Rightarrow> string \<Rightarrow> manifest list btree \<Rightarrow> 'f report_summary" where
  "build_summary F scope by_group =
     (let groups = map (\<lambda>(name, ms). aggregate_group F name ms) by_group in
      \<lparr>sm_scope = scope, sm_groups = groups,
       sm_total = finish_pricing F (foldl absorb_group (empty_report F ''TOTAL'' 0) groups)\<rparr>)"

section \<open>The command\<close>

text \<open>The loop over the listed keys; a manifest is pushed to the end of its group's list.\<close>

fun collect_manifests ::
    "manifest serde \<Rightarrow> 's manifest_store \<Rightarrow> 'm globset \<Rightarrow> 'm group_selector \<Rightarrow> 's \<Rightarrow> string list \<Rightarrow> manifest list btree
     \<Rightarrow> command_error + manifest list btree" where
  "collect_manifests J M G sel s [] acc = Inr acc"
| "collect_manifests J M G sel s (key # keys) acc =
     (case parse_manifest_key_log_group key of
        None \<Rightarrow> collect_manifests J M G sel s keys acc
      | Some name \<Rightarrow>
          if \<not> selector_matches G sel name then collect_manifests J M G sel s keys acc
          else case mf_get M key s of
            Inl e \<Rightarrow> Inl (ReadingManifest key e)
          | Inr None \<Rightarrow> collect_manifests J M G sel s keys acc
          | Inr (Some b) \<Rightarrow>
             (case from_json_bytes J b of
                Inl _ \<Rightarrow> collect_manifests J M G sel s keys acc
              | Inr m \<Rightarrow>
                  collect_manifests J M G sel s keys
                    (bt_insert name ((case map_of acc name of None \<Rightarrow> [] | Some ms \<Rightarrow> ms) @ [m]) acc)))"

text \<open>\<open>describe\<close> is the label of the selector in the printed header.\<close>

record report_args =
  rr_log_group :: "string option"
  rr_all :: bool

definition report_command ::
    "'f f64_ops \<Rightarrow> manifest serde \<Rightarrow> (object_store \<Rightarrow> 's manifest_store) \<Rightarrow> 'm globset \<Rightarrow> ('m group_selector \<Rightarrow> string) \<Rightarrow> global_args \<Rightarrow> report_args \<Rightarrow> 's
     \<Rightarrow> (command_error + 'f report_summary) option" where
  "report_command F J mk G describe g a s =
     (case cli_selector G (rr_log_group a) (rr_all a) of
        Inl e \<Rightarrow> Some (Inl e)
      | Inr sel \<Rightarrow>
         (case require_bucket g of
            Inl e \<Rightarrow> Some (Inl e)
          | Inr bucket \<Rightarrow>
             (case require_account g of
                Inl e \<Rightarrow> Some (Inl e)
              | Inr acct \<Rightarrow>
                 let M = mk (os_new bucket (ga_prefix g)); p = manifest_account_prefix (ga_prefix g) acct in
                 (case mf_list M p s of
                    None \<Rightarrow> None
                  | Some (Inl e) \<Rightarrow> Some (Inl (ListingManifests p e))
                  | Some (Inr keys) \<Rightarrow>
                     (case collect_manifests J M G sel s keys [] of
                        Inl e \<Rightarrow> Some (Inl e)
                      | Inr by_group \<Rightarrow> Some (Inr (build_summary F (describe sel) by_group)))))))"


section \<open>Sums\<close>

definition bt_val :: "nat btree \<Rightarrow> string \<Rightarrow> nat" where
  "bt_val m k = (case map_of m k of None \<Rightarrow> 0 | Some v \<Rightarrow> v)"

lemma bt_add_ok: "bt_ok m \<Longrightarrow> bt_ok (bt_add k n m)"
  by (simp add: bt_add_def bt_insert_ok)

lemma bt_add_val: "bt_ok m \<Longrightarrow> bt_val (bt_add k n m) c = bt_val m c + (if c = k then n else 0)"
  by (simp add: bt_add_def bt_val_def bt_insert_lookup)

lemma bt_insert_sum:
  "bt_ok m \<Longrightarrow> sum_list (map snd (bt_insert k v m)) + (case map_of m k of None \<Rightarrow> 0 | Some w \<Rightarrow> w) = sum_list (map snd m) + (v :: nat)"
proof (induction k v m rule: bt_insert.induct)
  case (2 k v k' v' m)
  then have "\<forall>x \<in> fst ` set m. k' < x" "bt_ok m" by (auto simp: bt_ok_def)
  moreover from this have "k < k' \<Longrightarrow> map_of m k = None" by (auto simp: map_of_eq_None_iff)
  ultimately show ?case using 2 by auto
qed simp

lemma bt_add_sum: "bt_ok m \<Longrightarrow> sum_list (map snd (bt_add k n m)) = sum_list (map snd m) + n"
  using bt_insert_sum [of m k "(case map_of m k of None \<Rightarrow> 0 | Some v \<Rightarrow> v) + n"] by (simp add: bt_add_def)

text \<open>What the sums should be.\<close>

definition class_bytes :: "string \<Rightarrow> manifest_object list \<Rightarrow> nat" where
  "class_bytes c os = sum_list (map mo_body_len (filter (\<lambda>o'. object_class o' = c) os))"

definition known_raw :: "manifest_object list \<Rightarrow> nat" where
  "known_raw os = sum_list (List.map_filter mo_raw_bytes os)"

definition sums_of :: "'f group_report \<Rightarrow> nat \<Rightarrow> manifest_object list \<Rightarrow> bool" where
  "sums_of g recs os \<longleftrightarrow> gp_records g = recs \<and> gp_objects g = length os
     \<and> gp_compressed_bytes g = sum_list (map mo_body_len os) \<and> gp_raw_bytes g = known_raw os
     \<and> gp_objects_missing_raw g = length (filter (\<lambda>o'. mo_raw_bytes o' = None) os)
     \<and> gp_objects_assumed_standard g = length (filter (\<lambda>o'. mo_storage_class o' = None) os)
     \<and> bt_ok (gp_bytes_by_class g) \<and> (\<forall>c. bt_val (gp_bytes_by_class g) c = class_bytes c os)
     \<and> sum_list (map snd (gp_bytes_by_class g)) = gp_compressed_bytes g"

lemma sums_empty: "sums_of (empty_report F name n) 0 []"
  by (simp add: sums_of_def empty_report_def class_bytes_def known_raw_def bt_ok_def bt_val_def map_filter_def)

lemma sums_object: "sums_of g r os \<Longrightarrow> sums_of (absorb_object g o') r (os @ [o'])"
  by (cases "mo_raw_bytes o'")
    (simp_all add: sums_of_def absorb_object_def class_bytes_def known_raw_def map_filter_def bt_add_ok bt_add_val bt_add_sum)

lemma sums_objects: "sums_of g r os \<Longrightarrow> sums_of (foldl absorb_object g new) r (os @ new)"
proof (induction new arbitrary: g os)
  case (Cons o' new)
  from Cons.IH [OF sums_object [OF Cons.prems], of o'] show ?case by simp
qed simp

lemma sums_manifests:
  "sums_of g r os \<Longrightarrow> sums_of (foldl absorb_manifest g ms) (r + sum_list (map m_record_count ms)) (os @ concat (map m_objects ms))"
proof (induction ms arbitrary: g r os)
  case (Cons m ms)
  have "sums_of (g\<lparr>gp_records := gp_records g + m_record_count m\<rparr>) (r + m_record_count m) os"
    using Cons.prems by (simp add: sums_of_def)
  from Cons.IH [OF sums_objects [OF this, of "m_objects m"]] show ?case by (simp add: absorb_manifest_def add.assoc)
qed simp

lemma absorb_object_frame:
  "gp_log_group (absorb_object g o') = gp_log_group g" "gp_windows (absorb_object g o') = gp_windows g"
  by (simp_all add: absorb_object_def)

lemma absorb_manifests_frame:
  "gp_log_group (foldl absorb_manifest g ms) = gp_log_group g" "gp_windows (foldl absorb_manifest g ms) = gp_windows g"
proof -
  have o: "gp_log_group (foldl absorb_object g os) = gp_log_group g \<and> gp_windows (foldl absorb_object g os) = gp_windows g" for g :: "'a group_report" and os
    by (induction os arbitrary: g) (simp_all add: absorb_object_frame)
  have "gp_log_group (foldl absorb_manifest g ms) = gp_log_group g \<and> gp_windows (foldl absorb_manifest g ms) = gp_windows g"
    by (induction ms arbitrary: g) (simp_all add: absorb_manifest_def o)
  then show "gp_log_group (foldl absorb_manifest g ms) = gp_log_group g" "gp_windows (foldl absorb_manifest g ms) = gp_windows g" by auto
qed

lemma sums_finish: "sums_of (finish_pricing F g) r os = sums_of g r os"
  by (simp add: sums_of_def finish_pricing_def Let_def)

lemma aggregate_sums: "sums_of (aggregate_group F name ms) (sum_list (map m_record_count ms)) (concat (map m_objects ms))"
  using sums_manifests [OF sums_empty, of F name "length ms" ms]
  by (simp add: aggregate_group_def Let_def sums_finish) (simp add: sums_of_def)

lemma sorted_windows_set [simp]: "set (sorted_windows ms) = (\<lambda>m. (m_window_start_ms m, m_window_end_ms m)) ` set ms"
  by (simp add: sorted_windows_def)

lemma sorted_windows_empty [simp]: "sorted_windows ms = [] \<longleftrightarrow> ms = []"
  using sorted_windows_set [of ms] by (metis image_is_empty set_empty)

lemma aggregate_frame [simp]:
  "gp_log_group (aggregate_group F name ms) = name" "gp_windows (aggregate_group F name ms) = length ms"
  "gp_coverage_gaps (aggregate_group F name ms) = count_gaps (sorted_windows ms)"
  "ms \<noteq> [] \<Longrightarrow> gp_coverage_from_ms (aggregate_group F name ms) = Some (fst (hd (sorted_windows ms)))"
  "ms \<noteq> [] \<Longrightarrow> gp_coverage_to_ms (aggregate_group F name ms) = Some (snd (last (sorted_windows ms)))"
  by (auto simp: aggregate_group_def finish_pricing_def absorb_manifests_frame empty_report_def Let_def)


section \<open>Coverage\<close>

definition covered :: "(int \<times> int) list \<Rightarrow> int \<Rightarrow> bool" where
  "covered ws t \<longleftrightarrow> (\<exists>(a, b) \<in> set ws. a \<le> t \<and> t < b)"

text \<open>The first uncovered instant of every hole between two covered ones.\<close>

definition hole_starts :: "(int \<times> int) list \<Rightarrow> int set" where
  "hole_starts ws = {t. covered ws (t - 1) \<and> \<not> covered ws t \<and> t < snd (last ws)}"

text \<open>Windows in the order of their starts whose ends do not go back, as those of one grid.\<close>

fun steady :: "(int \<times> int) list \<Rightarrow> bool" where
  "steady [] \<longleftrightarrow> True"
| "steady [x] \<longleftrightarrow> fst x < snd x"
| "steady (x # y # ws) \<longleftrightarrow> fst x < snd x \<and> fst x \<le> fst y \<and> snd x \<le> snd y \<and> steady (y # ws)"

lemma covered_Nil [simp]: "\<not> covered [] t"
  by (simp add: covered_def)

lemma covered_Cons [simp]: "covered (x # ws) t \<longleftrightarrow> fst x \<le> t \<and> t < snd x \<or> covered ws t"
  by (cases x) (auto simp: covered_def)

lemma steady_last: "steady (x # ws) \<Longrightarrow> snd x \<le> snd (last (x # ws))"
proof (induction ws arbitrary: x)
  case (Cons y ws)
  then show ?case using Cons.IH [of y] by fastforce
qed simp

lemma steady_bounds: "steady (x # ws) \<Longrightarrow> covered (x # ws) t \<Longrightarrow> fst x \<le> t \<and> t < snd (last (x # ws))"
proof (induction ws arbitrary: x)
  case (Cons y ws)
  then show ?case using Cons.IH [of y] steady_last [of y ws] by fastforce
qed simp

lemma count_gaps_Cons: "count_gaps (x # y # ws) = (if snd x < fst y then 1 else 0) + count_gaps (y # ws)"
  by (simp add: count_gaps_def)

lemma hole_starts_Cons:
  assumes "steady (x # y # ws)"
  shows "hole_starts (x # y # ws) = (if snd x < fst y then {snd x} else {}) \<union> hole_starts (y # ws)"
proof -
  have s: "fst x < snd x" "fst x \<le> fst y" "snd x \<le> snd y" "fst y < snd y" "steady (y # ws)"
    using assms by (cases ws; simp)+
  have b: "covered (y # ws) t \<Longrightarrow> fst y \<le> t" for t using steady_bounds [OF s(5)] by blast
  have y: "fst y \<le> t \<Longrightarrow> t < snd y \<Longrightarrow> covered (y # ws) t" for t by simp
  have l: "snd y \<le> snd (last (y # ws))" using steady_last [OF s(5)] .
  have "t \<in> hole_starts (x # y # ws) \<longleftrightarrow> snd x < fst y \<and> t = snd x \<or> t \<in> hole_starts (y # ws)" for t
  proof (cases "t \<in> hole_starts (y # ws)")
    case True
    then have "covered (y # ws) (t - 1)" "\<not> covered (y # ws) t" "t < snd (last (y # ws))" by (simp_all add: hole_starts_def del: last.simps covered_Cons)
    moreover from this have "\<not> (fst x \<le> t \<and> t < snd x)" using b [of "t - 1"] y [of t] s(3) by linarith
    ultimately show ?thesis using True by (simp add: hole_starts_def covered_Cons [of x] del: last.simps covered_Cons) simp
  next
    case False
    then have n: "covered (y # ws) (t - 1) \<Longrightarrow> t < snd (last (y # ws)) \<Longrightarrow> covered (y # ws) t" by (simp add: hole_starts_def del: last.simps covered_Cons)
    have "t \<in> hole_starts (x # y # ws) \<longleftrightarrow> (fst x \<le> t - 1 \<and> t - 1 < snd x \<or> covered (y # ws) (t - 1))
        \<and> \<not> (fst x \<le> t \<and> t < snd x) \<and> \<not> covered (y # ws) t \<and> t < snd (last (y # ws))"
      by (simp add: hole_starts_def covered_Cons [of x] del: last.simps covered_Cons) auto
    also have "\<dots> \<longleftrightarrow> t = snd x \<and> \<not> covered (y # ws) t \<and> t < snd (last (y # ws))"
      using n s(1) by auto
    also have "\<dots> \<longleftrightarrow> snd x < fst y \<and> t = snd x"
      using b [of t] y [of t] n y [of "t - 1"] s(3,4) l by auto
    finally show ?thesis using False by blast
  qed
  then show ?thesis by auto
qed

lemma gaps_are_holes: "steady ws \<Longrightarrow> finite (hole_starts ws) \<and> count_gaps ws = card (hole_starts ws)"
proof (induction ws rule: steady.induct)
  case (3 x y ws)
  have s: "steady (y # ws)" using 3 by simp
  have "snd x < fst y \<Longrightarrow> snd x \<notin> hole_starts (y # ws)"
    using steady_bounds [OF s, of "snd x - 1"] by (auto simp: hole_starts_def simp del: covered_Cons)
  then show ?case using 3 by (simp add: hole_starts_Cons count_gaps_Cons)
next
  case (2 x)
  have "hole_starts [x] = {}" by (auto simp: hole_starts_def)
  then show ?case by (simp add: count_gaps_def)
qed (auto simp: hole_starts_def count_gaps_def)


text \<open>When ends follow starts, the sorted windows are steady.\<close>

definition grid_like :: "manifest list \<Rightarrow> bool" where
  "grid_like ms \<longleftrightarrow> (\<forall>m \<in> set ms. m_window_start_ms m < m_window_end_ms m
     \<and> (\<forall>m' \<in> set ms. m_window_start_ms m \<le> m_window_start_ms m' \<longrightarrow> m_window_end_ms m \<le> m_window_end_ms m'))"

lemma sorted_steady:
  "sorted ws \<Longrightarrow> (\<forall>x \<in> set ws. fst x < snd x) \<Longrightarrow> (\<forall>x \<in> set ws. \<forall>y \<in> set ws. fst x \<le> fst y \<longrightarrow> snd x \<le> snd y) \<Longrightarrow> steady ws"
proof (induction ws rule: steady.induct)
  case (3 x y ws)
  have "x \<le> y" using 3(2) by simp
  then have "fst x \<le> fst y" by (auto simp: less_eq_prod_def)
  then show ?case using 3 by auto
qed auto

lemma grid_like_steady: "grid_like ms \<Longrightarrow> steady (sorted_windows ms)"
  by (rule sorted_steady) (auto simp: sorted_windows_def grid_like_def)

lemma steady_ends:
  assumes "steady ws" and "ws \<noteq> []"
  shows "(\<forall>x \<in> set ws. fst (hd ws) \<le> fst x \<and> snd x \<le> snd (last ws))"
  using assms
proof (induction ws rule: steady.induct)
  case (3 x y ws)
  then show ?case using steady_last [of y ws] by fastforce
qed auto

section \<open>Collection\<close>

text \<open>The accepted manifests of one group, in the order of the listing.\<close>

definition group_manifests :: "manifest serde \<Rightarrow> (string \<rightharpoonup> bytes) \<Rightarrow> string list \<Rightarrow> string \<Rightarrow> manifest list" where
  "group_manifests J objs keys name =
     List.map_filter (\<lambda>k. if parse_manifest_key_log_group k = Some name
        then Option.bind (objs k) (\<lambda>b. ok_of (from_json_bytes J b)) else None) keys"

definition bt_list :: "'v list btree \<Rightarrow> string \<Rightarrow> 'v list" where
  "bt_list m k = (case map_of m k of None \<Rightarrow> [] | Some v \<Rightarrow> v)"

context manifest_view
begin

lemma collect_exact:
  assumes "collect_manifests J M G sel s keys acc = Inr out" and "bt_ok acc" and "\<forall>(k, v) \<in> set acc. v \<noteq> []"
  shows "bt_ok out \<and> (\<forall>(k, v) \<in> set out. v \<noteq> [])
    \<and> (\<forall>name. bt_list out name = bt_list acc name @ (if selector_matches G sel name then group_manifests J (view s) keys name else []))"
  using assms
proof (induction keys arbitrary: acc)
  case Nil
  then show ?case by (simp add: group_manifests_def map_filter_def)
next
  case (Cons key keys)
  let ?step = "\<lambda>name. if parse_manifest_key_log_group key = Some name then Option.bind (view s key) (\<lambda>b. ok_of (from_json_bytes J b)) else None"
  have gm: "group_manifests J (view s) (key # keys) name = (case ?step name of None \<Rightarrow> [] | Some m \<Rightarrow> [m]) @ group_manifests J (view s) keys name" for name
    by (simp add: group_manifests_def map_filter_def split: option.splits)
  show ?case
  proof (cases "\<exists>name m. parse_manifest_key_log_group key = Some name \<and> selector_matches G sel name \<and> ?step name = Some m")
    case False
    then have "collect_manifests J M G sel s keys acc = Inr out"
      using Cons.prems(1) by (auto dest!: get_view [symmetric] split: option.splits sum.splits if_splits)
    from Cons.IH [OF this Cons.prems(2,3)] show ?thesis using False by (auto simp: gm split: option.splits)
  next
    case True
    then obtain name m where n: "parse_manifest_key_log_group key = Some name" "selector_matches G sel name" "?step name = Some m" by blast
    then obtain b where b: "view s key = Some b" "from_json_bytes J b = Inr m"
      by (cases "view s key"; cases "from_json_bytes J (the (view s key))") auto
    have f: "mf_get M key s = Inr (Some b)"
      using Cons.prems(1) n(1,2) b(1) by (cases "mf_get M key s") (auto dest!: get_view)
    let ?acc = "bt_insert name (bt_list acc name @ [m]) acc"
    have "collect_manifests J M G sel s keys ?acc = Inr out"
      using Cons.prems(1) n f b by (simp add: bt_list_def)
    moreover have "bt_ok ?acc" using Cons.prems(2) by (rule bt_insert_ok)
    moreover have "\<forall>(k, v) \<in> set ?acc. v \<noteq> []"
    proof -
      have "set (bt_insert k v (acc :: manifest list btree)) \<subseteq> insert (k, v) (set acc)" for k v
        by (induction k v acc rule: bt_insert.induct) auto
      then show ?thesis using Cons.prems(3) by fastforce
    qed
    ultimately have "bt_ok out \<and> (\<forall>(k, v) \<in> set out. v \<noteq> [])
      \<and> (\<forall>name. bt_list out name = bt_list ?acc name @ (if selector_matches G sel name then group_manifests J (view s) keys name else []))"
      by (rule Cons.IH)
    moreover have "bt_list ?acc nm = bt_list acc nm @ (if nm = name then [m] else [])" for nm
      using Cons.prems(2) by (simp add: bt_list_def bt_insert_lookup)
    ultimately show ?thesis using n by (auto simp: gm)
  qed
qed

end


section \<open>Totals\<close>

lemma bt_add_all: "bt_ok m \<Longrightarrow> bt_ok (foldl (\<lambda>m (cls, n). bt_add cls n m) m xs)
    \<and> sum_list (map snd (foldl (\<lambda>m (cls, n). bt_add cls n m) m xs)) = sum_list (map snd m) + sum_list (map snd xs)"
proof (induction xs arbitrary: m)
  case (Cons x xs)
  then show ?case by (cases x) (simp add: bt_add_ok bt_add_sum)
qed simp

lemma total_sums:
  assumes "bt_ok (gp_bytes_by_class t)"
  shows "gp_records (foldl absorb_group t gs) = gp_records t + sum_list (map gp_records gs)
    \<and> gp_compressed_bytes (foldl absorb_group t gs) = gp_compressed_bytes t + sum_list (map gp_compressed_bytes gs)
    \<and> gp_windows (foldl absorb_group t gs) = gp_windows t + sum_list (map gp_windows gs)
    \<and> sum_list (map snd (gp_bytes_by_class (foldl absorb_group t gs)))
       = sum_list (map snd (gp_bytes_by_class t)) + sum_list (map (\<lambda>g. sum_list (map snd (gp_bytes_by_class g))) gs)"
  using assms
proof (induction gs arbitrary: t)
  case (Cons g gs)
  have "bt_ok (gp_bytes_by_class (absorb_group t g))" using Cons.prems bt_add_all by (auto simp: absorb_group_def)
  from Cons.IH [OF this] show ?case using bt_add_all [OF Cons.prems, of "gp_bytes_by_class g"] by (simp add: absorb_group_def)
qed simp

lemma bt_list_map: "bt_ok m \<Longrightarrow> (\<forall>(k, v) \<in> set m. v \<noteq> []) \<Longrightarrow> k \<in> fst ` set m \<longleftrightarrow> bt_list m k \<noteq> []"
  using bt_distinct [of m] by (auto simp: bt_list_def map_of_eq_None_iff split: option.splits dest: map_of_SomeD) force

section \<open>A concrete report\<close>

abbreviation (input) unit_floats :: "unit f64_ops" where
  "unit_floats \<equiv> \<lparr>f_of_u64 = (\<lambda>_. ()), f_lit = (\<lambda>_ _. ()), f_add = (\<lambda>_ _. ()), f_sub = (\<lambda>_ _. ()), f_mul = (\<lambda>_ _. ()),
     f_div = (\<lambda>_ _. ()), f_sum = (\<lambda>_. ())\<rparr>"

abbreviation (input) sample_key :: string where
  "sample_key \<equiv> manifest_key ''p'' ''1'' ''g'' 0 20"

lemma sample_key_group: "parse_manifest_key_log_group sample_key = Some ''g''"
  by (rule parse_manifest_key_group_key)
    (simp_all add: norm_prefix_def trim_matches_def map_filter_def strip_prefix_def byte_in_def)

lemma prefix_le: "xs \<le> xs @ (ys :: string)"
  by (induction xs) auto

lemma sample_listed: "mms_list (manifest_account_prefix ''p'' ''1'') [sample_key \<mapsto> [9]] = [sample_key]"
proof -
  have "sample_key = manifest_account_prefix ''p'' ''1'' @ drop (length (manifest_account_prefix ''p'' ''1'')) sample_key"
    by (simp add: manifest_key_def manifest_account_prefix_def group_tail_def)
  then obtain r where r: "sample_key = manifest_account_prefix ''p'' ''1'' @ r" by blast
  have "manifest_account_prefix ''p'' ''1'' \<le> manifest_account_prefix ''p'' ''1'' @ r" by (rule prefix_le)
  then show ?thesis by (simp add: mms_list_def mms_keys_def starts_with_def r)
qed

lemma sample_grouped: "group_manifests sample_manifest_json [sample_key \<mapsto> [9]] [sample_key] ''g'' = [sample_manifest]"
  using sample_key_group sample_covers
  by (simp add: group_manifests_def map_filter_def from_json_bytes_def sample_manifest_json_def sample_manifest_def MANIFEST_VERSION_def)

section \<open>Properties\<close>


lemma distinct_one: "distinct (map f xs) \<Longrightarrow> f ` set xs = {y} \<Longrightarrow> \<exists>x. xs = [x] \<and> f x = y"
proof (cases xs)
  case (Cons a ys)
  assume "distinct (map f xs)" and "f ` set xs = {y}"
  then show ?thesis using Cons by (cases ys) auto
qed simp


text \<open>
  C40: coverage is exact on one grid. When the windows of a group are non-empty and their ends follow their starts, as those of one
  window length do, the reported range runs from the earliest start to the latest end and the number of gaps is the number of
  holes, counted by the first uncovered instant after a covered one.
\<close>

theorem coverage_exact:
  assumes "ms \<noteq> []" and "grid_like ms"
  shows "gp_coverage_from_ms (aggregate_group F name ms) = Some (Min (m_window_start_ms ` set ms))
    \<and> gp_coverage_to_ms (aggregate_group F name ms) = Some (Max (m_window_end_ms ` set ms))
    \<and> gp_coverage_gaps (aggregate_group F name ms)
        = card {t. (\<exists>m \<in> set ms. m_window_start_ms m \<le> t - 1 \<and> t - 1 < m_window_end_ms m)
            \<and> \<not> (\<exists>m \<in> set ms. m_window_start_ms m \<le> t \<and> t < m_window_end_ms m) \<and> t < Max (m_window_end_ms ` set ms)}"
proof -
  let ?ws = "sorted_windows ms"
  have s: "steady ?ws" "?ws \<noteq> []" using assms grid_like_steady by auto
  have cov: "covered ?ws t \<longleftrightarrow> (\<exists>m \<in> set ms. m_window_start_ms m \<le> t \<and> t < m_window_end_ms m)" for t by (auto simp: covered_def)
  have st: "fst ` set ?ws = m_window_start_ms ` set ms" "snd ` set ?ws = m_window_end_ms ` set ms" by force+
  have "fst (hd ?ws) = Min (fst ` set ?ws)" "snd (last ?ws) = Max (snd ` set ?ws)"
    using steady_ends [OF s] s(2) by (auto intro!: Min_eqI [symmetric] Max_eqI [symmetric] simp del: sorted_windows_set sorted_windows_empty)
  then have mm: "fst (hd ?ws) = Min (m_window_start_ms ` set ms)" "snd (last ?ws) = Max (m_window_end_ms ` set ms)"
    unfolding st by auto
  then show ?thesis
    using gaps_are_holes [OF s(1)] assms(1) by (simp add: hole_starts_def cov)
qed


abbreviation (input) window_of :: "int \<Rightarrow> int \<Rightarrow> manifest" where
  "window_of a b \<equiv> sample_manifest\<lparr>m_window_start_ms := a, m_window_end_ms := b\<rparr>"

theorem coverage_exact_witness:
  "gp_coverage_gaps (aggregate_group unit_floats ''g'' [window_of 20 40, window_of 0 20, window_of 60 80]) = 1
   \<and> card {t :: int. (0 \<le> t - 1 \<and> t - 1 < 40 \<or> 60 \<le> t - 1 \<and> t - 1 < 80) \<and> \<not> (0 \<le> t \<and> t < 40 \<or> 60 \<le> t \<and> t < 80) \<and> t < 80} = 1"
proof -
  let ?ms = "[window_of 20 40, window_of 0 20, window_of 60 80]"
  have "grid_like ?ms" by (simp add: grid_like_def)
  moreover have m: "Max (m_window_end_ms ` set ?ms) = 80" by simp
  have "sorted_windows ?ms = [(0, 20), (20, 40), (60, 80)]" by (simp add: sorted_windows_def less_eq_prod_def)
  then have g: "gp_coverage_gaps (aggregate_group unit_floats ''g'' ?ms) = 1" by (simp add: count_gaps_def)
  have "{t. (\<exists>m \<in> set ?ms. m_window_start_ms m \<le> t - 1 \<and> t - 1 < m_window_end_ms m)
            \<and> \<not> (\<exists>m \<in> set ?ms. m_window_start_ms m \<le> t \<and> t < m_window_end_ms m) \<and> t < 80}
      = {t :: int. (0 \<le> t - 1 \<and> t - 1 < 40 \<or> 60 \<le> t - 1 \<and> t - 1 < 80) \<and> \<not> (0 \<le> t \<and> t < 40 \<or> 60 \<le> t \<and> t < 80) \<and> t < 80}"
    by auto
  ultimately show ?thesis using coverage_exact [of ?ms unit_floats "''g''", unfolded m] g by simp
qed

text \<open>
  With windows of several lengths that overlap, the summary is wrong: a long window and a short one inside it give a range that ends
  with the short one, and a window after it counts as a gap although the long one covers it.
\<close>

lemma coverage_mixed_windows:
  "gp_coverage_to_ms (aggregate_group unit_floats ''g'' [window_of 0 100, window_of 10 20, window_of 30 40]) = Some 40"
  "gp_coverage_gaps (aggregate_group unit_floats ''g'' [window_of 0 100, window_of 10 20, window_of 30 40]) = 1"
proof -
  have "sorted_windows [window_of 0 100, window_of 10 20, window_of 30 40] = [(0, 100), (10, 20), (30, 40)]"
    by (simp add: sorted_windows_def less_eq_prod_def)
  then show "gp_coverage_to_ms (aggregate_group unit_floats ''g'' [window_of 0 100, window_of 10 20, window_of 30 40]) = Some 40"
    "gp_coverage_gaps (aggregate_group unit_floats ''g'' [window_of 0 100, window_of 10 20, window_of 30 40]) = 1"
    by (simp_all add: count_gaps_def)
qed

end
