(* ===== verification/S4_Plan.thy ===== *)
theory S4_Plan
  imports S4_Report
begin

text \<open>
  \<^verbatim>\<open>s4logs plan\<close> (\<^verbatim>\<open>s4logs-cli/src/commands/plan.rs\<close>): the ingest metrics of every group, fetched in batches and matched
  back by query id, and the cost rows. Floating point and the CloudWatch metrics client are arguments; the table is not modelled.
\<close>

section \<open>Rows\<close>

record 'f plan_row =
  pr_log_group :: string
  pr_retention_days :: "int option"
  pr_stored_bytes :: nat
  pr_ingest_bytes_sampled :: 'f
  pr_ingest_bytes_monthly :: 'f
  pr_cw_storage_usd_month :: 'f
  pr_cw_ingest_usd_month :: 'f
  pr_cw_total_usd_month :: 'f
  pr_mode_a_s3_standard_usd_month :: 'f
  pr_mode_a_glacier_ir_usd_month :: 'f
  pr_mode_b_avoided_usd_month :: 'f
  pr_est_savings_usd_month :: 'f

definition gib_f64 :: "'f f64_ops \<Rightarrow> 'f \<Rightarrow> 'f" where
  "gib_f64 F x = f_div F x (f_of_u64 F (2 ^ 30))"

definition compute_row :: "'f f64_ops \<Rightarrow> string \<Rightarrow> int option \<Rightarrow> nat \<Rightarrow> 'f \<Rightarrow> nat \<Rightarrow> 'f plan_row" where
  "compute_row F name retention stored sampled ingest_days =
     (let monthly = f_mul F (f_div F sampled (f_of_u64 F (max ingest_days 1))) (f_lit F 30 0);
          cw_storage = f_mul F (gib_f64 F (f_of_u64 F stored)) (CW_STORAGE_USD_PER_GIB_MONTH F);
          cw_ingest = f_mul F (gib_f64 F monthly) (f_lit F 50 2);
          s3_std = f_mul F (f_mul F (gib_f64 F (f_of_u64 F stored)) (f_lit F 65 2)) (S3_STORAGE_USD_PER_GIB_MONTH F);
          glacier = f_mul F (f_mul F (gib_f64 F (f_of_u64 F stored)) (f_lit F 65 2)) (f_lit F 4 3);
          mode_b = f_mul F cw_ingest (f_lit F 9 1) in
      \<lparr>pr_log_group = name, pr_retention_days = retention, pr_stored_bytes = stored, pr_ingest_bytes_sampled = sampled,
       pr_ingest_bytes_monthly = monthly, pr_cw_storage_usd_month = cw_storage, pr_cw_ingest_usd_month = cw_ingest,
       pr_cw_total_usd_month = f_add F cw_storage cw_ingest, pr_mode_a_s3_standard_usd_month = s3_std,
       pr_mode_a_glacier_ir_usd_month = glacier, pr_mode_b_avoided_usd_month = mode_b,
       pr_est_savings_usd_month = f_add F (f_sub F cw_storage s3_std) mode_b\<rparr>)"

text \<open>\<^verbatim>\<open>sort_by\<close> is stable; \<open>before\<close> is the comparison giving \<^verbatim>\<open>Less\<close>, and \<open>lt\<close> that of \<^verbatim>\<open>f64::total_cmp\<close>.\<close>

fun insort_by :: "('a \<Rightarrow> 'a \<Rightarrow> bool) \<Rightarrow> 'a \<Rightarrow> 'a list \<Rightarrow> 'a list" where
  "insort_by before x [] = [x]"
| "insort_by before x (y # ys) = (if before y x then y # insort_by before x ys else x # y # ys)"

definition sort_by :: "('a \<Rightarrow> 'a \<Rightarrow> bool) \<Rightarrow> 'a list \<Rightarrow> 'a list" where
  "sort_by before xs = foldr (insort_by before) xs []"

definition costlier :: "('f \<Rightarrow> 'f \<Rightarrow> bool) \<Rightarrow> 'f plan_row \<Rightarrow> 'f plan_row \<Rightarrow> bool" where
  "costlier lt a b \<longleftrightarrow> lt (pr_cw_total_usd_month b) (pr_cw_total_usd_month a)
     \<or> \<not> lt (pr_cw_total_usd_month a) (pr_cw_total_usd_month b) \<and> pr_log_group a < pr_log_group b"

record 'f plan_summary =
  ps_scope :: string
  ps_top :: nat
  ps_groups :: "'f plan_row list"
  ps_total :: "'f plan_row"
  ps_ingest_days :: nat

definition plan_build_summary ::
    "'f f64_ops \<Rightarrow> ('f \<Rightarrow> 'f \<Rightarrow> bool) \<Rightarrow> string \<Rightarrow> 'f plan_row list \<Rightarrow> nat \<Rightarrow> nat \<Rightarrow> 'f plan_summary" where
  "plan_build_summary F lt scope rows ingest_days shown =
     (let sorted_rows = sort_by (costlier lt) rows in
      \<lparr>ps_scope = scope, ps_top = shown, ps_groups = sorted_rows,
       ps_total = compute_row F ''TOTAL'' None (sum_list (map pr_stored_bytes sorted_rows))
         (f_sum F (map pr_ingest_bytes_sampled sorted_rows)) ingest_days,
       ps_ingest_days = ingest_days\<rparr>)"

section \<open>Metrics\<close>

definition metric_batches :: "nat \<Rightarrow> nat \<Rightarrow> (nat \<times> nat) list" where
  "metric_batches n_groups per_call =
     (let per_call = max per_call 1 in
      map (\<lambda>i. (i * per_call, min (i * per_call + per_call) n_groups)) [0..<(n_groups + per_call - 1) div per_call])"

definition query_id :: "nat \<Rightarrow> string" where
  "query_id i = ''m'' @ show_nat i"

definition parse_query_id :: "string \<Rightarrow> nat option" where
  "parse_query_id s =
     (case strip_prefix ''m'' s of
        None \<Rightarrow> None
      | Some digits \<Rightarrow> if digits = [] \<or> \<not> list_all is_digit digits then None else parse_unsigned u64_MAX digits)"

record metric_query =
  mq_id :: string
  mq_metric_name :: string
  mq_log_group :: string
  mq_period :: nat

definition build_queries :: "string list \<Rightarrow> nat \<times> nat \<Rightarrow> nat \<Rightarrow> metric_query list" where
  "build_queries groups r period =
     map (\<lambda>i. \<lparr>mq_id = query_id i, mq_metric_name = ''IncomingBytes'', mq_log_group = groups ! i, mq_period = period\<rparr>) [fst r..<snd r]"

record 'f metric_result =
  mr_id :: "string option"
  mr_values :: "'f list option"

type_synonym 'f metrics_client =
  "metric_query list \<Rightarrow> int \<Rightarrow> int \<Rightarrow> string option \<Rightarrow> string + ('f metric_result list \<times> string option)"

definition result_index :: "'f metric_result \<Rightarrow> nat option" where
  "result_index r = Option.bind (mr_id r) parse_query_id"

definition result_sum :: "'f f64_ops \<Rightarrow> 'f metric_result \<Rightarrow> 'f" where
  "result_sum F r = f_sum F (case mr_values r of None \<Rightarrow> [] | Some vs \<Rightarrow> vs)"

definition absorb_result :: "'f f64_ops \<Rightarrow> 'f list \<Rightarrow> 'f metric_result \<Rightarrow> 'f list" where
  "absorb_result F sums r =
     (case result_index r of
        None \<Rightarrow> sums
      | Some idx \<Rightarrow> if idx < length sums then sums[idx := f_add F (sums ! idx) (result_sum F r)] else sums)"

partial_function (option) metric_pages ::
    "'f f64_ops \<Rightarrow> (string option \<Rightarrow> string + ('f metric_result list \<times> string option)) \<Rightarrow> string option \<Rightarrow> 'f list
     \<Rightarrow> (command_error + 'f list) option" where
  "metric_pages F call tok sums =
     (case call tok of
        Inl e \<Rightarrow> Some (Inl (GetMetricData e))
      | Inr (rs, next_token) \<Rightarrow>
          let sums' = foldl (absorb_result F) sums rs in
          (case next_token of None \<Rightarrow> Some (Inr sums') | Some t \<Rightarrow> metric_pages F call (Some t) sums'))"

definition METRIC_QUERIES_PER_CALL :: nat where "METRIC_QUERIES_PER_CALL = 500"

fun fetch_batches ::
    "'f f64_ops \<Rightarrow> 'f metrics_client \<Rightarrow> string list \<Rightarrow> int \<Rightarrow> int \<Rightarrow> (nat \<times> nat) list \<Rightarrow> 'f list \<Rightarrow> (command_error + 'f list) option" where
  "fetch_batches F cl groups start_s end_s [] sums = Some (Inr sums)"
| "fetch_batches F cl groups start_s end_s (r # rs) sums =
     (case metric_pages F (cl (build_queries groups r 86400) start_s end_s) None sums of
        None \<Rightarrow> None
      | Some (Inl e) \<Rightarrow> Some (Inl e)
      | Some (Inr sums') \<Rightarrow> fetch_batches F cl groups start_s end_s rs sums')"

definition fetch_ingest_sums ::
    "'f f64_ops \<Rightarrow> 'f metrics_client \<Rightarrow> string list \<Rightarrow> int \<Rightarrow> int \<Rightarrow> (command_error + 'f list) option" where
  "fetch_ingest_sums F cl groups start_s end_s =
     fetch_batches F cl groups start_s end_s (metric_batches (length groups) METRIC_QUERIES_PER_CALL)
       (replicate (length groups) (f_lit F 0 1))"

section \<open>The command\<close>

record plan_args =
  pa_log_group :: "string option"
  pa_all :: bool
  pa_ingest_days :: nat
  pa_top :: nat

definition plan_command ::
    "'f f64_ops \<Rightarrow> ('f \<Rightarrow> 'f \<Rightarrow> bool) \<Rightarrow> 'm globset \<Rightarrow> ('m group_selector \<Rightarrow> string) \<Rightarrow> 'c cw_source \<Rightarrow> 'f metrics_client \<Rightarrow> int
     \<Rightarrow> plan_args \<Rightarrow> (command_error + 'f plan_summary) option" where
  "plan_command F lt G describe cw cl now_s a =
     (case cli_selector G (pa_log_group a) (pa_all a) of
        Inl e \<Rightarrow> Some (Inl e)
      | Inr sel \<Rightarrow>
         (case discover_log_groups G cw sel of
            Inl e \<Rightarrow> Some (Inl (Discovering e))
          | Inr groups \<Rightarrow>
             (case (if groups = [] then Some (Inr [])
                    else fetch_ingest_sums F cl (map fst groups) (now_s - int (pa_ingest_days a) * 86400) now_s) of
                None \<Rightarrow> None
              | Some (Inl e) \<Rightarrow> Some (Inl e)
              | Some (Inr sums) \<Rightarrow>
                  let rows = map (\<lambda>((nm, info), sampled). compute_row F nm (lg_retention_days info)
                               (case lg_stored_bytes info of None \<Rightarrow> 0 | Some b \<Rightarrow> nat (max b 0)) sampled (pa_ingest_days a))
                             (zip groups sums) in
                  Some (Inr (plan_build_summary F lt (describe sel) rows (pa_ingest_days a) (pa_top a))))))"


section \<open>Batches and ids\<close>

lemma parse_query_id_roundtrip [simp]: "i \<le> u64_MAX \<Longrightarrow> parse_query_id (query_id i) = Some i"
proof -
  have "list_all is_digit (show_nat i)" using show_nat_digits by (auto simp: list_all_iff)
  then show "i \<le> u64_MAX \<Longrightarrow> parse_query_id (query_id i) = Some i"
    by (simp add: parse_query_id_def query_id_def strip_prefix_append parse_unsigned_show_nat del: append_Cons append_Nil)
qed

lemma batches_prefix:
  assumes "0 < p"
  shows "concat (map (\<lambda>i. [i * p..<min (i * p + p) n]) [0..<k]) = [0..<min (k * p) n]"
proof (induction k)
  case (Suc k)
  have "[0..<min (k * p) n] @ [k * p..<min (k * p + p) n] = [0..<min (k * p + p) n]"
  proof (cases "k * p \<le> n")
    case True
    then obtain d where "min (k * p + p) n = k * p + d" by (metis le_add1 le_iff_add min.boundedI)
    then show ?thesis using True upt_add_eq_append [of 0 "k * p" d] by (simp add: min_def)
  qed (simp add: min_def)
  with Suc show ?case by (simp add: add.commute)
qed simp

lemma batches_cover: "concat (map (\<lambda>r. [fst r..<snd r]) (metric_batches n p)) = [0..<n]"
proof -
  let ?p = "max p 1"
  have "n \<le> (n + ?p - 1) div ?p * ?p"
    using div_mult_mod_eq [of "n + ?p - 1" ?p] mod_less_divisor [of ?p "n + ?p - 1"] by linarith
  then show ?thesis
    using batches_prefix [of ?p n "(n + ?p - 1) div ?p"] by (simp add: metric_batches_def Let_def comp_def min_def)
qed

lemma batches_bounded: "r \<in> set (metric_batches n p) \<Longrightarrow> fst r < snd r \<and> snd r \<le> n \<and> snd r - fst r \<le> max p 1"
proof -
  let ?p = "max p 1"
  assume "r \<in> set (metric_batches n p)"
  then obtain i where i: "i < (n + ?p - 1) div ?p" "r = (i * ?p, min (i * ?p + ?p) n)"
    by (auto simp: metric_batches_def Let_def)
  then have "(i + 1) * ?p \<le> n + ?p - 1" by (metis Suc_eq_plus1 Suc_leI div_times_less_eq_dividend mult_le_mono1 order_trans)
  then have "i * ?p < n" by (simp add: algebra_simps)
  then show ?thesis using i(2) by (auto simp: min_def)
qed

section \<open>Pages\<close>

text \<open>The answers a call gives along its tokens.\<close>

fun token_chain :: "(string option \<Rightarrow> string + ('f metric_result list \<times> string option)) \<Rightarrow> string option \<Rightarrow> 'f metric_result list list \<Rightarrow> bool" where
  "token_chain call tok [] \<longleftrightarrow> False"
| "token_chain call tok (rs # pages) \<longleftrightarrow> (case call tok of
     Inl _ \<Rightarrow> False
   | Inr (rs', nxt) \<Rightarrow> rs = rs' \<and> (case nxt of None \<Rightarrow> pages = [] | Some t \<Rightarrow> token_chain call (Some t) pages))"

lemma pages_of_chain: "token_chain call tok pages \<Longrightarrow> metric_pages F call tok sums = Some (Inr (foldl (absorb_result F) sums (concat pages)))"
proof (induction pages arbitrary: tok sums)
  case (Cons rs pages)
  then show ?case by (subst metric_pages.simps) (auto simp: Let_def split: sum.splits option.splits)
qed simp

lemma chain_of_pages: "metric_pages F call tok sums = Some (Inr out) \<Longrightarrow> \<exists>pages. token_chain call tok pages"
proof -
  have "metric_pages F call tok sums = Some res \<Longrightarrow> is_ok res \<longrightarrow> (\<exists>pages. token_chain call tok pages)" for res
  proof (rule metric_pages.raw_induct [where P = "\<lambda>F call tok sums res. is_ok res \<longrightarrow> (\<exists>pages. token_chain call tok pages)"])
    fix mp :: "'a f64_ops \<Rightarrow> (string option \<Rightarrow> string + ('a metric_result list \<times> string option)) \<Rightarrow> string option \<Rightarrow> 'a list
       \<Rightarrow> (command_error + 'a list) option" and F call tok sums res
    assume IH: "\<And>F call tok sums res. mp F call tok sums = Some res \<Longrightarrow> is_ok res \<longrightarrow> (\<exists>pages. token_chain call tok pages)"
      and s: "(case call tok of Inl e \<Rightarrow> Some (Inl (GetMetricData e))
         | Inr (rs, next_token) \<Rightarrow> let sums' = foldl (absorb_result F) sums rs in
             (case next_token of None \<Rightarrow> Some (Inr sums') | Some t \<Rightarrow> mp F call (Some t) sums')) = Some res"
    show "is_ok res \<longrightarrow> (\<exists>pages. token_chain call tok pages)"
    proof
      assume o: "is_ok res"
      then obtain rs nxt where c: "call tok = Inr (rs, nxt)" using s by (auto split: sum.splits)
      show "\<exists>pages. token_chain call tok pages"
      proof (cases nxt)
        case None
        then have "token_chain call tok [rs]" using c by simp
        then show ?thesis ..
      next
        case (Some t)
        then have "mp F call (Some t) (foldl (absorb_result F) sums rs) = Some res" using s c by (simp add: Let_def)
        from IH [OF this] o obtain pages where "token_chain call (Some t) pages" by blast
        then have "token_chain call tok (rs # pages)" using c Some by simp
        then show ?thesis ..
      qed
    qed
  qed
  then show "metric_pages F call tok sums = Some (Inr out) \<Longrightarrow> \<exists>pages. token_chain call tok pages" by fastforce
qed

text \<open>The sum of one group after a sequence of answers.\<close>

definition sum_for :: "'f f64_ops \<Rightarrow> nat \<Rightarrow> 'f metric_result list \<Rightarrow> 'f \<Rightarrow> 'f" where
  "sum_for F i rs x = foldl (f_add F) x (map (result_sum F) (filter (\<lambda>r. result_index r = Some i) rs))"

lemma absorb_result_length [simp]: "length (absorb_result F sums r) = length sums"
  by (simp add: absorb_result_def split: option.splits)

lemma absorb_all: "length (foldl (absorb_result F) sums rs) = length sums
  \<and> (\<forall>i < length sums. foldl (absorb_result F) sums rs ! i = sum_for F i rs (sums ! i))"
proof (induction rs arbitrary: sums)
  case (Cons r rs)
  show ?case using Cons [of "absorb_result F sums r"]
    by (auto simp: sum_for_def absorb_result_def nth_list_update split: option.splits)
qed (simp add: sum_for_def)


lemma fetch_all:
  assumes "fetch_batches F cl groups a b rs sums = Some (Inr out)"
  shows "\<exists>answers. list_all2 (\<lambda>r pages. token_chain (cl (build_queries groups r 86400) a b) None pages) rs answers
    \<and> out = foldl (absorb_result F) sums (concat (map concat answers))"
  using assms
proof (induction rs arbitrary: sums)
  case (Cons r rs)
  then obtain sums' where p: "metric_pages F (cl (build_queries groups r 86400) a b) None sums = Some (Inr sums')"
    and f: "fetch_batches F cl groups a b rs sums' = Some (Inr out)"
    by (auto split: option.splits sum.splits)
  from chain_of_pages [OF p] obtain pages where c: "token_chain (cl (build_queries groups r 86400) a b) None pages" ..
  with p have s: "sums' = foldl (absorb_result F) sums (concat pages)" using pages_of_chain [OF c, of F sums] by simp
  from Cons.IH [OF f] obtain answers where
    "list_all2 (\<lambda>r pages. token_chain (cl (build_queries groups r 86400) a b) None pages) rs answers"
    "out = foldl (absorb_result F) sums' (concat (map concat answers))" by blast
  then have "list_all2 (\<lambda>r pages. token_chain (cl (build_queries groups r 86400) a b) None pages) (r # rs) (pages # answers)
    \<and> out = foldl (absorb_result F) sums (concat (map concat (pages # answers)))" using c s by simp
  then show ?case by blast
qed simp

lemma fetch_ends:
  assumes "list_all2 (\<lambda>r pages. token_chain (cl (build_queries groups r 86400) a b) None pages) rs answers"
  shows "fetch_batches F cl groups a b rs sums = Some (Inr (foldl (absorb_result F) sums (concat (map concat answers))))"
  using assms by (induction arbitrary: sums rule: list_all2_induct) (simp_all add: pages_of_chain)

lemma fetch_ok_iff:
  "(\<exists>sums. fetch_ingest_sums F cl groups a b = Some (Inr sums)) \<longleftrightarrow>
   (\<exists>answers. list_all2 (\<lambda>r pages. token_chain (cl (build_queries groups r 86400) a b) None pages)
      (metric_batches (length groups) METRIC_QUERIES_PER_CALL) answers)"
proof
  assume "\<exists>sums. fetch_ingest_sums F cl groups a b = Some (Inr sums)"
  then show "\<exists>answers. list_all2 (\<lambda>r pages. token_chain (cl (build_queries groups r 86400) a b) None pages)
      (metric_batches (length groups) METRIC_QUERIES_PER_CALL) answers"
    using fetch_all unfolding fetch_ingest_sums_def by blast
next
  assume "\<exists>answers. list_all2 (\<lambda>r pages. token_chain (cl (build_queries groups r 86400) a b) None pages)
      (metric_batches (length groups) METRIC_QUERIES_PER_CALL) answers"
  then show "\<exists>sums. fetch_ingest_sums F cl groups a b = Some (Inr sums)"
    using fetch_ends [where cl = cl and groups = groups and a = a and b = b] unfolding fetch_ingest_sums_def by blast
qed

section \<open>Properties\<close>

text \<open>
  Ingest metrics are asked once per group and matched back. The batches ask for every group exactly once, in order, in calls
  of one to five hundred queries, under ids that parse back to the group's position. When every call's tokens end, the fetch
  returns, and the figure of a group is the sum, in the order of arrival, of exactly the answers that carry its id.
\<close>

theorem ingest_sums_exact:
  assumes "length groups \<le> u64_MAX"
    and "list_all2 (\<lambda>r pages. token_chain (cl (build_queries groups r 86400) start_s end_s) None pages)
           (metric_batches (length groups) METRIC_QUERIES_PER_CALL) answers"
  shows "\<exists>sums. fetch_ingest_sums F cl groups start_s end_s = Some (Inr sums) \<and> length sums = length groups
      \<and> (\<forall>i < length groups. sums ! i = sum_for F i (concat (map concat answers)) (f_lit F 0 1))
      \<and> concat (map (\<lambda>r. map mq_log_group (build_queries groups r 86400)) (metric_batches (length groups) METRIC_QUERIES_PER_CALL)) = groups
      \<and> concat (map (\<lambda>r. map (\<lambda>q. parse_query_id (mq_id q)) (build_queries groups r 86400)) (metric_batches (length groups) METRIC_QUERIES_PER_CALL))
          = map Some [0..<length groups]
      \<and> (\<forall>r \<in> set (metric_batches (length groups) METRIC_QUERIES_PER_CALL).
            build_queries groups r 86400 \<noteq> [] \<and> length (build_queries groups r 86400) \<le> 500)"
proof -
  let ?bs = "metric_batches (length groups) METRIC_QUERIES_PER_CALL"
  have all: "concat (map (\<lambda>r. map f [fst r..<snd r]) ?bs) = map f [0..<length groups]" for f :: "nat \<Rightarrow> 'z"
    using arg_cong [OF batches_cover [of "length groups" METRIC_QUERIES_PER_CALL], of "map f"] by (simp add: map_concat comp_def)
  have "concat (map (\<lambda>r. map mq_log_group (build_queries groups r 86400)) ?bs) = groups"
    using all [of "(!) groups"] by (simp add: build_queries_def comp_def map_nth)
  moreover have "concat (map (\<lambda>r. map (\<lambda>q. parse_query_id (mq_id q)) (build_queries groups r 86400)) ?bs) = map Some [0..<length groups]"
    using all [of "\<lambda>i. parse_query_id (query_id i)"] assms(1) by (simp add: build_queries_def comp_def)
  moreover have "build_queries groups r 86400 \<noteq> [] \<and> length (build_queries groups r 86400) \<le> 500" if "r \<in> set ?bs" for r
    using batches_bounded [OF that] by (auto simp: build_queries_def METRIC_QUERIES_PER_CALL_def)
  ultimately show ?thesis
    using fetch_ends [where cl = cl and groups = groups and a = start_s and b = end_s, OF assms(2)] absorb_all [of F "replicate (length groups) (f_lit F 0 1)" "concat (map concat answers)"]
    by (auto simp: fetch_ingest_sums_def)
qed


text \<open>Two groups and a client that answers on two pages; numbers stand in for the floats.\<close>

definition nat_floats :: "nat f64_ops" where
  "nat_floats = \<lparr>f_of_u64 = id, f_lit = (\<lambda>n _. n), f_add = (+), f_sub = (-), f_mul = (*), f_div = (div), f_sum = sum_list\<rparr>"

definition two_pages :: "nat metrics_client" where
  "two_pages qs a b tok =
     (if tok = None then Inr ([\<lparr>mr_id = Some (query_id 1), mr_values = Some [3, 4]\<rparr>], Some ''t'')
      else Inr ([\<lparr>mr_id = Some (query_id 1), mr_values = Some [5]\<rparr>], None))"

theorem ingest_sums_exact_witness:
  "\<exists>sums. fetch_ingest_sums nat_floats two_pages [''g'', ''h''] 0 86400 = Some (Inr sums) \<and> sums ! 1 = 12"
proof -
  let ?answers = "[[[\<lparr>mr_id = Some (query_id 1), mr_values = Some [3, 4 :: nat]\<rparr>], [\<lparr>mr_id = Some (query_id 1), mr_values = Some [5]\<rparr>]]]"
  have u: "1 \<le> u64_MAX" "length [''g'', ''h''] \<le> u64_MAX" by (simp_all add: u64_MAX_def)
  have "list_all2 (\<lambda>r pages. token_chain (two_pages (build_queries [''g'', ''h''] r 86400) 0 86400) None pages)
      (metric_batches (length [''g'', ''h'']) METRIC_QUERIES_PER_CALL) ?answers"
    by (simp add: two_pages_def metric_batches_def METRIC_QUERIES_PER_CALL_def)
  from ingest_sums_exact [where cl = two_pages and start_s = 0 and end_s = 86400, OF u(2) this, of nat_floats] obtain sums where
    f: "fetch_ingest_sums nat_floats two_pages [''g'', ''h''] 0 86400 = Some (Inr sums)"
    and s: "\<forall>i < length [''g'', ''h'']. sums ! i = sum_for nat_floats i (concat (map concat ?answers)) (f_lit nat_floats 0 1)" by blast
  have "sums ! 1 = sum_for nat_floats 1 (concat (map concat ?answers)) (f_lit nat_floats 0 1)" using s by simp
  also have "\<dots> = 12" using u(1) by (simp add: sum_for_def result_index_def result_sum_def nat_floats_def)
  finally show ?thesis using f by blast
qed

end
