(* ===== verification/S4_Archive.thy ===== *)
theory S4_Archive
  imports S4_Drain S4_Restore
begin

text \<open>
  From CloudWatch to the reader: what a drain writes is what \<^verbatim>\<open>grep\<close> and \<^verbatim>\<open>restore\<close> later find. The bucket as the
  scan sees it (\<open>archived\<close> of \<open>S4_Scan\<close>) is an invariant of every step of a drain, which adds the records of
  each finished window to it.
\<close>

section \<open>The laws of the bucket and the codecs\<close>

definition get_missing :: "'s s3_client \<Rightarrow> string \<Rightarrow> ('s \<Rightarrow> string \<rightharpoonup> bytes) \<Rightarrow> bool" where
  "get_missing cl bkt objs \<longleftrightarrow> (\<forall>key s. objs s key = None \<longrightarrow> s3_get_object cl bkt key None s = Inl NoSuchKey)"

text \<open>The S4IX decoder never takes an encoded table for another one.\<close>

definition codec_safe :: "s4_codec \<Rightarrow> bool" where
  "codec_safe X \<longleftrightarrow> (\<forall>fi fi'. decode_index X (encode_index X fi) = Inr fi' \<longrightarrow> fi' = fi)"

definition archive_laws :: "s4_codec \<Rightarrow> 's s3_client \<Rightarrow> string \<Rightarrow> ('s \<Rightarrow> string \<rightharpoonup> bytes) \<Rightarrow> chunk_env \<Rightarrow> bool" where
  "archive_laws X cl bkt objs E \<longleftrightarrow> put_law cl bkt objs \<and> get_law cl bkt objs \<and> get_sound cl bkt objs \<and> get_missing cl bkt objs
     \<and> zstd_faithful E \<and> cend_ok (compressed_end X) \<and> SIDECAR_SUFFIX X = ''.s4index'' \<and> codec_safe X"

text \<open>The reader of the bucket a job writes to.\<close>

definition reader_of :: "s4_codec \<Rightarrow> 's s3_client \<Rightarrow> object_store \<Rightarrow> chunk_env \<Rightarrow> 'dt chrono \<Rightarrow> ('s, 'dt) scan_env" where
  "reader_of X cl b E T = \<lparr>sv_codec = X, sv_client = cl, sv_store = os_new (os_bucket b) (os_prefix b), sv_chunk = E,
     sv_chrono = T\<rparr>"

section \<open>Keys of different chunks\<close>

lemma loc_tail_inject: "wf_location l \<Longrightarrow> wf_location l' \<Longrightarrow> loc_tail l = loc_tail l' \<Longrightarrow> l = l'"
  using data_keys.enc_inject [of l l' "[]"] by (simp add: data_key_def)

lemma index_keys_apart: "index_key ''.s4index'' l p \<noteq> ts_index_key l' p"
proof
  assume "index_key ''.s4index'' l p = ts_index_key l' p"
  then have "last (loc_tail l @ ''.s4index'') = last (loc_tail l' @ TS_SIDECAR_SUFFIX)"
    by (simp add: index_key_def ts_index_key_def)
  then show False by (simp add: TS_SIDECAR_SUFFIX_def)
qed

lemma chunk_keys_apart:
  assumes "wf_location l" and "wf_location l'" and "l \<noteq> l'" and "SIDECAR_SUFFIX X = ''.s4index''"
  shows "chunk_keys X l p \<inter> chunk_keys X l' p = {}"
proof -
  have "loc_tail l \<noteq> loc_tail l'" using loc_tail_inject assms(1-3) by blast
  then show ?thesis
    using index_keys_apart [of l p l'] index_keys_apart [of l' p l] assms(4) seg_differ(1,2) [of l p] seg_differ(1,2) [of l' p]
    by (auto simp: chunk_keys_def data_key_def index_key_def ts_index_key_def)
qed

lemma sidecar_not_data: "\<not> starts_with (data_group_prefix p a g) (index_key sfx l p)"
  "\<not> starts_with (data_group_prefix p a g) (ts_index_key l p)" "\<not> starts_with (data_group_prefix p a g) (manifest_key p a' g' s e)"
  by (simp_all add: starts_with_def data_group_prefix_def index_key_def ts_index_key_def manifest_key_def DATA_SEG_def INDEX_SEG_def
      MANIFEST_SEG_def take_Cons split: nat.split)

section \<open>Reading depends on the objects only\<close>

lemma get_bytes_cong:
  assumes "get_law cl (os_bucket st) objs" and "get_missing cl (os_bucket st) objs" and "objs s' k = objs s k"
  shows "get_bytes cl st k s' = get_bytes cl st k s"
  using assms by (cases "objs s k") (simp_all add: get_bytes_stored, simp_all add: get_missing_def get_bytes_def)

lemma chunk_at_cong:
  assumes g: "get_law (sv_client V) (os_bucket (sv_store V)) objs" "get_missing (sv_client V) (os_bucket (sv_store V)) objs"
    and k: "\<And>k. k \<in> chunk_keys (sv_codec V) l (os_prefix (sv_store V)) \<Longrightarrow> objs s' k = objs s k"
  shows "chunk_at V objs s' l rs = chunk_at V objs s l rs"
proof -
  have "get_bytes (sv_client V) (sv_store V) (index_key (SIDECAR_SUFFIX (sv_codec V)) l (os_prefix (sv_store V))) s'
      = get_bytes (sv_client V) (sv_store V) (index_key (SIDECAR_SUFFIX (sv_codec V)) l (os_prefix (sv_store V))) s"
    and "get_bytes (sv_client V) (sv_store V) (ts_index_key l (os_prefix (sv_store V))) s'
      = get_bytes (sv_client V) (sv_store V) (ts_index_key l (os_prefix (sv_store V))) s"
    by (auto intro!: get_bytes_cong [OF g] k simp: chunk_keys_def)
  then have "load_indexes (sv_codec V) (sv_client V) (sv_store V) l s' = load_indexes (sv_codec V) (sv_client V) (sv_store V) l s"
    unfolding load_indexes_def by (simp only:)
  moreover have "objs s' (data_key l (os_prefix (sv_store V))) = objs s (data_key l (os_prefix (sv_store V)))"
    by (rule k) (simp add: chunk_keys_def)
  ultimately show ?thesis unfolding chunk_at_def by simp
qed

section \<open>A stored chunk\<close>

lemma decode_ts_index_own: 
  assumes "\<forall>e \<in> set (ts_entries idx). wf_ts_entry e" and "decode_ts_index (encode_ts_index idx) = Inr idx'"
  shows "idx' = idx"
proof -
  have i: "wf_ts_index idx'" "encode_ts_index idx' = encode_ts_index idx" using decode_ts_index_sound [OF assms(2)] by auto
  have "length (encode_ts_index i) = 16 + 16 * length (ts_entries i)" for i
    by (simp add: encode_ts_index_def TS_INDEX_MAGIC_def)
  then have "length (ts_entries idx') = length (ts_entries idx)" using i(2) by (metis add_left_cancel mult_left_cancel zero_neq_numeral)
  then have "wf_ts_index idx" using i(1) assms(1) by (simp add: wf_ts_index_def)
  then show ?thesis using decode_encode_ts_index assms(2) by simp
qed

definition chunk_fit :: "chunk_env \<Rightarrow> log_record list \<Rightarrow> bool" where
  "chunk_fit E rs \<longleftrightarrow> jsonl_faithful (json E) rs \<and> (\<forall>r \<in> set rs. is_i64 (timestamp r) \<and> json_closed (json E) r)
     \<and> length (jsonl_text (json E) rs) \<le> FALLBACK_DECODE_CAP_BYTES"

lemma chunk_ts_entries_wf:
  assumes h: "chunk_holds E level ch fs zs" and t: "\<forall>r \<in> set (concat fs). is_i64 (timestamp r)"
  shows "\<forall>e \<in> set (ts_entries (chunk_ts_index ch)). wf_ts_entry e"
proof -
  have "wf_ts_entry (ts_range f)" if "f \<in> set fs" for f
  proof -
    have "f \<noteq> []" using h that by (auto simp: chunk_holds_def frame_of_def list_all2_conv_all_nth in_set_conv_nth)
    then obtain r where r: "r \<in> set f" by (cases f) auto
    then have "is_i64 (timestamp r)" using t that by auto
    moreover have "i64_MIN \<le> ts_min f" "ts_max f \<le> i64_MAX"
      using t that by (auto simp: ts_min_def ts_max_def is_i64_def i64_MIN_def i64_MAX_def)
    ultimately show ?thesis using ts_min_le [OF r] ts_max_ge [OF r] by (auto simp: wf_ts_entry_def ts_range_def is_i64_def)
  qed
  then show ?thesis using h by (auto simp: chunk_holds_def)
qed

text \<open>A data object is read back whatever became of its sidecars, as long as they are its own or missing.\<close>

lemma chunk_at_sidecars:
  assumes L: "archive_laws X cl (os_bucket b) objs E" and np: "norm_prefix (os_prefix b) = os_prefix b"
    and h: "chunk_holds E level ch fs zs" and f: "chunk_fit E (concat fs)"
    and dk: "objs s (data_key loc (os_prefix b)) = Some (chunk_body ch)"
    and ik: "objs s (index_key ''.s4index'' loc (os_prefix b)) = None
      \<or> (\<exists>etag. objs s (index_key ''.s4index'' loc (os_prefix b)) = Some (encode_index X (stamp ch etag)))"
    and tk: "objs s (ts_index_key loc (os_prefix b)) = None
      \<or> objs s (ts_index_key loc (os_prefix b)) = Some (encode_ts_index (chunk_ts_index ch))"
  shows "chunk_at (reader_of X cl b E T) objs s loc (concat fs)"
proof -
  let ?st = "sv_store (reader_of X cl b E T)"
  have st: "os_bucket ?st = os_bucket b" "os_prefix ?st = os_prefix b" using np by (simp_all add: reader_of_def os_new_def)
  have g: "get_law cl (os_bucket ?st) objs" "get_missing cl (os_bucket ?st) objs" and sfx: "SIDECAR_SUFFIX X = ''.s4index''"
    and cs: "codec_safe X" using L st by (simp_all add: archive_laws_def)
  have read: "get_bytes cl ?st k s = (case objs s k of None \<Rightarrow> Inl (NotFound k) | Some x \<Rightarrow> Inr x)" for k
    using g by (cases "objs s k") (simp_all add: get_bytes_stored, simp add: get_missing_def get_bytes_def)
  have ts: "ti = chunk_ts_index ch" if "decode_ts_index (encode_ts_index (chunk_ts_index ch)) = Inr ti" for ti
    using decode_ts_index_own [OF chunk_ts_entries_wf [OF h] that] f by (auto simp: chunk_fit_def)
  have "case load_indexes X cl ?st loc s of Inl e \<Rightarrow> \<not> is_aws e | Inr (fi, ti) \<Rightarrow> ti = chunk_ts_index ch \<and> (\<exists>etag. fi = stamp ch etag)"
    using ik
  proof
    assume "objs s (index_key ''.s4index'' loc (os_prefix b)) = None"
    then show ?thesis by (simp add: load_indexes_def read st sfx)
  next
    assume "\<exists>etag. objs s (index_key ''.s4index'' loc (os_prefix b)) = Some (encode_index X (stamp ch etag))"
    then obtain etag where e: "objs s (index_key ''.s4index'' loc (os_prefix b)) = Some (encode_index X (stamp ch etag))" ..
    show ?thesis
    proof (cases "decode_index X (encode_index X (stamp ch etag))")
      case (Inr fi)
      then have "fi = stamp ch etag" using cs by (simp add: codec_safe_def)
      then show ?thesis using Inr e tk ts by (auto simp: load_indexes_def read st sfx split: sum.split)
    qed (simp add: load_indexes_def read st sfx e)
  qed
  then show ?thesis
    using h f dk st unfolding chunk_at_def chunk_fit_def reader_of_def
    by (intro exI [of _ level] exI [of _ ch] exI [of _ fs] exI [of _ zs]) simp
qed

lemma put_chunk_at:
  assumes L: "archive_laws X cl (os_bucket b) objs E" and np: "norm_prefix (os_prefix b) = os_prefix b"
    and h: "chunk_holds E level ch fs zs" and f: "chunk_fit E (concat fs)"
    and put: "os_put_chunk X cl b loc ch s = (s', Inr r)"
  shows "chunk_at (reader_of X cl b E T) objs s' loc (concat fs)"
proof -
  have p: "put_law cl (os_bucket b) objs" and sfx: "SIDECAR_SUFFIX X = ''.s4index''" using L by (simp_all add: archive_laws_def)
  show ?thesis
    by (rule chunk_at_sidecars [OF L np h f])
      (use os_put_chunk_Inr [OF p put] os_put_chunk_data [OF p put] sfx
        in \<open>auto simp: encode_sidecars_def Let_def TS_SIDECAR_SUFFIX_def stamp_def\<close>)
qed

text \<open>A put that failed half-way under keys not used before leaves either no data object or a readable one.\<close>

lemma put_values:
  assumes L: "archive_laws X cl (os_bucket b) objs E"
    and put: "os_put_chunk X cl b loc ch s = (s', res)" and new: "\<forall>k \<in> chunk_keys X loc (os_prefix b). objs s k = None"
    and dk: "objs s' (data_key loc (os_prefix b)) \<noteq> None"
  shows "objs s' (data_key loc (os_prefix b)) = Some (chunk_body ch)"
    and "objs s' (index_key ''.s4index'' loc (os_prefix b)) = None
      \<or> (\<exists>etag. objs s' (index_key ''.s4index'' loc (os_prefix b)) = Some (encode_index X (stamp ch etag)))"
    and "objs s' (ts_index_key loc (os_prefix b)) = None
      \<or> objs s' (ts_index_key loc (os_prefix b)) = Some (encode_ts_index (chunk_ts_index ch))"
proof -
  have p: "put_law cl (os_bucket b) objs" and sfx: "SIDECAR_SUFFIX X = ''.s4index''" using L by (simp_all add: archive_laws_def)
  let ?d = "data_key loc (os_prefix b)" and ?i = "index_key ''.s4index'' loc (os_prefix b)" and ?t = "ts_index_key loc (os_prefix b)"
  have none: "objs s ?d = None" "objs s ?i = None" "objs s ?t = None" using new sfx by (simp_all add: chunk_keys_def)
  have apart: "?d \<noteq> ?i" "?d \<noteq> ?t" "?i \<noteq> ?t" using seg_differ index_keys_apart by metis+
  have side: "fst (encode_sidecars X ch etag) = encode_index X (stamp ch etag)" "snd (encode_sidecars X ch etag) = encode_ts_index (chunk_ts_index ch)" for etag
    by (simp_all add: encode_sidecars_def Let_def stamp_def)
  note fr = put_object_inner_frame [OF p]
  from put have "objs s' ?d = Some (chunk_body ch) \<and> (objs s' ?i = None \<or> (\<exists>etag. objs s' ?i = Some (encode_index X (stamp ch etag))))
    \<and> (objs s' ?t = None \<or> objs s' ?t = Some (encode_ts_index (chunk_ts_index ch)))"
  proof (cases rule: os_put_chunk_cases)
    case (data e)
    note q = fr [OF data(1) [unfolded put_ops]]
    show ?thesis using q(3) q(1) [of ?i] q(1) [of ?t] dk none apart by auto
  next
    case (index s1 etag e)
    note q1 = fr [OF index(1) [unfolded put_ops]] and q2 = fr [OF index(2) [unfolded put_ops]]
    show ?thesis using q1(2) q1(1) [of ?i] q1(1) [of ?t] q2(1) [of ?d] q2(3) q2(1) [of ?t] none apart side by (auto simp: sfx)
  next
    case (ts s1 s2 etag et r)
    note q1 = fr [OF ts(1) [unfolded put_ops]] and q2 = fr [OF ts(2) [unfolded put_ops]] and q3 = fr [OF ts(3) [unfolded put_ops]]
    show ?thesis
      using q1(2) q1(1) [of ?i] q1(1) [of ?t] q2(1) [of ?d] q2(2) q2(1) [of ?t] q3(1) [of ?d] q3(1) [of ?i] q3(3) none apart side
      by (auto simp: sfx)
  qed
  then show "objs s' ?d = Some (chunk_body ch)" and "objs s' ?i = None \<or> (\<exists>etag. objs s' ?i = Some (encode_index X (stamp ch etag)))"
    and "objs s' ?t = None \<or> objs s' ?t = Some (encode_ts_index (chunk_ts_index ch))" by blast+
qed

lemma put_chunk_attempt:
  assumes L: "archive_laws X cl (os_bucket b) objs E" and np: "norm_prefix (os_prefix b) = os_prefix b"
    and h: "chunk_holds E level ch fs zs" and f: "chunk_fit E (concat fs)"
    and "os_put_chunk X cl b loc ch s = (s', res)" and "\<forall>k \<in> chunk_keys X loc (os_prefix b). objs s k = None"
    and "objs s' (data_key loc (os_prefix b)) \<noteq> None"
  shows "chunk_at (reader_of X cl b E T) objs s' loc (concat fs)"
  by (rule chunk_at_sidecars [OF L np h f put_values [OF L assms(5-7)]])

section \<open>The group's part of the bucket\<close>

text \<open>The chunks at \<open>locs\<close> are all there is of the group, and together they hold the records \<open>M\<close>.\<close>

definition holds_records ::
    "('s, 'dt) scan_env \<Rightarrow> ('s \<Rightarrow> string \<rightharpoonup> bytes) \<Rightarrow> 's \<Rightarrow> string \<Rightarrow> string \<Rightarrow> chunk_location list \<Rightarrow> log_record multiset \<Rightarrow> bool" where
  "holds_records V objs s acct g locs M \<longleftrightarrow> (\<exists>A. archived V objs s acct g locs A \<and> mset (concat (map A locs)) = M)"

lemma reader_of_simps [simp]:
  "sv_codec (reader_of X cl b E T) = X" "sv_client (reader_of X cl b E T) = cl" "sv_chunk (reader_of X cl b E T) = E"
  "sv_chrono (reader_of X cl b E T) = T" "os_bucket (sv_store (reader_of X cl b E T)) = os_bucket b"
  "os_prefix (sv_store (reader_of X cl b E T)) = norm_prefix (os_prefix b)"
  by (simp_all add: reader_of_def os_new_def)

lemma archived_frame:
  assumes L: "archive_laws X cl (os_bucket b) objs E" and np: "norm_prefix (os_prefix b) = os_prefix b"
    and a: "archived (reader_of X cl b E T) objs s acct g locs A"
    and k: "\<And>k. (\<exists>l \<in> set locs. k \<in> chunk_keys X l (os_prefix b)) \<or> starts_with (data_group_prefix (os_prefix b) acct g) k \<Longrightarrow> objs s' k = objs s k"
  shows "archived (reader_of X cl b E T) objs s' acct g locs A"
proof -
  have "{k \<in> dom (objs s'). starts_with (data_group_prefix (os_prefix b) acct g) k}
      = {k \<in> dom (objs s). starts_with (data_group_prefix (os_prefix b) acct g) k}" using k by (auto simp: domIff)
  moreover have "chunk_at (reader_of X cl b E T) objs s' l rs = chunk_at (reader_of X cl b E T) objs s l rs" if "l \<in> set locs" for l rs
    using L np k that by (intro chunk_at_cong) (auto simp: archive_laws_def)
  ultimately show ?thesis using a np by (simp add: archived_def)
qed

lemma archived_add:
  assumes L: "archive_laws X cl (os_bucket b) objs E" and np: "norm_prefix (os_prefix b) = os_prefix b"
    and A: "archived (reader_of X cl b E T) objs s (account loc) (log_group loc) locs A"
    and w: "wf_location loc" and fresh: "loc \<notin> set locs"
    and keep: "\<And>k. k \<notin> chunk_keys X loc (os_prefix b) \<Longrightarrow> objs s' k = objs s k"
    and new: "chunk_at (reader_of X cl b E T) objs s' loc rs" and d: "\<forall>r \<in> set rs. date_from_ts_ms T (timestamp r) = date loc"
  shows "archived (reader_of X cl b E T) objs s' (account loc) (log_group loc) (locs @ [loc]) (A(loc := rs))"
proof -
  let ?V = "reader_of X cl b E T" and ?p = "os_prefix b"
  have sfx: "SIDECAR_SUFFIX X = ''.s4index''" using L by (simp add: archive_laws_def)
  have wl: "\<forall>l \<in> set locs. wf_location l" using A by (simp add: archived_def)
  have "objs s' k = objs s k" if "l \<in> set locs" "k \<in> chunk_keys X l ?p" for l k
    using keep [of k] chunk_keys_apart [OF w _ _ sfx, of l ?p] wl that fresh by blast
  then have old: "chunk_at ?V objs s' l rs = chunk_at ?V objs s l rs" if "l \<in> set locs" for l rs
    using L np that by (intro chunk_at_cong) (auto simp: archive_laws_def)
  have dk: "objs s' (data_key loc ?p) \<noteq> None" using new np by (auto simp: chunk_at_def)
  have in_grp: "starts_with (data_group_prefix ?p (account loc) (log_group loc)) (data_key loc ?p)"
    by (simp add: data_key_in_group starts_with_append)
  have "{k \<in> dom (objs s'). starts_with (data_group_prefix ?p (account loc) (log_group loc)) k}
      = insert (data_key loc ?p) {k \<in> dom (objs s). starts_with (data_group_prefix ?p (account loc) (log_group loc)) k}"
  proof (intro set_eqI)
    fix k
    show "k \<in> {k \<in> dom (objs s'). starts_with (data_group_prefix ?p (account loc) (log_group loc)) k}
      \<longleftrightarrow> k \<in> insert (data_key loc ?p) {k \<in> dom (objs s). starts_with (data_group_prefix ?p (account loc) (log_group loc)) k}"
    proof (cases "k \<in> chunk_keys X loc ?p")
      case True
      then show ?thesis using dk in_grp sidecar_not_data [of ?p "account loc" "log_group loc"] by (auto simp: chunk_keys_def)
    next
      case False
      then show ?thesis using keep [OF False] by (auto simp: chunk_keys_def domIff)
    qed
  qed
  also have "\<dots> = (\<lambda>l. data_key l ?p) ` set (locs @ [loc])" using A np by (simp add: archived_def)
  finally show ?thesis using A old new fresh w d np unfolding archived_def by auto
qed

lemma archived_put:
  assumes L: "archive_laws X cl (os_bucket b) objs E" and np: "norm_prefix (os_prefix b) = os_prefix b"
    and a: "holds_records (reader_of X cl b E T) objs s (account loc) (log_group loc) locs M"
    and w: "wf_location loc" and fresh: "loc \<notin> set locs"
    and h: "chunk_holds E level ch fs zs" and f: "chunk_fit E (concat fs)"
    and d: "\<forall>r \<in> set (concat fs). date_from_ts_ms T (timestamp r) = date loc"
    and put: "os_put_chunk X cl b loc ch s = (s', Inr r)"
  shows "holds_records (reader_of X cl b E T) objs s' (account loc) (log_group loc) (locs @ [loc]) (M + mset (concat fs))"
proof -
  from a obtain A where A: "archived (reader_of X cl b E T) objs s (account loc) (log_group loc) locs A" "mset (concat (map A locs)) = M"
    by (auto simp: holds_records_def)
  have p: "put_law cl (os_bucket b) objs" using L by (simp add: archive_laws_def)
  have "archived (reader_of X cl b E T) objs s' (account loc) (log_group loc) (locs @ [loc]) (A(loc := concat fs))"
    by (rule archived_add [OF L np A(1) w fresh _ put_chunk_at [OF L np h f put] d]) (rule os_put_chunk_frame [OF p put])
  moreover have "map (A(loc := concat fs)) (locs @ [loc]) = map A locs @ [concat fs]" using fresh by auto
  then have "mset (concat (map (A(loc := concat fs)) (locs @ [loc]))) = M + mset (concat fs)" using A(2) by (simp only:) simp
  ultimately show ?thesis unfolding holds_records_def by blast
qed

lemma holds_records_frame:
  assumes "archive_laws X cl (os_bucket b) objs E" and "norm_prefix (os_prefix b) = os_prefix b"
    and "holds_records (reader_of X cl b E T) objs s acct g locs M"
    and "\<And>k. k \<noteq> manifest_key (os_prefix b) acct' g' ws we \<Longrightarrow> objs s' k = objs s k"
  shows "holds_records (reader_of X cl b E T) objs s' acct g locs M"
proof -
  from assms(3) obtain A where A: "archived (reader_of X cl b E T) objs s acct g locs A" "mset (concat (map A locs)) = M"
    by (auto simp: holds_records_def)
  have "archived (reader_of X cl b E T) objs s' acct g locs A"
  proof (rule archived_frame [OF assms(1,2) A(1)])
    fix k assume "(\<exists>l \<in> set locs. k \<in> chunk_keys X l (os_prefix b)) \<or> starts_with (data_group_prefix (os_prefix b) acct g) k"
    then have "k \<noteq> manifest_key (os_prefix b) acct' g' ws we"
      using manifest_key_not_chunk [of "os_prefix b" acct' g' ws we X] sidecar_not_data(3) [of "os_prefix b" acct g acct' g' ws we] by auto
    then show "objs s' k = objs s k" by (rule assms(4))
  qed
  then show ?thesis using A(2) by (auto simp: holds_records_def)
qed


section \<open>One window\<close>

text \<open>What a record must satisfy to be archived readably; \<open>lim\<close> bounds its line.\<close>

definition ok_record :: "chunk_env \<Rightarrow> nat \<Rightarrow> log_record \<Rightarrow> bool" where
  "ok_record E lim r \<longleftrightarrow> json_faithful (json E) r \<and> json_closed (json E) r \<and> is_i64 (timestamp r)
     \<and> length (jsonl_line (json E) r) \<le> lim"

lemma fit_records:
  "\<forall>r \<in> set rs. ok_record E lim r \<Longrightarrow> length (jsonl_text (json E) rs) \<le> FALLBACK_DECODE_CAP_BYTES \<Longrightarrow> chunk_fit E rs"
  by (auto simp: chunk_fit_def ok_record_def jsonl_faithful_def)

lemma s3_drain_env_more [simp]:
  "d_put (s3_drain_env X cl b D) = os_put_chunk X cl b" "d_chrono (s3_drain_env X cl b D) = d_chrono D"
  "d_manifests (s3_drain_env X cl b D) = object_manifest_store cl b"
  by (simp_all add: s3_drain_env_def)

lemma writer_finished:
  assumes "writer_has E wr pd" and "cw_finish E wr = Inr res"
  shows "case res of None \<Rightarrow> pd = [] | Some ch \<Rightarrow> \<exists>level fs zs. chunk_holds E level ch fs zs \<and> concat fs = pd"
proof -
  from assms(1) obtain fs zs p where "writer_holds E wr fs zs p" "concat fs @ p = pd" by (auto simp: writer_has_def)
  with cw_encode_holds [OF this(1) assms(2) [unfolded cw_finish_def]] show ?thesis by (cases res) auto
qed

definition window_locs :: "drain_options \<Rightarrow> window_writer \<Rightarrow> chunk_location list" where
  "window_locs opts ww = map (seq_location opts ww) [0..<ww_seq ww]"

text \<open>The window writer's part of a scan's view: \<open>locs\<close> and \<open>M\<close> are those of the windows before.\<close>

definition window_holds ::
    "('s, 'dt) scan_env \<Rightarrow> ('s \<Rightarrow> string \<rightharpoonup> bytes) \<Rightarrow> drain_options \<Rightarrow> chunk_location list \<Rightarrow> log_record multiset
     \<Rightarrow> window_writer \<Rightarrow> 's \<Rightarrow> log_record list \<Rightarrow> bool" where
  "window_holds V objs opts locs M ww s rs \<longleftrightarrow> names_ok opts ww \<and> (\<forall>i. seq_location opts ww i \<notin> set locs)
     \<and> (\<exists>fl pd. holds_records V objs s (o_account opts) (o_log_group opts) (locs @ window_locs opts ww) (M + mset fl)
          \<and> writer_has (sv_chunk V) (ww_writer ww) pd \<and> length (jsonl_text (json (sv_chunk V)) pd) < o_chunk_target_bytes opts
          \<and> fl @ pd = rs)"

lemma window_holdsI:
  assumes "names_ok opts ww" and "\<forall>i. seq_location opts ww i \<notin> set locs"
    and "holds_records V objs s (o_account opts) (o_log_group opts) (locs @ window_locs opts ww) (M + mset fl)"
    and "writer_has (sv_chunk V) (ww_writer ww) pd" and "length (jsonl_text (json (sv_chunk V)) pd) < o_chunk_target_bytes opts"
  shows "window_holds V objs opts locs M ww s (fl @ pd)"
  using assms unfolding window_holds_def by blast

lemma flush_window:
  assumes L: "archive_laws X cl (os_bucket b) objs (d_chunk D)" and np: "norm_prefix (os_prefix b) = os_prefix b"
    and nd: "\<not> o_dry_run opts" and n: "names_ok opts ww" and fresh: "\<forall>i. seq_location opts ww i \<notin> set locs"
    and h: "holds_records (reader_of X cl b (d_chunk D) (d_chrono D)) objs (ds_store st) (o_account opts) (o_log_group opts) (locs @ window_locs opts ww) M"
    and w: "writer_has (d_chunk D) wr pd" and fit: "chunk_fit (d_chunk D) pd"
    and d: "\<forall>r \<in> set pd. date_from_ts_ms (d_chrono D) (timestamp r) = ww_date ww"
    and f: "ww_flush (s3_drain_env X cl b D) opts ww wr st = (ww', st', Inr u)"
  shows "holds_records (reader_of X cl b (d_chunk D) (d_chrono D)) objs (ds_store st') (o_account opts) (o_log_group opts) (locs @ window_locs opts ww') (M + mset pd)
    \<and> names_ok opts ww' \<and> seq_location opts ww' = seq_location opts ww \<and> ww_writer ww' = ww_writer ww \<and> ww_date ww' = ww_date ww"
proof -
  obtain res where res: "cw_finish (d_chunk D) wr = Inr res"
    using f by (cases "cw_finish (d_chunk D) wr") (auto simp: ww_flush_def)
  note fin = writer_finished [OF w res]
  show ?thesis
  proof (cases res)
    case None
    then show ?thesis using fin f h n res by (auto simp: ww_flush_def)
  next
    case (Some ch)
    let ?loc = "seq_location opts ww (ww_seq ww)"
    have loc: "ww_location opts (ww\<lparr>ww_records := x, ww_raw_bytes := y, ww_compressed_bytes := z\<rparr>) = ?loc" for x y z
      by (simp add: seq_location_def ww_location_def)
    from f obtain s1 r where p: "os_put_chunk X cl b ?loc ch (ds_store st) = (s1, Inr r)"
      by (cases "os_put_chunk X cl b ?loc ch (ds_store st)")
        (auto simp: ww_flush_def res Some Let_def nd loc split: sum.splits)
    have s1: "ds_store st' = s1" and ww': "ww_seq ww' = ww_seq ww + 1" "ww_writer ww' = ww_writer ww" "ww_date ww' = ww_date ww"
      "ww_naming ww' = ww_naming ww" "ww_window_start_ms ww' = ww_window_start_ms ww"
      using f p by (auto simp: ww_flush_def res Some Let_def nd loc)
    have sl: "seq_location opts ww' = seq_location opts ww" by (simp add: ww' seq_location_def ww_location_def fun_eq_iff)
    from fin Some obtain level fs zs where c: "chunk_holds (d_chunk D) level ch fs zs" "concat fs = pd" by auto
    have l: "account ?loc = o_account opts" "log_group ?loc = o_log_group opts" "date ?loc = ww_date ww"
      by (simp_all add: seq_location_def ww_location_def)
    have new: "?loc \<notin> set (locs @ window_locs opts ww)"
      using fresh by (auto simp: window_locs_def dest: seq_location_inject [OF n])
    have hl: "holds_records (reader_of X cl b (d_chunk D) (d_chrono D)) objs (ds_store st) (account ?loc) (log_group ?loc) (locs @ window_locs opts ww) M"
      using h l by simp
    have "holds_records (reader_of X cl b (d_chunk D) (d_chrono D)) objs s1 (account ?loc) (log_group ?loc) ((locs @ window_locs opts ww) @ [?loc]) (M + mset (concat fs))"
      by (rule archived_put [OF L np hl seq_location_wf [OF n] new c(1) _ _ p]) (use fit d c(2) l in auto)
    moreover have "window_locs opts ww' = window_locs opts ww @ [?loc]" by (simp add: window_locs_def sl ww')
    ultimately show ?thesis using s1 l c(2) sl ww' n by (simp add: names_ok_def)
  qed
qed

lemma push_window:
  assumes L: "archive_laws X cl (os_bucket b) objs (d_chunk D)" and np: "norm_prefix (os_prefix b) = os_prefix b"
    and nd: "\<not> o_dry_run opts" and cap: "o_chunk_target_bytes opts + lim \<le> FALLBACK_DECODE_CAP_BYTES"
    and h: "window_holds (reader_of X cl b (d_chunk D) (d_chrono D)) objs opts locs M ww (ds_store st) rs"
    and ok: "\<forall>r \<in> set (rs @ [r]). ok_record (d_chunk D) lim r \<and> date_from_ts_ms (d_chrono D) (timestamp r) = ww_date ww"
    and pos: "0 < o_chunk_target_bytes opts"
    and f: "ww_push (s3_drain_env X cl b D) opts r ww st = (ww', st', Inr u)"
  shows "window_holds (reader_of X cl b (d_chunk D) (d_chrono D)) objs opts locs M ww' (ds_store st') (rs @ [r])
    \<and> ww_date ww' = ww_date ww \<and> seq_location opts ww' = seq_location opts ww"
proof -
  from h obtain fl pd where n: "names_ok opts ww" and fr: "\<forall>i. seq_location opts ww i \<notin> set locs"
    and hr: "holds_records (reader_of X cl b (d_chunk D) (d_chrono D)) objs (ds_store st) (o_account opts) (o_log_group opts) (locs @ window_locs opts ww) (M + mset fl)"
    and w: "writer_has (d_chunk D) (ww_writer ww) pd" and t: "length (jsonl_text (json (d_chunk D)) pd) < o_chunk_target_bytes opts"
    and rs: "fl @ pd = rs" by (auto simp: window_holds_def)
  obtain wr where p: "cw_push (d_chunk D) r (ww_writer ww) = (wr, Inr ())"
    using f by (cases "cw_push (d_chunk D) r (ww_writer ww)") (auto simp: ww_push_def split: sum.splits)
  note w' = writer_has_push [OF w p]
  have tx: "length (jsonl_text (json (d_chunk D)) (pd @ [r])) \<le> FALLBACK_DECODE_CAP_BYTES"
    using t cap ok by (auto simp: ok_record_def)
  have fit: "chunk_fit (d_chunk D) (pd @ [r])" using ok rs by (intro fit_records [OF _ tx, of lim]) auto
  show ?thesis
  proof (cases "uncompressed_len wr \<ge> o_chunk_target_bytes opts")
    case True
    let ?ww = "ww\<lparr>ww_writer := cw_new (o_chunk opts)\<rparr>"
    have same: "seq_location opts ?ww = seq_location opts ww" "window_locs opts ?ww = window_locs opts ww" "names_ok opts ?ww"
      using n by (simp_all add: seq_location_def ww_location_def window_locs_def names_ok_def fun_eq_iff)
    have fl: "ww_flush (s3_drain_env X cl b D) opts ?ww wr st = (ww', st', Inr u)"
      using f p True by (simp add: ww_push_def)
    from flush_window [OF L np nd same(3) _ _ w' fit _ fl, of locs "M + mset fl"] hr fr ok rs same
    have "holds_records (reader_of X cl b (d_chunk D) (d_chrono D)) objs (ds_store st') (o_account opts) (o_log_group opts) (locs @ window_locs opts ww')
        (M + mset fl + mset (pd @ [r]))" "names_ok opts ww'" "seq_location opts ww' = seq_location opts ww"
      "ww_writer ww' = cw_new (o_chunk opts)" "ww_date ww' = ww_date ww" by auto
    moreover have "M + mset fl + mset (pd @ [r]) = M + mset (fl @ pd @ [r])" by simp
    ultimately show ?thesis
      using fr pos window_holdsI [of opts ww' locs "reader_of X cl b (d_chunk D) (d_chrono D)" objs "ds_store st'" M "fl @ pd @ [r]" "[]"]
      unfolding rs [symmetric] by (simp add: add.assoc)
  next
    case False
    then have e: "ww' = ww\<lparr>ww_writer := wr\<rparr>" "st' = st" using f p by (auto simp: ww_push_def)
    have same: "seq_location opts ww' = seq_location opts ww" "window_locs opts ww' = window_locs opts ww" "names_ok opts ww'"
      using n by (simp_all add: e seq_location_def ww_location_def window_locs_def names_ok_def fun_eq_iff)
    have "length (jsonl_text (json (d_chunk D)) (pd @ [r])) < o_chunk_target_bytes opts"
      using False writer_has_length(1) [OF w'] by simp
    then show ?thesis using hr w' fr e same window_holdsI [of opts ww' locs "reader_of X cl b (d_chunk D) (d_chrono D)" objs "ds_store st'" M fl "pd @ [r]"]
      unfolding rs [symmetric] by simp
  qed
qed


lemma events_window:
  assumes L: "archive_laws X cl (os_bucket b) objs (d_chunk D)" and np: "norm_prefix (os_prefix b) = os_prefix b"
    and nd: "\<not> o_dry_run opts" and cap: "o_chunk_target_bytes opts + lim \<le> FALLBACK_DECODE_CAP_BYTES"
    and pos: "0 < o_chunk_target_bytes opts"
    and day: "\<And>t. holds_ts w t \<Longrightarrow> date_from_ts_ms (d_chrono D) t = dt"
  shows "window_holds (reader_of X cl b (d_chunk D) (d_chrono D)) objs opts locs M ww (ds_store st) rs \<Longrightarrow> ww_date ww = dt \<Longrightarrow>
    \<forall>r \<in> set rs. ok_record (d_chunk D) lim r \<and> date_from_ts_ms (d_chrono D) (timestamp r) = dt \<Longrightarrow>
    \<forall>ev \<in> set evs. in_window w ev \<longrightarrow> ok_record (d_chunk D) lim (record_of_event ev) \<Longrightarrow>
    drain_events (s3_drain_env X cl b D) opts w evs dropped ww st = (dropped', ww', st', Inr u) \<Longrightarrow>
    window_holds (reader_of X cl b (d_chunk D) (d_chrono D)) objs opts locs M ww' (ds_store st') (rs @ map record_of_event (filter (in_window w) evs))
    \<and> ww_date ww' = dt \<and> seq_location opts ww' = seq_location opts ww"
proof (induction evs arbitrary: ww st dropped rs)
  case (Cons ev evs)
  show ?case
  proof (cases "in_window w ev")
    case False
    then show ?thesis using Cons.IH [of ww st rs "dropped + 1"] Cons.prems by (auto simp: in_window_def)
  next
    case True
    then obtain ww1 st1 where p: "ww_push (s3_drain_env X cl b D) opts (record_of_event ev) ww st = (ww1, st1, Inr ())"
      and q: "drain_events (s3_drain_env X cl b D) opts w evs dropped ww1 st1 = (dropped', ww', st', Inr u)"
      using Cons.prems(5) by (auto simp: in_window_def split: prod.splits sum.splits)
    have "timestamp (record_of_event ev) = ev_timestamp ev" by (simp add: record_of_event_def)
    then have "date_from_ts_ms (d_chrono D) (timestamp (record_of_event ev)) = dt"
      using day [of "ev_timestamp ev"] True by (simp add: in_window_def holds_ts_def)
    then have ok: "\<forall>r \<in> set (rs @ [record_of_event ev]). ok_record (d_chunk D) lim r \<and> date_from_ts_ms (d_chrono D) (timestamp r) = dt"
      using Cons.prems(3,4) True by simp
    have "window_holds (reader_of X cl b (d_chunk D) (d_chrono D)) objs opts locs M ww1 (ds_store st1) (rs @ [record_of_event ev])
      \<and> ww_date ww1 = ww_date ww \<and> seq_location opts ww1 = seq_location opts ww"
      by (rule push_window [OF L np nd cap Cons.prems(1) _ pos p]) (use ok Cons.prems(2) in simp)
    then show ?thesis using Cons.IH [OF _ _ ok _ q] Cons.prems(2,4) True by simp
  qed
qed simp

lemma pages_window:
  assumes L: "archive_laws X cl (os_bucket b) objs (d_chunk D)" and np: "norm_prefix (os_prefix b) = os_prefix b"
    and nd: "\<not> o_dry_run opts" and cap: "o_chunk_target_bytes opts + lim \<le> FALLBACK_DECODE_CAP_BYTES"
    and pos: "0 < o_chunk_target_bytes opts"
    and day: "\<And>t. holds_ts w t \<Longrightarrow> date_from_ts_ms (d_chrono D) t = dt"
  shows "window_holds (reader_of X cl b (d_chunk D) (d_chrono D)) objs opts locs M ww (ds_store st) rs \<Longrightarrow> ww_date ww = dt \<Longrightarrow>
    \<forall>r \<in> set rs. ok_record (d_chunk D) lim r \<and> date_from_ts_ms (d_chrono D) (timestamp r) = dt \<Longrightarrow>
    (\<And>evss. pages = map Inr evss \<Longrightarrow> \<forall>ev \<in> set (concat evss). in_window w ev \<longrightarrow> ok_record (d_chunk D) lim (record_of_event ev)) \<Longrightarrow>
    drain_pages (s3_drain_env X cl b D) opts w pages dropped ww st = (dropped', ww', st', Inr u) \<Longrightarrow>
    \<exists>evss. pages = map Inr evss
      \<and> window_holds (reader_of X cl b (d_chunk D) (d_chrono D)) objs opts locs M ww' (ds_store st') (rs @ map record_of_event (filter (in_window w) (concat evss)))
      \<and> ww_date ww' = dt \<and> seq_location opts ww' = seq_location opts ww
      \<and> (\<forall>r \<in> set (rs @ map record_of_event (filter (in_window w) (concat evss))).
           ok_record (d_chunk D) lim r \<and> date_from_ts_ms (d_chrono D) (timestamp r) = dt)"
proof (induction pages arbitrary: ww st dropped rs)
  case Nil
  then show ?case by (intro exI [of _ "[]"]) simp
next
  case (Cons page pages)
  from Cons.prems(5) obtain evs d1 ww1 st1 where pg: "page = Inr evs"
    and e: "drain_events (s3_drain_env X cl b D) opts w evs dropped ww st = (d1, ww1, st1, Inr ())"
    and q: "drain_pages (s3_drain_env X cl b D) opts w pages d1 ww1 (emit opts (Page w (length evs) (bytes_so_far ww1)) st1)
        = (dropped', ww', st', Inr u)"
    by (auto split: sum.splits prod.splits)
  have pages_ok: "\<exists>evss. pages = map Inr evss"
    using q
  proof (induction pages arbitrary: d1 ww1 st1 evs)
    case (Cons page pages)
    then show ?case by (auto split: sum.splits prod.splits) (metis list.simps(9))
  qed simp
  then obtain evss0 where p0: "pages = map Inr evss0" by blast
  have ok_all: "\<forall>ev \<in> set (concat (evs # evss0)). in_window w ev \<longrightarrow> ok_record (d_chunk D) lim (record_of_event ev)"
    using Cons.prems(4) [of "evs # evss0"] pg p0 by simp
  then have ok_evs: "\<forall>ev \<in> set evs. in_window w ev \<longrightarrow> ok_record (d_chunk D) lim (record_of_event ev)" by simp
  note d = events_window [OF L np nd cap pos day Cons.prems(1-3) ok_evs e]
  let ?rs = "rs @ map record_of_event (filter (in_window w) evs)"
  let ?st = "emit opts (Page w (length evs) (bytes_so_far ww1)) st1"
  have ok1: "\<forall>r \<in> set ?rs. ok_record (d_chunk D) lim r \<and> date_from_ts_ms (d_chrono D) (timestamp r) = dt"
    using Cons.prems(3) ok_evs day by (auto simp: record_of_event_def in_window_def holds_ts_def)
  have "window_holds (reader_of X cl b (d_chunk D) (d_chrono D)) objs opts locs M ww1 (ds_store ?st) ?rs" "ww_date ww1 = dt" using d by simp_all
  from Cons.IH [OF this ok1 _ q] ok_all p0 d obtain evss where "pages = map Inr evss"
    "window_holds (reader_of X cl b (d_chunk D) (d_chrono D)) objs opts locs M ww' (ds_store st') (?rs @ map record_of_event (filter (in_window w) (concat evss)))"
    "ww_date ww' = dt" "seq_location opts ww' = seq_location opts ww"
    "\<forall>r \<in> set (?rs @ map record_of_event (filter (in_window w) (concat evss))). ok_record (d_chunk D) lim r \<and> date_from_ts_ms (d_chrono D) (timestamp r) = dt"
    by (auto simp: inj_map_eq_map)
  then show ?case using pg by (intro exI [of _ "evs # evss"]) simp
qed


lemma finish_window:
  assumes L: "archive_laws X cl (os_bucket b) objs (d_chunk D)" and np: "norm_prefix (os_prefix b) = os_prefix b"
    and nd: "\<not> o_dry_run opts" and cap: "o_chunk_target_bytes opts \<le> FALLBACK_DECODE_CAP_BYTES"
    and h: "window_holds (reader_of X cl b (d_chunk D) (d_chrono D)) objs opts locs M ww (ds_store st) rs"
    and ok: "\<forall>r \<in> set rs. ok_record (d_chunk D) lim r \<and> date_from_ts_ms (d_chrono D) (timestamp r) = ww_date ww"
    and f: "ww_finish (s3_drain_env X cl b D) opts ww st = (ww', st', Inr u)"
  shows "holds_records (reader_of X cl b (d_chunk D) (d_chrono D)) objs (ds_store st') (o_account opts) (o_log_group opts) (locs @ window_locs opts ww') (M + mset rs)
    \<and> seq_location opts ww' = seq_location opts ww"
proof -
  from h obtain fl pd where n: "names_ok opts ww" and fr: "\<forall>i. seq_location opts ww i \<notin> set locs"
    and hr: "holds_records (reader_of X cl b (d_chunk D) (d_chrono D)) objs (ds_store st) (o_account opts) (o_log_group opts) (locs @ window_locs opts ww) (M + mset fl)"
    and w: "writer_has (d_chunk D) (ww_writer ww) pd" and t: "length (jsonl_text (json (d_chunk D)) pd) < o_chunk_target_bytes opts"
    and rs: "fl @ pd = rs" by (auto simp: window_holds_def)
  let ?ww = "ww\<lparr>ww_writer := cw_new (o_chunk opts)\<rparr>"
  have same: "seq_location opts ?ww = seq_location opts ww" "window_locs opts ?ww = window_locs opts ww" "names_ok opts ?ww"
    using n by (simp_all add: seq_location_def ww_location_def window_locs_def names_ok_def fun_eq_iff)
  have fit: "chunk_fit (d_chunk D) pd" using ok rs t cap by (intro fit_records [of _ _ lim]) auto
  from flush_window [OF L np nd same(3) _ _ w fit _ f [unfolded ww_finish_def], of locs "M + mset fl"] hr fr ok rs same
  have "holds_records (reader_of X cl b (d_chunk D) (d_chrono D)) objs (ds_store st') (o_account opts) (o_log_group opts) (locs @ window_locs opts ww')
      (M + mset fl + mset pd)" "seq_location opts ww' = seq_location opts ww" by auto
  then show ?thesis unfolding rs [symmetric] by (simp add: add.assoc)
qed

lemma drained_window:
  assumes L: "archive_laws X cl (os_bucket b) objs (d_chunk D)" and np: "norm_prefix (os_prefix b) = os_prefix b"
    and sound: "get_sound cl (os_bucket b) objs"
    and nd: "\<not> o_dry_run opts" and cap: "o_chunk_target_bytes opts + lim \<le> FALLBACK_DECODE_CAP_BYTES"
    and pos: "0 < o_chunk_target_bytes opts"
    and day: "\<And>t. holds_ts w t \<Longrightarrow> date_from_ts_ms (d_chrono D) t = date_from_ts_ms (d_chrono D) (start_ms w)"
    and n: "names_ok opts (ww_new (s3_drain_env X cl b D) opts w Base)"
    and fresh: "\<forall>i. seq_location opts (ww_new (s3_drain_env X cl b D) opts w Base) i \<notin> set locs"
    and h: "holds_records (reader_of X cl b (d_chunk D) (d_chrono D)) objs (ds_store st) (o_account opts) (o_log_group opts) locs M"
    and ok: "\<And>evss. pages = map Inr evss \<Longrightarrow> \<forall>ev \<in> set (concat evss). in_window w ev \<longrightarrow> ok_record (d_chunk D) lim (record_of_event ev)"
    and b: "drain_window_body (s3_drain_env X cl b D) opts w pages st = (st', Inr out)"
  shows "\<exists>evss new. pages = map Inr evss
    \<and> set new \<subseteq> range (seq_location opts (ww_new (s3_drain_env X cl b D) opts w Base))
    \<and> holds_records (reader_of X cl b (d_chunk D) (d_chrono D)) objs (ds_store st') (o_account opts) (o_log_group opts) (locs @ new)
         (M + mset (map record_of_event (filter (in_window w) (concat evss))))"
  using b
proof (cases rule: drain_window_body_cases)
  case (sealed dropped ww1 st1 ww2 st2 out')
  let ?D = "s3_drain_env X cl b D"
  let ?w0 = "ww_new ?D opts w Base"
  have w0: "window_locs opts ?w0 = []" "ww_writer ?w0 = cw_new (o_chunk opts)"
    "ww_date ?w0 = date_from_ts_ms (d_chrono D) (start_ms w)"
    by (simp_all add: window_locs_def ww_new_def)
  have start: "window_holds (reader_of X cl b (d_chunk D) (d_chrono D)) objs opts locs M ?w0 (ds_store st) []"
    using window_holdsI [of opts ?w0 locs "reader_of X cl b (d_chunk D) (d_chrono D)" objs "ds_store st" M "[]" "[]"] n fresh h pos w0 writer_has_new by simp
  from pages_window [OF L np nd cap pos day start w0(3) _ ok sealed(1)] obtain evss where e: "pages = map Inr evss"
    and h1: "window_holds (reader_of X cl b (d_chunk D) (d_chrono D)) objs opts locs M ww1 (ds_store st1) (map record_of_event (filter (in_window w) (concat evss)))"
    and d1: "ww_date ww1 = date_from_ts_ms (d_chrono D) (start_ms w)" and s1: "seq_location opts ww1 = seq_location opts ?w0"
    and ok1: "\<forall>r \<in> set (map record_of_event (filter (in_window w) (concat evss))).
           ok_record (d_chunk D) lim r \<and> date_from_ts_ms (d_chrono D) (timestamp r) = date_from_ts_ms (d_chrono D) (start_ms w)" by auto
  have cap': "o_chunk_target_bytes opts \<le> FALLBACK_DECODE_CAP_BYTES" using cap by simp
  from finish_window [OF L np nd cap' h1 _ sealed(2), of lim] ok1 d1
  have h2: "holds_records (reader_of X cl b (d_chunk D) (d_chrono D)) objs (ds_store st2) (o_account opts) (o_log_group opts) (locs @ window_locs opts ww2)
      (M + mset (map record_of_event (filter (in_window w) (concat evss))))" and s2: "seq_location opts ww2 = seq_location opts ww1" by simp_all
  obtain bs s' r where p: "mf_put (object_manifest_store cl b) (window_mkey ?D opts w) bs (ds_store st2) = (s', r)" and s': "ds_store st' = s'"
    using sealed(5) nd by auto
  have m: "manifest_view (object_manifest_store cl b) objs"
    using object_manifest_view [OF _ sound] L by (simp add: archive_laws_def)
  have "holds_records (reader_of X cl b (d_chunk D) (d_chrono D)) objs s' (o_account opts) (o_log_group opts) (locs @ window_locs opts ww2)
      (M + mset (map record_of_event (filter (in_window w) (concat evss))))"
    by (rule holds_records_frame [OF L np h2]) (use manifest_view.put_frame [OF m p] in simp)
  moreover have "set (window_locs opts ww2) \<subseteq> range (seq_location opts ?w0)" using s1 s2 by (auto simp: window_locs_def)
  ultimately show ?thesis using e s' by blast
qed simp


section \<open>A whole run\<close>

text \<open>What CloudWatch promises: a page stream without an error gives every event of its window and filter once.\<close>

definition cw_holds :: "'c cw_source \<Rightarrow> string \<Rightarrow> cw_event list \<Rightarrow> bool" where
  "cw_holds cw g EV \<longleftrightarrow>
     (\<forall>w streams evss. page_stream cw g w streams = Some (map Inr evss) \<longrightarrow>
        mset (filter (in_window w) (concat evss)) = mset (filter (\<lambda>e. in_window w e
          \<and> (case streams of None \<Rightarrow> True | Some ss \<Rightarrow> ev_log_stream_name e \<in> set ss)) EV))
     \<and> (\<forall>names. list_log_streams cw g None = Inr names \<longrightarrow> distinct names \<and> (\<forall>e \<in> set EV. ev_log_stream_name e \<in> set names))"

lemma shards_gather:
  assumes "\<And>s evss. s \<in> set shs \<Longrightarrow> f s = Some (map Inr evss) \<Longrightarrow> mset (filter P (concat evss)) = mset (filter (\<lambda>e. P e \<and> sn e \<in> set s) EV)"
  shows "those (map f shs) = Some (map (map Inr) pss) \<Longrightarrow> distinct (concat shs) \<Longrightarrow>
    mset (filter P (concat (concat pss))) = mset (filter (\<lambda>e. P e \<and> sn e \<in> set (concat shs)) EV)"
  using assms
proof (induction shs arbitrary: pss)
  case (Cons s shs)
  from Cons.prems(1) obtain ps pss' where p: "pss = ps # pss'" "f s = Some (map Inr ps)" "those (map f shs) = Some (map (map Inr) pss')"
    by (cases pss) (auto split: option.splits)
  have IH: "mset (filter P (concat (concat pss'))) = mset (filter (\<lambda>e. P e \<and> sn e \<in> set (concat shs)) EV)"
    by (rule Cons.IH [OF p(3)]) (use Cons.prems in auto)
  have "mset (filter (\<lambda>e. P e \<and> sn e \<in> set s) EV) + mset (filter (\<lambda>e. P e \<and> sn e \<in> set (concat shs)) EV)
      = mset (filter (\<lambda>e. P e \<and> sn e \<in> set (concat (s # shs))) EV)"
    using Cons.prems(2) by (induction EV) auto
  then show ?case using IH p Cons.prems(3) [of s ps] by simp
qed simp

lemma mset_map_Inr:
  assumes "mset xs = mset (concat (map (map Inr) pss))"
  shows "\<exists>ys. xs = map Inr ys \<and> mset ys = mset (concat pss)"
proof -
  have c: "concat (map (map Inr) pss) = map Inr (concat pss)" by (simp add: map_concat)
  have "set xs = Inr ` set (concat pss)" using arg_cong [OF assms, of set_mset] by (simp add: c)
  then have "map (Inr \<circ> projr) xs = map id xs" by (intro map_cong) auto
  then have "xs = map Inr (map projr xs)" by simp
  moreover have "mset (map projr xs) = mset (concat pss)"
    using arg_cong [OF assms, of "image_mset projr"] unfolding c by (simp add: multiset.map_comp comp_def)
  ultimately show ?thesis by blast
qed

lemma those_map_Inr:
  "those xs = Some pss \<Longrightarrow> set (concat pss) \<subseteq> range Inr \<Longrightarrow> \<exists>qss. those xs = Some (map (map Inr) qss)"
proof -
  assume a: "those xs = Some pss" "set (concat pss) \<subseteq> range Inr"
  then have "map (map (Inr \<circ> projr)) pss = map id pss" by (intro map_cong refl) (auto intro!: map_idI)
  then show ?thesis using a by (intro exI [of _ "map (map projr) pss"]) (simp add: comp_def)
qed

lemma mset_filter_concat: "mset xss = mset yss \<Longrightarrow> mset (filter P (concat xss)) = mset (filter P (concat yss))"
  by (metis mset_concat_map map_ident mset_filter)

lemma pages_gather:
  assumes cw: "cw_holds cw g EV" and s: "compute_shards D opts = Inr shards" and D: "d_cw D = cw" and g: "o_log_group opts = g"
    and p: "event_pages sched cw g w shards = Some (map Inr evss)"
  shows "mset (filter (in_window w) (concat evss)) = mset (filter (in_window w) EV)"
proof (cases shards)
  case None
  then have "page_stream cw g w None = Some (map Inr evss)" using p by (simp add: event_pages_def)
  then show ?thesis using cw by (fastforce simp: cw_holds_def)
next
  case (Some shs)
  then obtain names where n: "list_log_streams cw g None = Inr names"
    and shs: "shs = partition_streams names (o_shard_streams opts) MAX_STREAMS_PER_FILTER" "\<not> length shs < 2"
    using s D g by (auto simp: compute_shards_def Let_def split: if_splits sum.splits)
  then obtain a c rest where abc: "shs = a # c # rest" by (metis One_nat_def Suc_1 length_Cons lessI list.exhaust list.size(3) zero_less_Suc)
  have m: "mset (concat shs) = mset names" unfolding shs by (simp only: partition_streams_correct)
  have dn: "distinct names" "\<forall>e \<in> set EV. ev_log_stream_name e \<in> set names" using cw n by (auto simp: cw_holds_def)
  have d: "distinct (concat shs)" "set (concat shs) = set names"
    using m dn(1) by (metis mset_eq_imp_distinct_iff, metis set_mset_mset)
  obtain pss where q: "those (map (\<lambda>s. page_stream cw g w (Some s)) shs) = Some pss" "map Inr evss = select_all sched pss"
    using p Some abc by (auto simp: event_pages_def split: option.splits)
  have mm: "mset (map Inr evss) = mset (concat pss)" using q(2) by (simp only: select_all_mset)
  then have "set (concat pss) \<subseteq> range Inr" by (metis set_mset_mset set_map subset_UNIV image_mono)
  from those_map_Inr [OF q(1) this] obtain qss where qs: "pss = map (map Inr) qss"
    "those (map (\<lambda>s. page_stream cw g w (Some s)) shs) = Some (map (map Inr) qss)" using q(1) by auto
  have "mset evss = mset (concat qss)" using mset_map_Inr [of "map Inr evss" qss] mm qs(1) by (auto simp: inj_map_eq_map)
  then have "mset (filter (in_window w) (concat evss)) = mset (filter (in_window w) (concat (concat qss)))"
    by (rule mset_filter_concat)
  also have "\<dots> = mset (filter (\<lambda>e. in_window w e \<and> ev_log_stream_name e \<in> set (concat shs)) EV)"
    by (rule shards_gather [OF _ qs(2) d(1)]) (use cw in \<open>fastforce simp: cw_holds_def\<close>)
  also have "\<dots> = mset (filter (in_window w) EV)"
    using d(2) dn(2) by (intro arg_cong [of _ _ mset] filter_cong) auto
  finally show ?thesis .
qed


text \<open>Windows of one run: no two share a timestamp or a start.\<close>

definition windows_apart :: "window list \<Rightarrow> bool" where
  "windows_apart ws \<longleftrightarrow> distinct ws \<and> (\<forall>x \<in> set ws. \<forall>y \<in> set ws. x \<noteq> y \<longrightarrow> start_ms x \<noteq> start_ms y \<and> (\<forall>t. \<not> (holds_ts x t \<and> holds_ts y t)))"

lemma windows_apartD:
  "windows_apart ws \<Longrightarrow> x \<in> set ws \<Longrightarrow> y \<in> set ws \<Longrightarrow> x \<noteq> y \<Longrightarrow> start_ms x \<noteq> start_ms y"
  "windows_apart ws \<Longrightarrow> x \<in> set ws \<Longrightarrow> y \<in> set ws \<Longrightarrow> x \<noteq> y \<Longrightarrow> \<not> (holds_ts x t \<and> holds_ts y t)"
  by (simp_all add: windows_apart_def)

lemma chain_apart: "chain a ws z \<Longrightarrow> windows_apart ws"
proof (induction ws arbitrary: a)
  case (Cons x xs)
  have b: "end_ms x \<le> start_ms y" "start_ms x < end_ms x" if "y \<in> set xs" for y
    using chain_bounds [of "end_ms x" xs z y] Cons.prems that by auto
  have "x \<notin> set xs" using b by fastforce
  moreover have "start_ms x \<noteq> start_ms y \<and> start_ms y \<noteq> start_ms x \<and> (\<forall>t. \<not> (holds_ts x t \<and> holds_ts y t))" if "y \<in> set xs" for y
    using b [OF that] by (auto simp: holds_ts_def)
  ultimately show ?case using Cons.IH [of "end_ms x"] Cons.prems unfolding windows_apart_def by (simp add: conj_commute) blast
qed (simp add: windows_apart_def)

lemma windows_apart_mset: "mset ws = mset ws' \<Longrightarrow> windows_apart ws = windows_apart ws'"
  using mset_eq_setD mset_eq_imp_distinct_iff unfolding windows_apart_def by metis

definition in_windows :: "window list \<Rightarrow> cw_event \<Rightarrow> bool" where
  "in_windows ws e \<longleftrightarrow> (\<exists>w \<in> set ws. in_window w e)"

lemma filter_mset_split:
  assumes "\<And>e. \<not> (P e \<and> Q e)" and "\<And>e. R e \<longleftrightarrow> P e \<or> Q e"
  shows "mset (filter P xs) + mset (filter Q xs) = mset (filter R xs)"
proof (induction xs)
  case (Cons x xs)
  then show ?case using assms(1) [of x] assms(2) [of x] by (cases "P x"; cases "Q x") simp_all
qed simp

lemma in_windows_split:
  assumes "windows_apart (w # ws)"
  shows "mset (filter (in_window w) EV) + mset (filter (in_windows ws) EV) = mset (filter (in_windows (w # ws)) EV)"
proof -
  have "\<not> (in_window w e \<and> in_windows ws e)" for e
  proof
    assume "in_window w e \<and> in_windows ws e"
    then obtain y where y: "y \<in> set ws" "in_window w e" "in_window y e" by (auto simp: in_windows_def)
    then have "holds_ts w (ev_timestamp e)" "holds_ts y (ev_timestamp e)" by (simp_all add: holds_ts_def in_window_def)
    moreover have "w \<noteq> y" using assms y(1) by (auto simp: windows_apart_def)
    ultimately show False using windows_apartD(2) [OF assms, of w y] y(1) by simp
  qed
  moreover have "in_windows (w # ws) e \<longleftrightarrow> in_window w e \<or> in_windows ws e" for e by (simp add: in_windows_def)
  ultimately show ?thesis by (intro filter_mset_split)
qed

text \<open>The object names a window may use.\<close>

abbreviation (input) window_names :: "('s, 'c, 'dt) drain_env \<Rightarrow> drain_options \<Rightarrow> window \<Rightarrow> chunk_location set" where
  "window_names D opts w \<equiv> range (seq_location opts (ww_new D opts w Base))"

lemma window_names_apart:
  assumes "start_ms w \<noteq> start_ms w'"
  shows "window_names D opts w \<inter> window_names D opts w' = {}"
proof -
  have "obj_name (seq_location opts (ww_new D opts v Base) i) = naming_name Base (start_ms v) i" for v i
    by (simp add: seq_location_def ww_location_def ww_new_def)
  then have "seq_location opts (ww_new D opts w Base) i \<noteq> seq_location opts (ww_new D opts w' Base) j" for i j
    using naming_base_inject [of "start_ms w" i "start_ms w'" j] assms by metis
  then show ?thesis by blast
qed

lemma windows_run:
  assumes L: "archive_laws X cl (os_bucket b) objs (d_chunk D)" and np: "norm_prefix (os_prefix b) = os_prefix b"
    and sound: "get_sound cl (os_bucket b) objs"
    and nd: "\<not> o_dry_run opts" and cap: "o_chunk_target_bytes opts + lim \<le> FALLBACK_DECODE_CAP_BYTES"
    and pos: "0 < o_chunk_target_bytes opts"
    and n: "\<And>w. names_ok opts (ww_new (s3_drain_env X cl b D) opts w Base)"
    and ok: "\<forall>e \<in> set EV. ok_record (d_chunk D) lim (record_of_event e)"
    and cw: "\<And>w evss. event_pages (d_sched D) (d_cw D) (o_log_group opts) w shards = Some (map Inr evss) \<Longrightarrow>
        mset (filter (in_window w) (concat evss)) = mset (filter (in_window w) EV)"
  shows "windows_apart ws \<Longrightarrow>
    \<forall>w \<in> set ws. \<forall>t. holds_ts w t \<longrightarrow> date_from_ts_ms (d_chrono D) t = date_from_ts_ms (d_chrono D) (start_ms w) \<Longrightarrow>
    \<forall>w \<in> set ws. window_names (s3_drain_env X cl b D) opts w \<inter> set locs = {}
        \<and> \<not> window_proved (d_mjson D) (objs (ds_store st)) (os_prefix b) opts w \<Longrightarrow>
    holds_records (reader_of X cl b (d_chunk D) (d_chrono D)) objs (ds_store st) (o_account opts) (o_log_group opts) locs M \<Longrightarrow>
    run_windows (s3_drain_env X cl b D) opts shards ws r0 st = Some (st', Inr r) \<Longrightarrow>
    \<exists>locs'. holds_records (reader_of X cl b (d_chunk D) (d_chrono D)) objs (ds_store st') (o_account opts) (o_log_group opts) locs'
      (M + mset (map record_of_event (filter (in_windows ws) EV)))"
proof (induction ws arbitrary: st r0 locs M)
  case Nil
  then show ?case by (auto simp: in_windows_def)
next
  case (Cons w ws)
  let ?D = "s3_drain_env X cl b D"
  have put: "put_law cl (os_bucket b) objs" using L by (simp add: archive_laws_def)
  note stores = s3_drain_stores [OF put sound, of X D]
  from Cons.prems(5) obtain st1 out where p: "process_window ?D opts w shards st = Some (st1, Inr out)"
    and q: "run_windows ?D opts shards ws (absorb r0 out) st1 = Some (st', Inr r)"
    by (auto split: option.splits prod.splits sum.splits)
  have a: "CHR ''/'' \<notin> set (o_account opts)" using n by (simp add: names_ok_def)
  from p have "\<exists>pages. event_pages (d_sched D) (d_cw D) (o_log_group opts) w shards = Some pages
      \<and> drain_window_body ?D opts w pages (emit opts (WindowStarted w) st) = (st1, Inr out)"
  proof (cases rule: process_window_cases)
    case (skipped m)
    have "objs (ds_store st) (window_mkey ?D opts w) = Some m"
      using manifest_view.get_view [OF object_manifest_view [OF put sound]] skipped(1) by fastforce
    then have "window_proved (d_mjson D) (objs (ds_store st)) (os_prefix b) opts w"
      using skipped(2) by (simp add: window_proved_def)
    then show ?thesis using Cons.prems(3) by simp
  qed auto
  then obtain pages where pg: "event_pages (d_sched D) (d_cw D) (o_log_group opts) w shards = Some pages"
    and body: "drain_window_body ?D opts w pages (emit opts (WindowStarted w) st) = (st1, Inr out)" by blast
  have ok': "\<forall>ev \<in> set (concat evss). in_window w ev \<longrightarrow> ok_record (d_chunk D) lim (record_of_event ev)"
    if "pages = map Inr evss" for evss
  proof (intro ballI impI)
    fix ev assume "ev \<in> set (concat evss)" "in_window w ev"
    then have "ev \<in> set (filter (in_window w) (concat evss))" by simp
    moreover have "set (filter (in_window w) (concat evss)) = set (filter (in_window w) EV)"
      using cw [of w evss] pg that mset_eq_setD by blast
    ultimately have "ev \<in> set EV" unfolding set_filter by blast
    then show "ok_record (d_chunk D) lim (record_of_event ev)" using ok by simp
  qed
  have fresh: "\<forall>i. seq_location opts (ww_new ?D opts w Base) i \<notin> set locs" using Cons.prems(3) by auto
  have day: "\<And>t. holds_ts w t \<Longrightarrow> date_from_ts_ms (d_chrono D) t = date_from_ts_ms (d_chrono D) (start_ms w)"
    using Cons.prems(2) by simp
  have "holds_records (reader_of X cl b (d_chunk D) (d_chrono D)) objs (ds_store (emit opts (WindowStarted w) st)) (o_account opts) (o_log_group opts) locs M"
    using Cons.prems(4) by simp
  from drained_window [OF L np sound nd cap pos day n fresh this ok' body] obtain evss new where
    e: "pages = map Inr evss" "set new \<subseteq> window_names ?D opts w"
    and h: "holds_records (reader_of X cl b (d_chunk D) (d_chrono D)) objs (ds_store st1) (o_account opts) (o_log_group opts) (locs @ new)
         (M + mset (map record_of_event (filter (in_window w) (concat evss))))" by blast
  have m: "mset (map record_of_event (filter (in_window w) (concat evss))) = mset (map record_of_event (filter (in_window w) EV))"
    using cw [of w evss] pg e(1) by (simp only: mset_map)
  have others: "\<forall>v \<in> set ws. window_names ?D opts v \<inter> set (locs @ new) = {}
      \<and> \<not> window_proved (d_mjson D) (objs (ds_store st1)) (os_prefix b) opts v"
  proof
    fix v assume v: "v \<in> set ws"
    have vw: "v \<noteq> w" using v Cons.prems(1) by (auto simp: windows_apart_def)
    have sv: "start_ms v \<noteq> start_ms w" by (rule windows_apartD(1) [OF Cons.prems(1) _ _ vw]) (use v in simp_all)
    have same: "objs (ds_store st1) (window_mkey ?D opts v) = objs (ds_store st) (window_mkey ?D opts v)"
      using drain_stores.process_window_frame [OF stores _ a p, of v] vw by simp
    have "window_names ?D opts v \<inter> set locs = {}" using Cons.prems(3) v by simp
    then have "window_names ?D opts v \<inter> set (locs @ new) = {}" using e(2) window_names_apart [OF sv, of opts ?D] unfolding set_append by blast
    moreover have "\<not> window_proved (d_mjson D) (objs (ds_store st)) (os_prefix b) opts v" using Cons.prems(3) v by simp
    then have "\<not> window_proved (d_mjson D) (objs (ds_store st1)) (os_prefix b) opts v" using same by (simp add: window_proved_def)
    ultimately show "window_names ?D opts v \<inter> set (locs @ new) = {}
        \<and> \<not> window_proved (d_mjson D) (objs (ds_store st1)) (os_prefix b) opts v" by blast
  qed
  have ws: "windows_apart ws" "\<forall>w \<in> set ws. \<forall>t. holds_ts w t \<longrightarrow> date_from_ts_ms (d_chrono D) t = date_from_ts_ms (d_chrono D) (start_ms w)"
    using Cons.prems(1,2) by (simp_all add: windows_apart_def)
  from Cons.IH [OF ws others h q] obtain locs' where
    "holds_records (reader_of X cl b (d_chunk D) (d_chrono D)) objs (ds_store st') (o_account opts) (o_log_group opts) locs'
      (M + mset (map record_of_event (filter (in_window w) EV)) + mset (map record_of_event (filter (in_windows ws) EV)))"
    using m by auto
  moreover have "mset (map record_of_event (filter (in_window w) EV)) + mset (map record_of_event (filter (in_windows ws) EV))
      = mset (map record_of_event (filter (in_windows (w # ws)) EV))"
    using in_windows_split [OF Cons.prems(1), of EV] by (simp only: mset_map image_mset_union [symmetric])
  ultimately show ?case by (metis add.assoc)
qed


text \<open>A calendar: timestamps of one UTC day have one date.\<close>

definition day_dates :: "'dt chrono \<Rightarrow> bool" where
  "day_dates T \<longleftrightarrow> (\<forall>t t'. t div DAY_MS = t' div DAY_MS \<longrightarrow> date_from_ts_ms T t = date_from_ts_ms T t')"

text \<open>A group nothing has been drained of: no data objects, no manifest that proves a window.\<close>

definition group_empty :: "manifest serde \<Rightarrow> (string \<rightharpoonup> bytes) \<Rightarrow> string \<Rightarrow> drain_options \<Rightarrow> bool" where
  "group_empty J os p opts \<longleftrightarrow> (\<forall>k \<in> dom os. \<not> starts_with (data_group_prefix p (o_account opts) (o_log_group opts)) k)
     \<and> (\<forall>w. \<not> window_proved J os p opts w)"

lemma group_empty_holds:
  assumes "norm_prefix (os_prefix b) = os_prefix b" and "group_empty J (objs s) (os_prefix b) opts"
  shows "holds_records (reader_of X cl b (d_chunk D) (d_chrono D)) objs s (o_account opts) (o_log_group opts) [] {#}"
  using assms by (auto simp: holds_records_def archived_def group_empty_def)

lemma run_of_drain:
  assumes "drain_run D order opts st = Some (st', Inr report)" and "resolve_range D opts = Inr (frm, to)"
    and "0 < o_window_ms opts" and "frm < horizon" and "to < horizon"
  obtains shards wins where "compute_shards D opts = Inr shards" "windows frm to (o_window_ms opts) = Some (Inr wins)"
    "windows_apart wins" "\<forall>w \<in> set wins. \<forall>t. holds_ts w t \<longrightarrow> t div DAY_MS = start_ms w div DAY_MS"
    "run_windows D opts shards (order wins)
      (drain_report_default\<lparr>dr_log_group := o_log_group opts, dr_dry_run := o_dry_run opts,
         dr_windows_total := length wins\<rparr>) st = Some (st', Inr report)"
proof -
  from assms(1,2) obtain shards wins where f: "compute_shards D opts = Inr shards" "windows frm to (o_window_ms opts) = Some (Inr wins)"
    and q: "run_windows D opts shards (order wins)
      (drain_report_default\<lparr>dr_log_group := o_log_group opts, dr_dry_run := o_dry_run opts,
         dr_windows_total := length wins\<rparr>) st = Some (st', Inr report)"
    by (auto simp: drain_run_def split: sum.splits prod.splits option.splits)
  have v: "0 \<le> frm" "0 \<le> to" using f(2) by (auto simp: windows_def validate_def split: if_splits)
  from windows_total [OF assms(3) v(1) assms(4) v(2) assms(5)] f(2) obtain z where
    "chain (align_down frm (o_window_ms opts)) wins z" "\<forall>x \<in> set wins. grid_window (o_window_ms opts) x" by auto
  then show thesis using that [OF f _ _ q] chain_apart grid_window_day [OF _ assms(3)] by blast
qed

lemma s3_compute_shards [simp]: "compute_shards (s3_drain_env X cl b D) opts = compute_shards D opts"
  unfolding compute_shards_def s3_drain_env_simps ..

lemma drained_records:
  assumes L: "archive_laws X cl (os_bucket b) objs (d_chunk D)" and sound: "get_sound cl (os_bucket b) objs"
    and np: "norm_prefix (os_prefix b) = os_prefix b" and days: "day_dates (d_chrono D)"
    and n: "\<And>w. names_ok opts (ww_new (s3_drain_env X cl b D) opts w Base)" and perm: "\<And>ws. mset (order ws) = mset ws"
    and cw: "cw_holds (d_cw D) (o_log_group opts) EV" and ok: "\<forall>e \<in> set EV. ok_record (d_chunk D) lim (record_of_event e)"
    and nd: "\<not> o_dry_run opts" and cap: "o_chunk_target_bytes opts + lim \<le> FALLBACK_DECODE_CAP_BYTES"
    and rg: "resolve_range D opts = Inr (frm, to)" "0 < o_window_ms opts" "frm < horizon" "to < horizon"
    and emp: "group_empty (d_mjson D) (objs (ds_store st)) (os_prefix b) opts"
    and run: "drain_run (s3_drain_env X cl b D) order opts st = Some (st', Inr report)"
  shows "\<exists>wins locs. windows frm to (o_window_ms opts) = Some (Inr wins)
    \<and> holds_records (reader_of X cl b (d_chunk D) (d_chrono D)) objs (ds_store st') (o_account opts) (o_log_group opts) locs
        (mset (map record_of_event (filter (in_windows wins) EV)))"
proof -
  let ?D = "s3_drain_env X cl b D"
  from rg(1) have "resolve_range ?D opts = Inr (frm, to)" by simp
  from run_of_drain [OF run this rg(2-4)] obtain shards wins where
    sh: "compute_shards ?D opts = Inr shards" and wins: "windows frm to (o_window_ms opts) = Some (Inr wins)" "windows_apart wins"
      "\<forall>w \<in> set wins. \<forall>t. holds_ts w t \<longrightarrow> t div DAY_MS = start_ms w div DAY_MS"
    and q: "run_windows ?D opts shards (order wins)
      (drain_report_default\<lparr>dr_log_group := o_log_group opts, dr_dry_run := o_dry_run opts,
         dr_windows_total := length wins\<rparr>) st = Some (st', Inr report)" by blast
  have so: "set (order wins) = set wins" using perm [of wins] by (metis set_mset_mset)
  have pos: "0 < o_chunk_target_bytes opts" using rg(1) by (auto simp: resolve_range_def split: if_splits)
  have sh': "compute_shards D opts = Inr shards" using sh by simp
  note gather = pages_gather [OF cw sh' refl refl]
  have a: "windows_apart (order wins)" using wins(2) windows_apart_mset [OF perm] by simp
  have d: "\<forall>w \<in> set (order wins). \<forall>t. holds_ts w t \<longrightarrow> date_from_ts_ms (d_chrono D) t = date_from_ts_ms (d_chrono D) (start_ms w)"
  proof (intro ballI allI impI)
    fix w t assume "w \<in> set (order wins)" "holds_ts w t"
    then have "t div DAY_MS = start_ms w div DAY_MS" using wins(3) so by blast
    then show "date_from_ts_ms (d_chrono D) t = date_from_ts_ms (d_chrono D) (start_ms w)"
      using days unfolding day_dates_def by blast
  qed
  have fresh: "\<forall>w \<in> set (order wins). window_names ?D opts w \<inter> set [] = {}
      \<and> \<not> window_proved (d_mjson D) (objs (ds_store st)) (os_prefix b) opts w"
    using emp by (simp add: group_empty_def)
  from windows_run [OF L np sound nd cap pos n ok gather a d fresh group_empty_holds [where s = "ds_store st" and objs = objs, OF np emp] q] obtain locs where
    "holds_records (reader_of X cl b (d_chunk D) (d_chrono D)) objs (ds_store st') (o_account opts) (o_log_group opts) locs
      ({#} + mset (map record_of_event (filter (in_windows (order wins)) EV)))" ..
  moreover have "in_windows (order wins) = in_windows wins" using so by (simp add: in_windows_def fun_eq_iff)
  ultimately show ?thesis using wins(1) by auto
qed

section \<open>A concrete archive\<close>

text \<open>A bucket as the list of its puts, one event in CloudWatch, and a codec that knows the one table it needs.\<close>

definition log_client :: "(string \<times> bytes) list s3_client" where
  "log_client = \<lparr>s3_put_object = (\<lambda>_ key body _ s. ((key, body) # s, Inr (Some ''e''))),
     s3_get_object = (\<lambda>_ key rng s. case map_of s key of None \<Rightarrow> Inl NoSuchKey
       | Some b \<Rightarrow> Inr (Inr (case rng of None \<Rightarrow> b | Some (x, y) \<Rightarrow> take (y + 1 - x) (drop x b)))),
     s3_list_objects = (\<lambda>_ p _ s. Inr (map Some (filter (starts_with p) (remdups (map fst s))), None)),
     s3_head_object = (\<lambda>_ key s. case map_of s key of None \<Rightarrow> Inl HeadNotFound | Some _ \<Rightarrow> Inr ())\<rparr>"

definition arch_event :: cw_event where
  "arch_event = \<lparr>ev_timestamp = 5, ev_message = ''m'', ev_log_stream_name = ''s'', ev_ingestion_time = None, ev_event_id = None\<rparr>"

definition arch_source :: "unit cw_source" where
  "arch_source = sample_source\<lparr>
     filter_log_events := (\<lambda>_ _ _ _ streams. Inr \<lparr>pg_events =
       (if case streams of None \<Rightarrow> True | Some ss \<Rightarrow> ''s'' \<in> set ss then [arch_event] else []), pg_next_token = None\<rparr>),
     list_log_streams := (\<lambda>_ _. Inr [''s''])\<rparr>"

definition arch_codec :: s4_codec where
  "arch_codec = \<lparr>encode_index = (\<lambda>fi. if fi = stamp sample_chunk (Some ''e'') then [1] else []),
     decode_index = (\<lambda>b. if b = [1] then Inr (stamp sample_chunk (Some ''e'')) else Inl ''bad''),
     SIDECAR_SUFFIX = ''.s4index'', compressed_end = sample_cend\<rparr>"

definition arch_job :: "((string \<times> bytes) list, unit, unit) drain_env" where
  "arch_job = \<lparr>d_cw = arch_source, d_prefix = [], d_put = (\<lambda>_ _ s. (s, Inl (Storage []))),
     d_manifests = object_manifest_store log_client (os_new ''b'' ''p''), d_chunk = sample_env, d_mjson = any_json,
     d_chrono = sample_chrono, d_now = 100, d_version = ''1.0'', d_sched = []\<rparr>"

lemma arch_job_simps [simp]:
  "d_cw arch_job = arch_source" "d_chunk arch_job = sample_env" "d_mjson arch_job = any_json" "d_chrono arch_job = sample_chrono"
  by (simp_all add: arch_job_def)

lemma log_client_laws: "put_law log_client bkt map_of" "get_law log_client bkt map_of" "get_sound log_client bkt map_of"
    "get_missing log_client bkt map_of"
  by (auto simp: put_law_def get_law_def get_sound_def get_missing_def log_client_def split: option.splits)

lemma log_client_list: "list_law log_client bkt map_of s"
  unfolding list_law_def
proof
  fix p
  let ?k = "filter (starts_with p) (remdups (map fst s))"
  have "s3_list_objects log_client bkt p None s = Inr (map Some ?k, None)" by (simp add: log_client_def)
  moreover have "List.map_filter id (map Some xs) = xs" for xs :: "string list" by (induction xs) (simp_all add: map_filter_simps)
  moreover have "set ?k = {k \<in> dom (map_of s). starts_with p k}" by (auto simp: dom_map_of_conv_image_fst)
  ultimately show "\<exists>pages. list_pages (\<lambda>t. s3_list_objects log_client bkt p t s) None pages
     \<and> distinct (List.map_filter id (concat pages))
     \<and> set (List.map_filter id (concat pages)) = {k \<in> dom (map_of s). starts_with p k}"
    by (intro exI [of _ "[map Some ?k]"]) simp
qed

lemma arch_laws: "archive_laws arch_codec log_client bkt map_of sample_env"
  using log_client_laws sample_zstd_faithful sample_cend_ok
  by (simp add: archive_laws_def arch_codec_def codec_safe_def)

lemma arch_source_holds: "cw_holds arch_source g [arch_event]"
  by (auto simp: cw_holds_def page_stream_def page_loop.simps arch_source_def arch_event_def split: option.splits)

lemma arch_event_ok: "ok_record sample_env 2 (record_of_event arch_event)"
  by (simp add: ok_record_def json_faithful_def json_closed_def jsonl_line_def record_of_event_def arch_event_def sample_env_def
      sample_json_def sample_record_def is_i64_def i64_MIN_def i64_MAX_def CR_def)

lemma arch_run:
  "\<exists>st' r. drain_run (s3_drain_env arch_codec log_client (os_new ''b'' ''p'') arch_job) id sample_opts
     \<lparr>ds_store = [], ds_events = []\<rparr> = Some (st', Inr r)"
proof -
  let ?D = "s3_drain_env arch_codec log_client (os_new ''b'' ''p'') arch_job"
  have "\<exists>st' out. process_window ?D sample_opts sample_window None \<lparr>ds_store = [], ds_events = []\<rparr> = Some (st', Inr out)"
    by (simp add: job_defs sample_defs arch_job_def arch_source_def arch_event_def arch_codec_def log_client_def os_put_chunk_def
        put_data_bytes_def encode_sidecars_def)
  moreover have "resolve_range ?D sample_opts = Inr (0, 30)" "compute_shards ?D sample_opts = Inr None"
    "o_window_ms sample_opts = 20"
    by (simp_all add: resolve_range_def compute_shards_def sample_opts_def drain_options_new_def)
  ultimately show ?thesis using sample_windows by (auto simp: drain_run_def)
qed

lemma arch_matches: "record_matches (sample_record 5) \<lparr>from_ms = 5, to_ms_exclusive = 6\<rparr> None"
  by (simp add: record_matches_def sample_record_def)

abbreviation (input) arch_store :: object_store where "arch_store \<equiv> os_new ''b'' ''p''"

abbreviation (input) arch_range :: time_range where "arch_range \<equiv> \<lparr>from_ms = 5, to_ms_exclusive = 6\<rparr>"

lemma arch_hyps:
  "archive_laws arch_codec log_client (os_bucket arch_store) map_of (d_chunk arch_job)" "get_sound log_client (os_bucket arch_store) map_of"
  "norm_prefix (os_prefix arch_store) = os_prefix arch_store" "day_dates (d_chrono arch_job)"
  "names_ok sample_opts (ww_new (s3_drain_env arch_codec log_client arch_store arch_job) sample_opts w Base)"
  "mset (id ws) = mset ws" "cw_holds (d_cw arch_job) (o_log_group sample_opts) [arch_event]"
  "\<forall>e \<in> set [arch_event]. ok_record (d_chunk arch_job) 2 (record_of_event e)" "\<not> o_dry_run sample_opts"
  "o_chunk_target_bytes sample_opts + 2 \<le> FALLBACK_DECODE_CAP_BYTES" "resolve_range arch_job sample_opts = Inr (0, 30)"
  "0 < o_window_ms sample_opts" "0 < horizon" "30 < horizon"
  "group_empty (d_mjson arch_job) (map_of (ds_store \<lparr>ds_store = [], ds_events = []\<rparr>)) (os_prefix arch_store) sample_opts"
  "calendar_ok (d_chrono arch_job) arch_range"
  using arch_laws arch_source_holds arch_event_ok sample_not_dry log_client_laws(3)
  by (simp_all add: os_new_def norm_prefix_def trim_matches_def day_dates_def date_from_ts_ms_def sample_chrono_def names_ok_def ww_new_def
      byte_in_def FALLBACK_DECODE_CAP_BYTES_def resolve_range_def sample_opts_def drain_options_new_def horizon_def DAY_MS_def i64_MAX_def
      group_empty_def window_proved_def calendar_ok_def dates_in_range_def)

lemma arch_opts: "o_window_ms sample_opts = 20" "o_account sample_opts = ''1''" "o_log_group sample_opts = ''g''"
  by (simp_all add: sample_opts_def drain_options_new_def)

lemma arch_event_facts: "record_of_event arch_event = sample_record 5" "in_window sample_window arch_event"
    "ev_timestamp arch_event = 5" "ev_message arch_event = ''m''"
  by (simp_all add: record_of_event_def arch_event_def sample_record_def in_window_def)

text \<open>What becomes of a multiset of records that is selected, labelled, rendered and selected again.\<close>

lemma mset_through:
  assumes "mset recs = mset (map f (filter R EV))"
  shows "filter_mset Q (image_mset h (mset (map (\<lambda>r. (r, g)) (filter P recs))))
    = mset (map (\<lambda>e. h (f e, g)) (filter (\<lambda>e. R e \<and> P (f e) \<and> Q (h (f e, g))) EV))"
proof -
  have "filter_mset Q (image_mset h (mset (map (\<lambda>r. (r, g)) (filter P recs))))
      = filter_mset Q (image_mset h (image_mset (\<lambda>r. (r, g)) (filter_mset P (mset (map f (filter R EV))))))"
    using assms by simp
  also have "\<dots> = mset (map (\<lambda>e. h (f e, g)) (filter (\<lambda>e. R e \<and> P (f e) \<and> Q (h (f e, g))) EV))"
    by (induction EV) simp_all
  finally show ?thesis .
qed

section \<open>Properties\<close>

text \<open>
  C1: what is drained is found again. Take a log group with the events \<open>EV\<close> and nothing drained yet. After
  a successful drain run, in whatever order its windows and shard pages complete, a scan of the bucket
  over any time range and pattern ends and hands out, in ascending order of timestamp and stream, exactly
  the records of those events of \<open>EV\<close> that lie in a window of the run's range and match: none is lost on
  the way through chunks, sidecars, keys and merge, and none comes twice.
\<close>

theorem drain_then_scan:
  assumes "archive_laws X cl (os_bucket b) objs (d_chunk D)" and "get_sound cl (os_bucket b) objs"
    and "norm_prefix (os_prefix b) = os_prefix b" and "day_dates (d_chrono D)"
    and "\<And>w. names_ok opts (ww_new (s3_drain_env X cl b D) opts w Base)" and "\<And>ws. mset (order ws) = mset ws"
    and "cw_holds (d_cw D) (o_log_group opts) EV" and "\<forall>e \<in> set EV. ok_record (d_chunk D) lim (record_of_event e)"
    and "\<not> o_dry_run opts" and "o_chunk_target_bytes opts + lim \<le> FALLBACK_DECODE_CAP_BYTES"
    and "resolve_range D opts = Inr (frm, to)" and "0 < o_window_ms opts" and "frm < horizon" and "to < horizon"
    and "group_empty (d_mjson D) (objs (ds_store st)) (os_prefix b) opts"
    and "drain_run (s3_drain_env X cl b D) order opts st = Some (st', Inr report)"
    and "list_law cl (os_bucket b) objs (ds_store st')" and "calendar_ok (d_chrono D) rg"
  shows "\<exists>wins out stats. windows frm to (o_window_ms opts) = Some (Inr wins)
    \<and> scan_log_groups (reader_of X cl b (d_chunk D) (d_chrono D)) (ds_store st') (o_account opts) [o_log_group opts] rg pat emt acc
        = Some (with_stats (emit_all emt out acc) stats)
    \<and> sorted (map (\<lambda>(r, g). (timestamp r, stream r)) out)
    \<and> mset out = mset (map (\<lambda>e. (record_of_event e, o_log_group opts))
        (filter (\<lambda>e. (\<exists>w \<in> set wins. in_window w e) \<and> record_matches (record_of_event e) rg pat) EV))"
proof -
  let ?V = "reader_of X cl b (d_chunk D) (d_chrono D)"
  from drained_records [OF assms(1-16)] obtain wins locs A where w: "windows frm to (o_window_ms opts) = Some (Inr wins)"
    and A: "archived ?V objs (ds_store st') (o_account opts) (o_log_group opts) locs A"
    and m: "mset (concat (map A locs)) = mset (map record_of_event (filter (in_windows wins) EV))"
    unfolding holds_records_def by blast
  have V: "scan_laws ?V objs" "list_law (sv_client ?V) (os_bucket (sv_store ?V)) objs (ds_store st')" "calendar_ok (sv_chrono ?V) rg"
    "\<forall>g \<in> set [o_log_group opts]. archived ?V objs (ds_store st') (o_account opts) g locs A"
    using assms(1,17,18) A by (simp_all add: scan_laws_def archive_laws_def)
  from scan_emits [OF V, of pat emt acc] obtain out stats where
    s: "scan_log_groups ?V (ds_store st') (o_account opts) [o_log_group opts] rg pat emt acc = Some (with_stats (emit_all emt out acc) stats)"
      "sorted (map (rec_order \<circ> fst) out)" "mset out = mset (group_hits rg pat [o_log_group opts] (\<lambda>_. locs) A)" by blast
  have "rec_order \<circ> fst = (\<lambda>(r, g :: string). (timestamp r, stream r))" by (auto simp: rec_order_def)
  then have so: "sorted (map (\<lambda>(r, g). (timestamp r, stream r)) out)" using s(2) by simp
  have "mset out = image_mset (\<lambda>r. (r, o_log_group opts)) (filter_mset (\<lambda>r. record_matches r rg pat) (mset (concat (map A locs))))"
    using s(3) by (simp add: group_hits_def)
  also have "\<dots> = mset (map (\<lambda>e. (record_of_event e, o_log_group opts))
        (filter (\<lambda>e. (\<exists>w \<in> set wins. in_window w e) \<and> record_matches (record_of_event e) rg pat) EV))"
    unfolding m by (simp add: in_windows_def filter_mset_image_mset filter_filter_mset multiset.map_comp comp_def conj_commute)
  finally show ?thesis using w s(1) so by blast
qed

theorem drain_then_scan_witness:
  "\<exists>st' report stats. drain_run (s3_drain_env arch_codec log_client arch_store arch_job) id sample_opts
       \<lparr>ds_store = [], ds_events = []\<rparr> = Some (st', Inr report)
     \<and> scan_log_groups (reader_of arch_codec log_client arch_store sample_env sample_chrono) (ds_store st') ''1'' [''g''] arch_range None
         (\<lambda>r g acc. (acc @ [(r, g)], Inr ())) [] = Some ([(sample_record 5, ''g'')], Inr stats)"
proof -
  obtain st' report where run: "drain_run (s3_drain_env arch_codec log_client arch_store arch_job) id sample_opts
       \<lparr>ds_store = [], ds_events = []\<rparr> = Some (st', Inr report)" using arch_run by blast
  from drain_then_scan [OF arch_hyps(1-15) run log_client_list arch_hyps(16), of None "\<lambda>r g acc. (acc @ [(r, g)], Inr ())" "[]"]
  obtain wins out stats where w: "windows 0 30 20 = Some (Inr wins)"
    and s: "scan_log_groups (reader_of arch_codec log_client arch_store sample_env sample_chrono) (ds_store st') ''1'' [''g''] arch_range None
       (\<lambda>r g acc. (acc @ [(r, g)], Inr ())) [] = Some (with_stats (emit_all (\<lambda>r g acc. (acc @ [(r, g)], Inr ())) out []) stats)"
    and m: "mset out = mset (map (\<lambda>e. (record_of_event e, ''g''))
        (filter (\<lambda>e. (\<exists>w \<in> set wins. in_window w e) \<and> record_matches (record_of_event e) arch_range None) [arch_event]))"
    unfolding arch_opts arch_job_simps by blast
  have "wins = [sample_window]" using w sample_windows by simp
  then have "out = [(sample_record 5, ''g'')]" using m by (simp add: arch_event_facts arch_matches)
  then show ?thesis using run s by (auto simp: with_stats_def)
qed



end
