(* ===== verification/S4_Ingest.thy ===== *)
theory S4_Ingest
  imports S4_Archive S4_Gateway
begin

text \<open>
  From the gateway to the reader: in every interleaving of requests, sweeps and flushes the bucket stays an
  archive a scan reads (\<open>archived\<close> of \<open>S4_Scan\<close>), whatever objects and sidecars failed flushes leave behind, and every
  record the gateway stored is in it.
\<close>

section \<open>The objects of the gateway\<close>

definition gw_name :: "('s, 'dt) buffer_env \<Rightarrow> buffer_config \<Rightarrow> string \<Rightarrow> int \<Rightarrow> int \<Rightarrow> nat \<Rightarrow> chunk_location" where
  "gw_name G c g t ts i = \<lparr>account = bc_account c, log_group = g, date = date_from_ts_ms (g_chrono G) t,
     obj_name = show_int ts @ ''-'' @ g_uuid G i\<rparr>"

text \<open>Only names with one of the first \<open>n\<close> suffixes are in use in the group.\<close>

definition names_used ::
    "s4_codec \<Rightarrow> ('s, 'dt) buffer_env \<Rightarrow> buffer_config \<Rightarrow> string \<Rightarrow> (string \<rightharpoonup> bytes) \<Rightarrow> string \<Rightarrow> nat \<Rightarrow> bool" where
  "names_used X G c pre os g n \<longleftrightarrow> (\<forall>t ts i. (\<exists>k \<in> chunk_keys X (gw_name G c g t ts i) pre. os k \<noteq> None) \<longrightarrow> (\<exists>j < n. g_uuid G j = g_uuid G i))"

text \<open>No data object of the group holds more text than the scan's fallback decoder takes.\<close>

definition objects_fit :: "chunk_env \<Rightarrow> string \<Rightarrow> (string \<rightharpoonup> bytes) \<Rightarrow> string \<Rightarrow> string \<Rightarrow> bool" where
  "objects_fit E pre os acct g \<longleftrightarrow> (\<forall>k body t e. starts_with (data_group_prefix pre acct g) k \<longrightarrow> os k = Some body \<longrightarrow>
     zstd_decode E body = Inr (t, e) \<longrightarrow> length t \<le> FALLBACK_DECODE_CAP_BYTES)"

definition readable_laws :: "('s, 'dt) buffer_env \<Rightarrow> (string \<Rightarrow> log_record \<Rightarrow> bool) \<Rightarrow> bool" where
  "readable_laws G okr \<longleftrightarrow> (\<forall>g r. okr g r \<longrightarrow> is_i64 (timestamp r) \<and> json_closed (json (g_chunk G)) r)"

text \<open>
  What a scan of the group sees: the records \<open>old\<close> from before, every stored record, and otherwise only
  accepted ones.
\<close>

definition sees ::
    "s4_codec \<Rightarrow> 's s3_client \<Rightarrow> object_store \<Rightarrow> ('s \<Rightarrow> string \<rightharpoonup> bytes) \<Rightarrow> ('s, 'dt) buffer_env \<Rightarrow> buffer_config
     \<Rightarrow> (string \<Rightarrow> log_record \<Rightarrow> bool) \<Rightarrow> string \<Rightarrow> log_record set \<Rightarrow> nat \<Rightarrow> 's \<Rightarrow> bool" where
  "sees X cl b objs G c okr g old n s \<longleftrightarrow>
     (\<exists>locs A. archived (reader_of X cl b (g_chunk G) (g_chrono G)) objs s (bc_account c) g locs A
        \<and> old \<subseteq> set (concat (map A locs))
        \<and> (\<forall>r. stored_rec G c (os_prefix b) n (objs s) (g, r) \<longrightarrow> r \<in> set (concat (map A locs)))
        \<and> (\<forall>r \<in> set (concat (map A locs)). r \<in> old \<or> okr g r))"

lemma gw_name_wf: "gw_laws G c okr \<Longrightarrow> utf8_ok g \<Longrightarrow> wf_location (gw_name G c g t ts i)"
  unfolding gw_name_def by (rule gw_location_wf)

lemma gw_name_sel [simp]:
  "account (gw_name G c g t ts i) = bc_account c" "log_group (gw_name G c g t ts i) = g"
  "date (gw_name G c g t ts i) = date_from_ts_ms (g_chrono G) t"
  by (simp_all add: gw_name_def)

lemma gw_name_suffix: "gw_laws G c okr \<Longrightarrow> gw_name G c g t ts i = gw_name G c g' t' us j \<Longrightarrow> g_uuid G i = g_uuid G j"
  using suffix_names_differ [of G c okr ts i us j] by (simp add: gw_name_def)

lemma names_used_mono: "names_used X G c pre os g n \<Longrightarrow> n \<le> m \<Longrightarrow> names_used X G c pre os g m"
  unfolding names_used_def by (meson order_less_le_trans)

text \<open>Drawing suffixes stores nothing.\<close>

lemma stored_rec_drawn:
  assumes "names_used X G c pre os g n" and "stored_rec G c pre m os (g, r)"
  shows "stored_rec G c pre n os (g, r)"
proof -
  from assms(2) obtain i ts rs body where x: "r \<in> set rs" "utf8_ok g" "jsonl_faithful (json (g_chunk G)) rs"
    and o: "os (data_key (gw_name G c g (timestamp r) ts i) pre) = Some body"
    and z: "zstd_decode (g_chunk G) body = Inr (jsonl_text (json (g_chunk G)) rs, None)"
    unfolding stored_rec_def gw_name_def by auto
  from o have "\<exists>k \<in> chunk_keys X (gw_name G c g (timestamp r) ts i) pre. os k \<noteq> None" by (auto simp: chunk_keys_def)
  then obtain j where j: "j < n" "g_uuid G j = g_uuid G i" using assms(1) unfolding names_used_def by blast
  then have "gw_name G c g (timestamp r) ts j = gw_name G c g (timestamp r) ts i" by (simp add: gw_name_def)
  then show ?thesis using j(1) x o z unfolding stored_rec_def gw_name_def by (auto intro!: exI [of _ j] exI [of _ ts] exI [of _ rs])
qed

lemma sees_drawn:
  assumes "names_used X G c (os_prefix b) (objs s) g n" and "sees X cl b objs G c okr g old n s"
  shows "sees X cl b objs G c okr g old m s"
  using assms stored_rec_drawn unfolding sees_def by blast

section \<open>One flush\<close>

text \<open>The objects of another chunk are neither this one's keys nor, in another group, under its prefix.\<close>

lemma chunk_put_frame:
  assumes L: "archive_laws X cl (os_bucket b) objs E"
    and put: "os_put_chunk X cl b loc ch s = (s', res)" and w: "wf_location loc" "wf_location l" and ne: "l \<noteq> loc"
    and k: "k \<in> chunk_keys X l (os_prefix b)"
  shows "objs s' k = objs s k"
proof -
  have p: "put_law cl (os_bucket b) objs" and sfx: "SIDECAR_SUFFIX X = ''.s4index''" using L by (simp_all add: archive_laws_def)
  have "chunk_keys X loc (os_prefix b) \<inter> chunk_keys X l (os_prefix b) = {}"
    by (rule chunk_keys_apart [OF w]) (use ne sfx in auto)
  then have "k \<notin> chunk_keys X loc (os_prefix b)" using k by blast
  then show ?thesis by (rule os_put_chunk_frame [OF p put])
qed

lemma other_group_prefix:
  assumes "wf_location loc" and "CHR ''/'' \<notin> set acct" and "log_group loc \<noteq> g"
  shows "\<not> starts_with (data_group_prefix p acct g) (data_key loc p)"
proof -
  have "CHR ''/'' \<notin> set (account loc)" using assms(1) by (simp add: wf_location_def)
  from group_prefix_separates [OF assms(2) this, of "norm_prefix p @ DATA_SEG @ ''/''" g "log_group loc"]
  show ?thesis using assms(3) by (simp add: data_key_in_group data_group_prefix_def)
qed

lemma archived_keep:
  assumes L: "archive_laws X cl (os_bucket b) objs E" and np: "norm_prefix (os_prefix b) = os_prefix b"
    and a: "archived (reader_of X cl b E T) objs s acct g locs A"
    and put: "os_put_chunk X cl b loc ch s = (s', res)" and w: "wf_location loc" and ne: "loc \<notin> set locs"
    and d: "starts_with (data_group_prefix (os_prefix b) acct g) (data_key loc (os_prefix b)) \<Longrightarrow>
      objs s' (data_key loc (os_prefix b)) = objs s (data_key loc (os_prefix b))"
  shows "archived (reader_of X cl b E T) objs s' acct g locs A"
proof (rule archived_frame [OF L np a])
  fix k assume k: "(\<exists>l \<in> set locs. k \<in> chunk_keys X l (os_prefix b)) \<or> starts_with (data_group_prefix (os_prefix b) acct g) k"
  have p: "put_law cl (os_bucket b) objs" using L by (simp add: archive_laws_def)
  show "objs s' k = objs s k"
  proof (cases "k \<in> chunk_keys X loc (os_prefix b)")
    case False
    then show ?thesis by (rule os_put_chunk_frame [OF p put])
  next
    case True
    from k show ?thesis
    proof
      assume "\<exists>l \<in> set locs. k \<in> chunk_keys X l (os_prefix b)"
      then obtain l where l: "l \<in> set locs" "k \<in> chunk_keys X l (os_prefix b)" ..
      then show ?thesis using chunk_put_frame [OF L put w _ _ l(2)] a ne by (auto simp: archived_def)
    next
      assume "starts_with (data_group_prefix (os_prefix b) acct g) k"
      moreover from this True have "k = data_key loc (os_prefix b)" using sidecar_not_data by (auto simp: chunk_keys_def)
      ultimately show ?thesis using d by simp
    qed
  qed
qed


text \<open>The facts of a flush that every lemma on it needs.\<close>

lemma flush_chunk:
  assumes G: "gw_laws G c okr" and bh: "buf_has G okr k B rs" and e: "cw_encode (g_chunk G) (b_writer B) = Inr (Some ch)"
  obtains level fs zs t where "chunk_holds (g_chunk G) level ch fs zs" "concat fs = rs" "rs \<noteq> []" "utf8_ok (fst k)"
    "flush_location G c k B n = gw_name G c (fst k) t (b_first_event_ts_ms B) n"
    "\<forall>r \<in> set rs. date_from_ts_ms (g_chrono G) (timestamp r) = snd k \<and> okr (fst k) r"
    "zstd_decode (g_chunk G) (chunk_body ch) = Inr (jsonl_text (json (g_chunk G)) rs, None)"
    "jsonl_faithful (json (g_chunk G)) rs"
proof -
  have w: "writer_has (g_chunk G) (b_writer B) rs" and rk: "\<forall>r \<in> set rs. rec_key G (fst k) r = k \<and> okr (fst k) r"
    using bh by (simp_all add: buf_has_def)
  from writer_finished [OF w, unfolded cw_finish_def, OF e] obtain level fs zs where
    h: "chunk_holds (g_chunk G) level ch fs zs" "concat fs = rs" by auto
  have z: "zstd_faithful (g_chunk G)" using G by (simp add: gw_laws_def)
  from writer_has_finish [OF z w e] have ch: "chunk_has (g_chunk G) ch rs" by simp
  then have ne: "rs \<noteq> []" by (simp add: chunk_has_def)
  have dt: "\<forall>r \<in> set rs. date_from_ts_ms (g_chrono G) (timestamp r) = snd k \<and> okr (fst k) r"
    using rk by (metis rec_key_def snd_conv)
  moreover have "hd rs \<in> set rs" using ne by simp
  ultimately have "flush_location G c k B n = gw_name G c (fst k) (timestamp (hd rs)) (b_first_event_ts_ms B) n" "utf8_ok (fst k)"
    using G by (auto simp: flush_location_def gw_name_def gw_laws_def)
  moreover have "jsonl_faithful (json (g_chunk G)) rs" using dt G by (auto simp: jsonl_faithful_def gw_laws_def)
  ultimately show thesis using that h ne dt ch by (auto simp: chunk_has_def)
qed

lemma names_used_put:
  assumes L: "archive_laws X cl (os_bucket b) objs E" and G: "gw_laws G c okr" and u: "utf8_ok g" "utf8_ok g'"
    and loc: "loc = gw_name G c g' t ts n" and put: "os_put_chunk X cl b loc ch s = (s', res)"
    and nu: "names_used X G c (os_prefix b) (objs s) g n"
  shows "names_used X G c (os_prefix b) (objs s') g (n + 1)"
  unfolding names_used_def
proof (intro allI impI)
  fix t' us i assume "\<exists>k \<in> chunk_keys X (gw_name G c g t' us i) (os_prefix b). objs s' k \<noteq> None"
  then obtain k where k: "k \<in> chunk_keys X (gw_name G c g t' us i) (os_prefix b)" "objs s' k \<noteq> None" ..
  show "\<exists>j < n + 1. g_uuid G j = g_uuid G i"
  proof (cases "gw_name G c g t' us i = loc")
    case True
    then have "g_uuid G n = g_uuid G i" using gw_name_suffix [OF G] loc by metis
    then show ?thesis by (intro exI [of _ n]) simp
  next
    case False
    have "wf_location loc" unfolding loc by (rule gw_name_wf [OF G u(2)])
    from chunk_put_frame [OF L put this gw_name_wf [OF G u(1)] False k(1)] k have "\<exists>k \<in> chunk_keys X (gw_name G c g t' us i) (os_prefix b). objs s k \<noteq> None"
      by auto
    then obtain j where "j < n" "g_uuid G j = g_uuid G i" using nu unfolding names_used_def by blast
    then show ?thesis by (intro exI [of _ j]) simp
  qed
qed

lemma fresh_keys:
  assumes "names_used X G c pre os g n" and "fresh_suffix G n"
  shows "\<forall>k \<in> chunk_keys X (gw_name G c g t ts n) pre. os k = None"
  using assms unfolding names_used_def fresh_suffix_def by blast

text \<open>What the group's stored records after the put are: those before, and those of the chunk.\<close>

lemma stored_rec_put:
  assumes L: "archive_laws X cl (os_bucket b) objs E" and G: "gw_laws G c okr" and u: "utf8_ok g'"
    and loc: "loc = gw_name G c g' t ts n" and put: "os_put_chunk X cl b loc ch s = (s', res)"
    and nu: "names_used X G c (os_prefix b) (objs s) g n"
    and new: "g' = g \<Longrightarrow> objs s' (data_key loc (os_prefix b)) \<noteq> None \<Longrightarrow> objs s' (data_key loc (os_prefix b)) = Some (chunk_body ch)"
    and z: "zstd_decode (g_chunk G) (chunk_body ch) = Inr (jsonl_text (json (g_chunk G)) rs, None)" "jsonl_faithful (json (g_chunk G)) rs"
    and st: "stored_rec G c (os_prefix b) (n + 1) (objs s') (g, r)"
  shows "stored_rec G c (os_prefix b) n (objs s) (g, r) \<or> (g' = g \<and> objs s' (data_key loc (os_prefix b)) \<noteq> None \<and> r \<in> set rs)"
proof -
  from st obtain i us qs body where x: "r \<in> set qs" "utf8_ok g" "jsonl_faithful (json (g_chunk G)) qs"
    and o: "objs s' (data_key (gw_name G c g (timestamp r) us i) (os_prefix b)) = Some body"
    and q: "zstd_decode (g_chunk G) body = Inr (jsonl_text (json (g_chunk G)) qs, None)"
    unfolding stored_rec_def gw_name_def by auto
  let ?l = "gw_name G c g (timestamp r) us i"
  show ?thesis
  proof (cases "?l = loc")
    case True
    then have gg: "g' = g" using loc by (metis gw_name_sel(2))
    have "body = chunk_body ch" using new [OF gg] o True by simp
    then have "jsonl_text (json (g_chunk G)) qs = jsonl_text (json (g_chunk G)) rs" using q z(1) by simp
    from arg_cong [OF this, of "record_lines (json (g_chunk G))"] have "qs = rs"
      unfolding record_lines_text [OF x(3)] record_lines_text [OF z(2)] by (simp add: inj_map_eq_map)
    then show ?thesis using x(1) gg o True by auto
  next
    case False
    have wf: "wf_location loc" unfolding loc by (rule gw_name_wf [OF G u])
    have "data_key ?l (os_prefix b) \<in> chunk_keys X ?l (os_prefix b)" by (simp add: chunk_keys_def)
    from chunk_put_frame [OF L put wf gw_name_wf [OF G x(2)] False this]
    have os: "objs s (data_key ?l (os_prefix b)) = Some body" using o by simp
    then have "stored_rec G c (os_prefix b) (i + 1) (objs s) (g, r)"
      using x q unfolding stored_rec_def gw_name_def by (auto intro!: exI [of _ i] exI [of _ us] exI [of _ qs])
    then show ?thesis using stored_rec_drawn [OF nu] by blast
  qed
qed


lemma account_ok: "gw_laws G c okr \<Longrightarrow> CHR ''/'' \<notin> set (bc_account c)"
  by (simp add: gw_laws_def)

lemma objects_fit_before:
  assumes L: "archive_laws X cl (os_bucket b) objs E" and G: "gw_laws G c okr" and u: "utf8_ok g'" and fr: "fresh_suffix G n"
    and loc: "loc = gw_name G c g' t ts n" and put: "os_put_chunk X cl b loc ch s = (s', res)"
    and nu: "names_used X G c (os_prefix b) (objs s) g n" and fit: "objects_fit E' (os_prefix b) (objs s') (bc_account c) g"
  shows "objects_fit E' (os_prefix b) (objs s) (bc_account c) g"
proof -
  have p: "put_law cl (os_bucket b) objs" using L by (simp add: archive_laws_def)
  have "objs s' k = Some body" if k: "starts_with (data_group_prefix (os_prefix b) (bc_account c) g) k" "objs s k = Some body" for k body
  proof (cases "k \<in> chunk_keys X loc (os_prefix b)")
    case True
    then have d: "k = data_key loc (os_prefix b)" using k(1) sidecar_not_data by (auto simp: chunk_keys_def)
    have "wf_location loc" unfolding loc by (rule gw_name_wf [OF G u])
    from other_group_prefix [OF this account_ok [OF G], of g "os_prefix b"] have "g' = g" using k(1) loc by (auto simp: d)
    then have "objs s k = None" using fresh_keys [OF nu fr] True loc by blast
    then show ?thesis using k(2) by simp
  next
    case False
    then show ?thesis using os_put_chunk_frame [OF p put] k(2) by simp
  qed
  then show ?thesis using fit unfolding objects_fit_def by blast
qed

lemma put_sees:
  assumes L: "archive_laws X cl (os_bucket b) objs (g_chunk G)" and np: "norm_prefix (os_prefix b) = os_prefix b"
    and G: "gw_laws G c okr" and rl: "readable_laws G okr" and fr: "fresh_suffix G n"
    and bh: "buf_has G okr k B rs" and e: "cw_encode (g_chunk G) (b_writer B) = Inr (Some ch)"
    and put: "os_put_chunk X cl b (flush_location G c k B n) ch s = (s', res)"
    and nu: "names_used X G c (os_prefix b) (objs s) g n"
    and fit: "objects_fit (g_chunk G) (os_prefix b) (objs s') (bc_account c) g"
    and se: "sees X cl b objs G c okr g old n s"
  shows "sees X cl b objs G c okr g old (n + 1) s'"
proof -
  let ?V = "reader_of X cl b (g_chunk G) (g_chrono G)" and ?p = "os_prefix b"
  from flush_chunk [OF G bh e, of n] obtain level fs zs t where h: "chunk_holds (g_chunk G) level ch fs zs" "concat fs = rs"
    and u: "utf8_ok (fst k)" and name: "flush_location G c k B n = gw_name G c (fst k) t (b_first_event_ts_ms B) n"
    and dt: "\<forall>r \<in> set rs. date_from_ts_ms (g_chrono G) (timestamp r) = snd k \<and> okr (fst k) r"
    and z: "zstd_decode (g_chunk G) (chunk_body ch) = Inr (jsonl_text (json (g_chunk G)) rs, None)" "jsonl_faithful (json (g_chunk G)) rs"
    by metis
  let ?loc = "flush_location G c k B n"
  have sel: "account ?loc = bc_account c" "log_group ?loc = fst k" "date ?loc = snd k" by (simp_all add: flush_location_def)
  have w: "wf_location ?loc" unfolding name by (rule gw_name_wf [OF G u])
  from se obtain locs A where a: "archived ?V objs s (bc_account c) g locs A" and old: "old \<subseteq> set (concat (map A locs))"
    and st: "\<And>r. stored_rec G c ?p n (objs s) (g, r) \<Longrightarrow> r \<in> set (concat (map A locs))"
    and acc: "\<forall>r \<in> set (concat (map A locs)). r \<in> old \<or> okr g r" unfolding sees_def by blast
  have new: "\<forall>x \<in> chunk_keys X ?loc ?p. objs s x = None" if "fst k = g"
    using fresh_keys [OF nu fr] that unfolding name by simp
  have val: "objs s' (data_key ?loc ?p) = Some (chunk_body ch)" if "fst k = g" "objs s' (data_key ?loc ?p) \<noteq> None"
    by (rule put_values(1) [OF L put new [OF that(1)] that(2)])
  have notin: "?loc \<notin> set locs"
  proof
    assume i: "?loc \<in> set locs"
    then have "log_group ?loc = g" using a by (simp add: archived_def)
    then have "objs s (data_key ?loc ?p) = None" using new sel by (simp add: chunk_keys_def)
    moreover have "data_key ?loc ?p \<in> (\<lambda>l. data_key l ?p) ` set locs" using i by blast
    then have "objs s (data_key ?loc ?p) \<noteq> None" using a np unfolding archived_def by auto
    ultimately show False by simp
  qed
  note stored = stored_rec_put [OF L G u name put nu val z]
  show ?thesis
  proof (cases "fst k = g \<and> objs s' (data_key ?loc ?p) \<noteq> None")
    case True
    then have body: "objs s' (data_key ?loc ?p) = Some (chunk_body ch)" using val by blast
    have "starts_with (data_group_prefix ?p (bc_account c) g) (data_key ?loc ?p)"
      using True sel by (simp add: data_key_in_group starts_with_append)
    then have "length (jsonl_text (json (g_chunk G)) rs) \<le> FALLBACK_DECODE_CAP_BYTES"
      using fit body z(1) unfolding objects_fit_def by blast
    then have cf: "chunk_fit (g_chunk G) (concat fs)" using z(2) dt rl by (auto simp: chunk_fit_def h(2) readable_laws_def)
    have "chunk_at ?V objs s' ?loc (concat fs)" by (rule put_chunk_attempt [OF L np h(1) cf put]) (use new True in blast)+
    then have c: "chunk_at ?V objs s' ?loc rs" by (simp add: h(2))
    have "archived ?V objs s' (account ?loc) (log_group ?loc) (locs @ [?loc]) (A(?loc := rs))"
    proof (rule archived_add [OF L np _ w notin _ c])
      show "archived ?V objs s (account ?loc) (log_group ?loc) locs A" using a True sel by simp
      show "objs s' x = objs s x" if "x \<notin> chunk_keys X ?loc ?p" for x
        using os_put_chunk_frame [OF _ put that] L by (simp add: archive_laws_def)
      show "\<forall>r \<in> set rs. date_from_ts_ms (g_chrono G) (timestamp r) = date ?loc" using dt sel by simp
    qed
    then have a': "archived ?V objs s' (bc_account c) g (locs @ [?loc]) (A(?loc := rs))" using True sel by simp
    have "map (A(?loc := rs)) (locs @ [?loc]) = map A locs @ [rs]" using notin by auto
    then have all: "set (concat (map (A(?loc := rs)) (locs @ [?loc]))) = set (concat (map A locs)) \<union> set rs" by (simp only:) simp
    show ?thesis unfolding sees_def
      by (rule exI [of _ "locs @ [?loc]"], rule exI [of _ "A(?loc := rs)"])
        (unfold all, use a' old st acc stored dt True in blast)
  next
    case False
    have a': "archived ?V objs s' (bc_account c) g locs A"
    proof (rule archived_keep [OF L np a put w notin])
      assume pre: "starts_with (data_group_prefix ?p (bc_account c) g) (data_key ?loc ?p)"
      then have "fst k = g" using other_group_prefix [OF w account_ok [OF G], of g ?p] sel by auto
      then show "objs s' (data_key ?loc ?p) = objs s (data_key ?loc ?p)" using False new by (simp add: chunk_keys_def)
    qed
    show ?thesis unfolding sees_def
      by (rule exI [of _ locs], rule exI [of _ A]) (use a' old st acc stored False in blast)
  qed
qed


section \<open>Every run\<close>

definition seen_inv ::
    "s4_codec \<Rightarrow> 's s3_client \<Rightarrow> object_store \<Rightarrow> ('s \<Rightarrow> string \<rightharpoonup> bytes) \<Rightarrow> ('s, 'dt) buffer_env \<Rightarrow> buffer_config
     \<Rightarrow> (string \<Rightarrow> log_record \<Rightarrow> bool) \<Rightarrow> string \<Rightarrow> log_record set \<Rightarrow> 's buffer_manager \<Rightarrow> bool" where
  "seen_inv X cl b objs G c okr g old bm \<longleftrightarrow> names_used X G c (os_prefix b) (objs (bm_store bm)) g (bm_rng bm)
     \<and> (objects_fit (g_chunk G) (os_prefix b) (objs (bm_store bm)) (bc_account c) g \<longrightarrow>
          sees X cl b objs G c okr g old (bm_rng bm) (bm_store bm))"

lemma seen_inv_same:
  assumes "seen_inv X cl b objs G c okr g old bm" and "bm_store bm' = bm_store bm" and "bm_rng bm \<le> bm_rng bm'"
  shows "seen_inv X cl b objs G c okr g old bm'"
  using assms names_used_mono sees_drawn unfolding seen_inv_def by metis

lemma send_seen:
  assumes L: "archive_laws X cl (os_bucket b) objs (g_chunk G)" and np: "norm_prefix (os_prefix b) = os_prefix b"
    and G: "gw_laws G c okr" and rl: "readable_laws G okr" and u: "utf8_ok g" and gp: "g_put G = os_put_chunk X cl b"
    and bh: "buf_has G okr k B rs" and s: "flush_send G c k B bm = (bm', f)"
    and fr: "bm_rng bm < bm_rng bm' \<longrightarrow> fresh_suffix G (bm_rng bm)" and I: "seen_inv X cl b objs G c okr g old bm"
  shows "seen_inv X cl b objs G c okr g old bm'"
proof (cases "\<exists>ch. cw_encode (g_chunk G) (b_writer B) = Inr (Some ch)")
  case False
  then have "bm' = bm" using s by (auto simp: flush_send_def split: sum.splits option.splits)
  then show ?thesis using I by simp
next
  case True
  then obtain ch where e: "cw_encode (g_chunk G) (b_writer B) = Inr (Some ch)" ..
  obtain s' res where put: "os_put_chunk X cl b (flush_location G c k B (bm_rng bm)) ch (bm_store bm) = (s', res)"
    by (cases "os_put_chunk X cl b (flush_location G c k B (bm_rng bm)) ch (bm_store bm)")
  have bm': "bm_store bm' = s'" "bm_rng bm' = bm_rng bm + 1"
    using s e put by (auto simp: flush_send_def gp split: sum.splits)
  have fresh: "fresh_suffix G (bm_rng bm)" using fr bm'(2) by simp
  from flush_chunk [OF G bh e, of "bm_rng bm"] obtain t where uk: "utf8_ok (fst k)"
    and name: "flush_location G c k B (bm_rng bm) = gw_name G c (fst k) t (b_first_event_ts_ms B) (bm_rng bm)" by metis
  have nu: "names_used X G c (os_prefix b) (objs (bm_store bm)) g (bm_rng bm)" using I by (simp add: seen_inv_def)
  have "names_used X G c (os_prefix b) (objs s') g (bm_rng bm + 1)"
    by (rule names_used_put [OF L G u uk name put nu])
  moreover have "sees X cl b objs G c okr g old (bm_rng bm + 1) s'"
    if fit: "objects_fit (g_chunk G) (os_prefix b) (objs s') (bc_account c) g"
  proof -
    have "objects_fit (g_chunk G) (os_prefix b) (objs (bm_store bm)) (bc_account c) g"
      by (rule objects_fit_before [OF L G uk fresh name put nu fit])
    then have "sees X cl b objs G c okr g old (bm_rng bm) (bm_store bm)" using I by (simp add: seen_inv_def)
    from put_sees [OF L np G rl fresh bh e put nu fit this] show ?thesis .
  qed
  ultimately show ?thesis by (simp add: seen_inv_def bm')
qed

lemma flush_settle_same: "flush_settle G f bm = (bm', res) \<Longrightarrow> bm_store bm' = bm_store bm \<and> bm_rng bm' = bm_rng bm"
  by (cases f) (auto simp: delete_segment_def reinsert_def Let_def split: option.splits if_splits)

lemma step_seen:
  assumes L: "archive_laws X cl (os_bucket b) objs (g_chunk G)" and np: "norm_prefix (os_prefix b) = os_prefix b"
    and G: "gw_laws G c okr" and rl: "readable_laws G okr" and u: "utf8_ok g" and gp: "g_put G = os_put_chunk X cl b"
    and st: "gw_step G c okr (bm, fls, ak) (bm', fls', ak')" and wf: "gw_wf G c okr bm fls"
    and I: "seen_inv X cl b objs G c okr g old bm"
  shows "seen_inv X cl b objs G c okr g old bm'"
  using st
proof (cases rule: gw_step.cases)
  case (accept xs due)
  from accept_batch_keeps [OF wf G accept(3,4)] obtain bm1 where "keeps G c okr fls bm bm1" "bm' = bm1\<lparr>bm_buffers := bm_buffers bm'\<rparr>"
    by auto
  then have "bm_store bm' = bm_store bm" "bm_rng bm \<le> bm_rng bm'"
    using keepsD(4,5) by (metis buffer_manager.select_convs(3) buffer_manager.surjective buffer_manager.update_convs(1),
      metis buffer_manager.select_convs(5) buffer_manager.surjective buffer_manager.update_convs(1))
  then show ?thesis by (rule seen_inv_same [OF I])
next
  case (reject xs e)
  from accept_batch_keeps [OF wf G reject(3,4)] have "keeps G c okr fls bm bm'" by simp
  then show ?thesis using seen_inv_same [OF I] keepsD(4,5) by blast
next
  case (take ks t m)
  then show ?thesis by (intro seen_inv_same [OF I]) simp_all
next
  case (send k B f f1 f2)
  have "live_ok G c okr (bm_fs bm) (k, B)" using wf by (simp add: gw_wf_def live_def send)
  then obtain rs where "buf_has G okr k B rs" by (auto simp: live_ok_def)
  from send_seen [OF L np G rl u gp this _ _ I] send show ?thesis by blast
next
  case (settle f res f1 f2)
  from flush_settle_same [OF settle(5)] show ?thesis by (intro seen_inv_same [OF I]) simp_all
next
  case (bookkeeping n flush_ok t)
  then show ?thesis by (intro seen_inv_same [OF I]) simp_all
qed

lemma run_seen:
  assumes L: "archive_laws X cl (os_bucket b) objs (g_chunk G)" and np: "norm_prefix (os_prefix b) = os_prefix b"
    and G: "gw_laws (s3_gateway_env X cl b G) c okr" and rl: "readable_laws (s3_gateway_env X cl b G) okr" and u: "utf8_ok g"
    and fs: "fs_ok (g_wjson G) fs" and run: "gw_run (s3_gateway_env X cl b G) c okr (bm_new s fs, [], []) (bm, fls, ak)"
    and I: "seen_inv X cl b objs (s3_gateway_env X cl b G) c okr g old (bm_new s fs)"
  shows "seen_inv X cl b objs (s3_gateway_env X cl b G) c okr g old bm"
proof -
  let ?G = "s3_gateway_env X cl b G"
  have p: "put_law cl (os_bucket b) objs" using L by (simp add: archive_laws_def)
  note bs = s3_buffer_sink [OF p, of X G]
  have L': "archive_laws X cl (os_bucket b) objs (g_chunk ?G)" and gp: "g_put ?G = os_put_chunk X cl b" and f: "fs_ok (g_wjson ?G) fs"
    using L fs by (simp_all add: s3_gateway_env_def)
  define P where "P = (\<lambda>z :: 'a gw_state. buffer_sink.gw_inv ?G objs (os_prefix b) (\<lambda>_. True) c okr z \<and> seen_inv X cl b objs ?G c okr g old (fst z))"
  have "P z'" if "gw_run ?G c okr z z'" "P z" for z z'
    using that
  proof (induction rule: rtranclp_induct)
    case (step y y')
    obtain bm1 fl1 ak1 bm2 fl2 ak2 where y: "y = (bm1, fl1, ak1)" "y' = (bm2, fl2, ak2)" by (metis prod_cases3)
    have gi: "buffer_sink.gw_inv ?G objs (os_prefix b) (\<lambda>_. True) c okr y" and si: "seen_inv X cl b objs ?G c okr g old bm1"
      using step by (auto simp: P_def y)
    have wf: "gw_wf ?G c okr bm1 fl1" using gi by (simp add: buffer_sink.gw_inv_def [OF bs] y)
    have "seen_inv X cl b objs ?G c okr g old bm2"
      by (rule step_seen [OF L' np G rl u gp _ wf si]) (use step(2) y in simp)
    then show ?case using buffer_sink.gw_step_inv [OF bs step(2) G gi] by (simp add: P_def y)
  qed
  moreover have "P (bm_new s fs, [], [])" using buffer_sink.gw_inv_start [OF bs f] I by (simp add: P_def)
  ultimately have "P (bm, fls, ak)" using run by blast
  then show ?thesis by (simp add: P_def)
qed


section \<open>Scanning what a gateway left\<close>

lemma seen_start:
  assumes "archived (reader_of X cl b (g_chunk G) (g_chrono G)) objs s (bc_account c) g locs A"
    and "names_used X G c (os_prefix b) (objs s) g 0"
  shows "seen_inv X cl b objs G c okr g (set (concat (map A locs))) (bm_new s fs)"
proof -
  have "\<not> stored_rec G c (os_prefix b) 0 (objs s) x" for x by (simp add: stored_rec_def)
  then show ?thesis using assms unfolding seen_inv_def sees_def bm_new_def by auto
qed

lemma sees_scan:
  assumes L: "archive_laws X cl (os_bucket b) objs (g_chunk G)"
    and "list_law cl (os_bucket b) objs s" and "calendar_ok (g_chrono G) rg" and se: "sees X cl b objs G c okr g old n s"
  shows "\<exists>out stats. scan_log_groups (reader_of X cl b (g_chunk G) (g_chrono G)) s (bc_account c) [g] rg pat emt acc
        = Some (with_stats (emit_all emt out acc) stats)
    \<and> sorted (map (\<lambda>(r, g). (timestamp r, stream r)) out)
    \<and> (\<forall>r. record_matches r rg pat \<and> (r \<in> old \<or> stored_rec G c (os_prefix b) n (objs s) (g, r)) \<longrightarrow> (r, g) \<in> set out)
    \<and> (\<forall>(r, g') \<in> set out. g' = g \<and> record_matches r rg pat \<and> (r \<in> old \<or> okr g r))"
proof -
  let ?V = "reader_of X cl b (g_chunk G) (g_chrono G)"
  from se obtain locs A where a: "archived ?V objs s (bc_account c) g locs A" and old: "old \<subseteq> set (concat (map A locs))"
    and st: "\<And>r. stored_rec G c (os_prefix b) n (objs s) (g, r) \<Longrightarrow> r \<in> set (concat (map A locs))"
    and acc: "\<forall>r \<in> set (concat (map A locs)). r \<in> old \<or> okr g r" unfolding sees_def by blast
  have V: "scan_laws ?V objs" "list_law (sv_client ?V) (os_bucket (sv_store ?V)) objs s" "calendar_ok (sv_chrono ?V) rg"
    "\<forall>g' \<in> set [g]. archived ?V objs s (bc_account c) g' locs A"
    using assms(1-3) a by (simp_all add: scan_laws_def archive_laws_def)
  from scan_emits [OF V, of pat emt acc] obtain out stats where
    s: "scan_log_groups ?V s (bc_account c) [g] rg pat emt acc = Some (with_stats (emit_all emt out acc) stats)"
      "sorted (map (rec_order \<circ> fst) out)" "mset out = mset (group_hits rg pat [g] (\<lambda>_. locs) A)" by blast
  have "rec_order \<circ> fst = (\<lambda>(r, g :: string). (timestamp r, stream r))" by (auto simp: rec_order_def)
  then have so: "sorted (map (\<lambda>(r, g). (timestamp r, stream r)) out)" using s(2) by simp
  have "set out = set (group_hits rg pat [g] (\<lambda>_. locs) A)" by (rule mset_eq_setD [OF s(3)])
  then have "set out = (\<lambda>r. (r, g)) ` {r \<in> set (concat (map A locs)). record_matches r rg pat}"
    by (auto simp: group_hits_def)
  then show ?thesis using s(1) so old st acc by blast
qed


section \<open>A concrete gateway\<close>

definition gate_base :: "((string \<times> bytes) list, unit) buffer_env" where
  "gate_base =
     \<lparr>g_put = (\<lambda>_ _ s. (s, Inl (Storage ''down''))), g_sink_ready = (\<lambda>s. (s, True)), g_chunk = sample_env, g_wjson = one_json,
      g_chrono = sample_chrono, g_uuid = show_nat, g_iter = id\<rparr>"

abbreviation (input) gate_env :: "((string \<times> bytes) list, unit) buffer_env" where
  "gate_env \<equiv> s3_gateway_env arch_codec log_client arch_store gate_base"

lemma gate_fields:
  "g_chunk gate_env = sample_env" "g_wjson gate_env = one_json" "g_uuid gate_env = show_nat" "g_iter gate_env = id"
  "g_chrono gate_env = sample_chrono" "g_put gate_env = os_put_chunk arch_codec log_client arch_store"
  "g_chunk gate_base = sample_env" "g_chrono gate_base = sample_chrono" "g_wjson gate_base = one_json"
  by (simp_all add: gate_base_def s3_gateway_env_def)

lemma gate_date: "date_from_ts_ms sample_chrono t = ''1970-01-01''"
  by (simp add: sample_chrono_def date_from_ts_ms_def)

lemma gate_laws: "gw_laws gate_env buffer_config_default one_group"
  by (simp add: gw_laws_def gate_fields gate_date sample_zstd_faithful buffer_config_default_def one_json_faithful byte_in_def)

lemma gate_readable: "readable_laws gate_env one_group"
  by (simp add: readable_laws_def gate_fields sample_record_def is_i64_def i64_MIN_def i64_MAX_def json_closed_def sample_env_def sample_json_def CR_def)

lemma gate_fresh: "fresh_suffix gate_env n"
  by (simp add: fresh_suffix_def gate_fields)

lemma gate_writer:
  obtains w where "cw_push sample_env (sample_record 5) (cw_new chunk_config_default) = (w, Inr ())" "uncompressed_len w = 2"
    "cw_encode sample_env w = Inr (Some sample_chunk)"
proof -
  from sample_chunk_written obtain w where w: "push_all sample_env [sample_record 5] (cw_new chunk_config_default) = (w, Inr ())"
    "cw_finish sample_env w = Inr (Some sample_chunk)" by blast
  then have "cw_push sample_env (sample_record 5) (cw_new chunk_config_default) = (w, Inr ())" by (auto split: prod.splits sum.splits)
  with w(2) that one_writer show thesis by (auto simp: cw_finish_def)
qed

abbreviation (input) gate_bm :: "chunk_writer \<Rightarrow> (string \<times> bytes) list buffer_manager" where
  "gate_bm w \<equiv> (bm_new [] one_fs)\<lparr>bm_buffers := [((''g'', ''1970-01-01''),
     \<lparr>b_writer = w, b_first_event_ts_ms = 5, b_opened_at = 0, b_wal = None\<rparr>)]\<rparr>"

lemma gate_pushed:
  assumes w: "cw_push sample_env (sample_record 5) (cw_new chunk_config_default) = (w, Inr ())" "uncompressed_len w = 2"
  shows "push_events gate_env buffer_config_default ''g'' ''s'' [one_event] (bm_new [] one_fs) = (gate_bm w, Inr ())"
proof -
  let ?c = buffer_config_default
  have c: "bc_wal_dir ?c = None" "bc_chunk ?c = chunk_config_default" "bc_flush_bytes ?c = 8388608" "bc_max_buffered_bytes ?c = 268435456"
    by (simp_all add: buffer_config_default_def)
  have r: "reserve gate_env ?c (batch_size ''s'' [one_event]) (bm_new [] one_fs) = (bm_new [] one_fs, Inr ())"
    by (simp add: reserve_def reserve_take_def bm_new_def buffered_total_def batch_size_def one_event_def c)
  have o: "open_buf gate_env ?c (''g'', ''1970-01-01'') (sample_record 5) (bm_new [] one_fs) = (gate_bm (cw_new chunk_config_default),
      Inr \<lparr>b_writer = cw_new chunk_config_default, b_first_event_ts_ms = 5, b_opened_at = 0, b_wal = None\<rparr>)"
    by (simp add: open_buf_def bm_new_def c sample_record_def buf_set_def Let_def)
  have p: "push_loop gate_env ?c [(''g'', sample_record 5)] (bm_new [] one_fs) = (gate_bm w, Inr ())"
    by (simp add: push_one_def rec_key_def o log_append_def w gate_fields gate_date buf_set_def Let_def)
  have y: "sync_wal gate_env (gate_bm w) = (gate_bm w, Inr ())" by (simp add: sync_wal_def gate_fields)
  have a: "accept_batch gate_env ?c [(''g'', sample_record 5)] (bm_new [] one_fs) = (gate_bm w, Inr [])"
    unfolding accept_batch_def p prod.case sum.case y
    by (simp add: take_matching_def gate_fields w cap_loop.simps buffered_total_def buf_len_def c)
  show ?thesis by (simp add: push_events_def r a one_record flush_taken_def)
qed

lemma gate_put:
  "\<exists>s' r. os_put_chunk arch_codec log_client arch_store loc sample_chunk [] = (s', Inr r) \<and> list_all (\<lambda>(k, body). length body \<le> 100) s'"
  by (simp add: os_put_chunk_def put_ops put_object_inner_def log_client_def encode_sidecars_def Let_def arch_codec_def sample_chunk_def
      encode_ts_index_def TS_INDEX_MAGIC_def)

lemma gate_flushed:
  assumes w: "cw_encode sample_env w = Inr (Some sample_chunk)"
  shows "\<exists>bm'. flush_all gate_env buffer_config_default (gate_bm w) = (bm', Inr ()) \<and> bm_fs bm' = one_fs
    \<and> list_all (\<lambda>(k, body). length body \<le> 100) (bm_store bm')"
proof -
  let ?k = "(''g'', ''1970-01-01'')"
  let ?b = "\<lparr>b_writer = w, b_first_event_ts_ms = 5, b_opened_at = 0, b_wal = None\<rparr>"
  obtain s' r where p: "os_put_chunk arch_codec log_client arch_store (flush_location gate_env buffer_config_default ?k ?b 0) sample_chunk [] = (s', Inr r)"
    and l: "list_all (\<lambda>(k, body). length body \<le> 100) s'" using gate_put by blast
  have t: "take_matching gate_env (\<lambda>_. True) (bm_buffers (gate_bm w)) = ([(?k, ?b)], [])"
    by (simp add: take_matching_def gate_fields buf_remove_def)
  have s: "flush_send gate_env buffer_config_default ?k ?b (bm_new [] one_fs) = ((bm_new [] one_fs)\<lparr>bm_store := s', bm_rng := 1\<rparr>, Stored ?k ?b)"
    unfolding flush_send_def gate_fields using w p by (simp add: bm_new_def)
  have e: "gate_bm w\<lparr>bm_buffers := []\<rparr> = bm_new [] one_fs" by (simp add: bm_new_def)
  show ?thesis unfolding flush_all_def t prod.case e
    by (simp add: flush_taken_def flush_one_def s delete_segment_def l) (simp add: bm_new_def)
qed

section \<open>Properties\<close>



end
