(* ===== verification/Spec2Isabelle.thy ===== *)
theory Spec2Isabelle
  imports S4_Read S4_Layout S4_Plan S4_Ingest
begin

text \<open>
  \<^bold>\<open>S4-logs in Isabelle/HOL.\<close> S4-logs moves CloudWatch Logs into S3 and reads it back from there. The
  repository has four crates under \<^verbatim>\<open>src/crates\<close> and one of end-to-end tests; this library models the four, from the bytes of
  one chunk up to the exit code of a command.

  \<^bold>\<open>The program.\<close> \<^verbatim>\<open>s4logs-core\<close> defines the stored form: a record is a JSONL line, a chunk is a
  concatenation of zstd frames with two sidecars (the S4IX frame index and the S4LT timestamp table)
  under keys derived from account, log group, date and object name. \<^verbatim>\<open>s4logs-drain\<close> pages the events of
  a time window out of CloudWatch, writes them as chunks, and seals the window with a manifest; only
  sealed windows permit shortening a group's retention, and a reconcile pass compares a sealed window with
  CloudWatch and appends what is missing. \<^verbatim>\<open>s4logs-gateway\<close> answers the CloudWatch Logs API, buffers
  incoming events (optionally behind a write-ahead log) and flushes them as chunks. \<^verbatim>\<open>s4logs-cli\<close> runs drains
  and the gateway, and reads the bucket back (\<^verbatim>\<open>grep\<close>, \<^verbatim>\<open>restore\<close>, \<^verbatim>\<open>report\<close>, \<^verbatim>\<open>plan\<close>).

  \<^bold>\<open>How code becomes HOL.\<close> Structs are records and enums are datatypes with the source's names. A
  \<^verbatim>\<open>Result\<close> is a sum with \<^const>\<open>Inl\<close> for \<^verbatim>\<open>Err\<close>, so every early return is a branch. \<^verbatim>\<open>i64\<close> is
  \<^typ>\<open>int\<close> with \<^const>\<open>sat_i64\<close> and \<^const>\<open>wrap_i64\<close> where the source saturates or may wrap, \<^verbatim>\<open>u64\<close> and
  \<^verbatim>\<open>usize\<close> are \<^typ>\<open>nat\<close> with \<^const>\<open>sat_u64\<close> and truncated subtraction where the source
  has them; binary formats are lists of \<^typ>\<open>8 word\<close>. A method on \<^verbatim>\<open>&mut self\<close> returns the new state with
  its result. A loop whose end depends on an answer from outside (paging, backoff, scanning, restoring) or
  on arithmetic is a \<^verbatim>\<open>partial_function (option)\<close> whose value \<^const>\<open>None\<close> is
  \<^emph>\<open>does not return\<close>; that it returns is then a theorem. Concurrency is an argument (the completion
  order of windows, groups and shard pages, the scheduling of a scan) or, for the gateway, the step
  relation \<^const>\<open>gw_step\<close> whose steps are the sections the code runs under one lock.

  \<^bold>\<open>Theories.\<close> \<^verbatim>\<open>S4_Prelude\<close> holds integers, bytes, the \<^verbatim>\<open>str\<close> functions, results, generic list lemmas and
  the locales \<open>codec\<close> and \<open>canonical_codec\<close> (injectivity and canonicity from a round trip).

  \<^item> \<^verbatim>\<open>s4logs-core\<close>: \<^verbatim>\<open>S4_Record\<close> (\<^verbatim>\<open>record.rs\<close>), \<^verbatim>\<open>S4_Chunk\<close> (\<^verbatim>\<open>chunk.rs\<close>: the writer holds finished frames
    and one pending frame; \<open>writer_holds\<close> and \<open>chunk_holds\<close> say which records they stand for),
    \<^verbatim>\<open>S4_Tsindex\<close> (\<^verbatim>\<open>tsindex.rs\<close>: the decoder accepts exactly the encoder's image), \<^verbatim>\<open>S4_Layout\<close>
    (\<^verbatim>\<open>layout.rs\<close>: key injectivity, disjointness, parsing back), \<^verbatim>\<open>S4_Read\<close> (\<^verbatim>\<open>read.rs\<close>: pruning and coalescing
    lose nothing, decompression is capped), \<^verbatim>\<open>S4_Sink\<close> (\<^verbatim>\<open>sink.rs\<close>, \<^verbatim>\<open>store.rs\<close>: the locale \<open>chunk_sink\<close>, its
    instance on the in-memory sink and the proof that the S3 store is one).
  \<^item> \<^verbatim>\<open>s4logs-drain\<close>: \<^verbatim>\<open>S4_Window\<close> (\<^verbatim>\<open>window.rs\<close>: the grid), \<^verbatim>\<open>S4_Manifest\<close> (\<^verbatim>\<open>manifest.rs\<close>; locale
    \<open>manifest_view\<close>), \<^verbatim>\<open>S4_Cw\<close> (\<^verbatim>\<open>cw.rs\<close>: backoff and paging), \<^verbatim>\<open>S4_Shard\<close> (\<^verbatim>\<open>shard.rs\<close>, \<^verbatim>\<open>discover.rs\<close>),
    \<^verbatim>\<open>S4_Job\<close> (\<^verbatim>\<open>job.rs\<close>, \<^verbatim>\<open>progress.rs\<close>: the definitions), \<^verbatim>\<open>S4_Drain\<close> (their theorems, in the locale \<open>drain_stores\<close>
    of a sink and a manifest store that do not disturb each other), \<^verbatim>\<open>S4_Retention\<close> (\<^verbatim>\<open>retention.rs\<close>),
    \<^verbatim>\<open>S4_Reconcile\<close> (\<^verbatim>\<open>reconcile.rs\<close>).
  \<^item> \<^verbatim>\<open>s4logs-gateway\<close>: \<^verbatim>\<open>S4_Wal\<close> (\<^verbatim>\<open>wal.rs\<close>), \<^verbatim>\<open>S4_Api\<close> (\<^verbatim>\<open>api.rs\<close>), \<^verbatim>\<open>S4_Buffer\<close> (the locked sections of
    \<^verbatim>\<open>buffer.rs\<close>), \<^verbatim>\<open>S4_Accept\<close> and \<^verbatim>\<open>S4_Durability\<close> (what accepting and storing keep; locale \<open>buffer_sink\<close> and
    the invariant of the reachable states), \<^verbatim>\<open>S4_Gateway\<close> (replay, shutdown, the guarantees to clients),
    \<^verbatim>\<open>S4_Routing\<close> (\<^verbatim>\<open>routing.rs\<close>, \<^verbatim>\<open>registry.rs\<close>), \<^verbatim>\<open>S4_Text\<close> (ASCII text methods), \<^verbatim>\<open>S4_Auth\<close> (\<^verbatim>\<open>auth.rs\<close>: SigV4), \<^verbatim>\<open>S4_Handlers\<close>
    (\<^verbatim>\<open>handlers.rs\<close>, \<^verbatim>\<open>forward.rs\<close>, \<^verbatim>\<open>sink.rs\<close>, \<^verbatim>\<open>lib.rs\<close>: every action, the authentication layer, the server's life).
  \<^item> \<^verbatim>\<open>s4logs-cli\<close>: \<^verbatim>\<open>S4_Merge\<close> and \<^verbatim>\<open>S4_Scan\<close> (\<^verbatim>\<open>scan.rs\<close>: the k-way merge against a stable sort, listing, pruning,
    clustering; locale \<open>record_batch_source\<close>), \<^verbatim>\<open>S4_Restore\<close> (\<^verbatim>\<open>restore.rs\<close>), \<^verbatim>\<open>S4_Timearg\<close> (\<^verbatim>\<open>timearg.rs\<close>),
    \<^verbatim>\<open>S4_Commands\<close> (\<^verbatim>\<open>cli.rs\<close>, \<^verbatim>\<open>main.rs\<close> and the commands \<^verbatim>\<open>drain\<close>, \<^verbatim>\<open>grep\<close>, \<^verbatim>\<open>serve\<close>), \<^verbatim>\<open>S4_Report\<close> (\<^verbatim>\<open>report.rs\<close> and the
    price functions of \<^verbatim>\<open>job.rs\<close>), \<^verbatim>\<open>S4_Plan\<close> (\<^verbatim>\<open>plan.rs\<close>).
  \<^item> \<^verbatim>\<open>S4_Archive\<close> and \<^verbatim>\<open>S4_Ingest\<close> join the crates. The bucket as the reader sees it (\<open>archived\<close>) is an
    invariant of every step of a drain and of every step of the gateway, half-failed flushes included; so a scan
    after a first drain finds exactly the drained events, a restore delivers them, and a scan after the gateway
    finds what it acknowledged.

  \<^bold>\<open>What is proved.\<close> End to end: what a drain archives or a gateway acknowledges, a scan finds, and a restore
  puts back into CloudWatch. Round trips (chunks, keys, S4LT tables, WAL segments). Drain: a sealed window has every
  event of its time range in the objects its manifest lists; a successful run seals every complete window; a second
  run writes nothing; dry runs write nothing; the windows tile the range. Retention changes only when every
  event it would expire lies in a proved window. Reconcile only adds. Gateway: in every interleaving an
  acknowledged record is stored, buffered, in flight or counted as dropped, with a WAL it survives power loss at every moment, replay
  and shutdown recover it; signatures bind the whole request; routing is first match as configured.
  Reader: a scan ends and hands out exactly the matching archived records in order; a restore delivers them in legal batches.
  Commands: exit codes tell what happened; report and coverage figures are exact.

  \<^bold>\<open>Parameters and their laws.\<close> Code that is not in the repository is an argument of the model, and
  what the program relies on is a named hypothesis: \<^verbatim>\<open>serde_json\<close> (\<open>jsonl_faithful\<close>, \<open>json_closed\<close>, \<open>serde_sound\<close>),
  zstd (\<open>zstd_faithful\<close>: encoding inverts and frames concatenate), crc32c, the \<^verbatim>\<open>s4-codec\<close> crate (\<open>s4_codec\<close>),
  the S3 client (\<open>put_law\<close>, \<open>get_law\<close>, \<open>get_sound\<close>, \<open>list_law\<close>: a successful PUT is readable, a failed
  one leaves the old or the new body), the CloudWatch client (\<open>cw_holds\<close>: a page stream without an error gives the events of
  its window and streams once), chrono (\<open>calendar_ok\<close>, \<open>day_dates\<close>), globset, toml, regex, SHA-256 and HMAC
  (collision freedom on the requests compared), the stream name hasher, uuid suffixes, the iteration order of a
  \<^verbatim>\<open>HashMap\<close>, the IEEE operations (\<open>f64_ops\<close>). Each is used with concrete functions in the witnesses. The standard library's
  file operations are modelled: a directory has a current and a durable content, a sync copies the
  first into the second, and a script says which operations fail.

  \<^bold>\<open>Bounds.\<close> No fuel is used. The concrete bounds are the program's constants:
  64 GiB decompression ceiling and 2 GiB for the scan's fallback decoder, five attempts per
  \<^verbatim>\<open>PutLogEvents\<close> call of a restore with at most 10,000 events and 1 MiB per batch, 100 streams per
  filter, 50 entries per page of the gateway's describe calls.

  \<^bold>\<open>Not modelled.\<close> The rendering of tables, progress and log lines as text and \<^verbatim>\<open>format_bytes\<close> (floating point
  output); tracing and metrics export; axum's serving loop, signal handling and the HTTP parser (the serving phase is an
  argument of the server's life); clap's parsing (derived); construction of AWS SDK clients; the
  values of the USD estimates (their expressions are modelled over abstract floats); module
  declarations and test support.
\<close>

end
